(* ===== verification/Prelude.thy ===== *)
theory Prelude
  imports Main "HOL-Library.Word" "HOL-Library.Sublist" "HOL-Library.Multiset"
begin

text \<open>
  What every component of the server model shares: the named collections its
  simplification rules go into, the conversions between the C++ integer types the
  sources mix (\<open>int\<close>, \<open>size_t\<close>), and generic facts on lists.
\<close>

unbundle bit_operations_syntax

section \<open>Collections\<close>

named_theorems os_calls "definitions of the system calls, each an answer of the oracle and an event"
named_theorems message_defs "constructors and setters of the request, the response and the end point"
named_theorems server_defs "operations of the listening socket"

section \<open>Integer conversions\<close>

text \<open>
  \<open>to_int\<close> is the implicit conversion of a wider integer to the 32-bit \<open>int\<close> of the
  platform (two's complement), \<open>to_size\<close> the conversion of an \<open>int\<close> to the 64-bit
  unsigned \<open>size_t\<close>.
\<close>

definition to_int :: "int \<Rightarrow> int" where
  "to_int x = signed_take_bit 31 x"

definition to_size :: "int \<Rightarrow> nat" where
  "to_size x = nat (take_bit 64 x)"

definition npos :: nat where
  "npos = 2 ^ 64 - 1"

lemma to_int_id: "- (2 ^ 31) \<le> x \<Longrightarrow> x < 2 ^ 31 \<Longrightarrow> to_int x = x"
  unfolding to_int_def by (simp add: signed_take_bit_int_eq_self)

lemma to_int_nat [simp]: "n < 2147483648 \<Longrightarrow> to_int (int n) = int n"
  by (rule to_int_id) simp_all

lemma to_int_0 [simp]: "to_int 0 = 0"
  by (rule to_int_id) simp_all

lemma to_int_1 [simp]: "to_int 1 = 1"
  by (rule to_int_id) simp_all

lemma to_int_numeral [simp]: "(numeral k :: int) < 2147483648 \<Longrightarrow> to_int (numeral k) = numeral k"
  by (rule to_int_id) simp_all

lemma to_int_range: "- (2 ^ 31) \<le> to_int x \<and> to_int x < 2 ^ 31"
  unfolding to_int_def
  using signed_take_bit_int_greater_eq_minus_exp signed_take_bit_int_less_exp
  by (metis (no_types))

lemma to_int_cong: "to_int (x + k * 2 ^ 32) = to_int x"
proof -
  have "take_bit (Suc 31) (x + k * 2 ^ 32) = take_bit (Suc 31) x"
    by (simp add: take_bit_eq_mod)
  then show ?thesis
    unfolding to_int_def by (simp add: signed_take_bit_eq_iff_take_bit_eq)
qed

lemma to_size_nonneg: "0 \<le> x \<Longrightarrow> x < 2 ^ 64 \<Longrightarrow> to_size x = nat x"
  by (simp add: to_size_def take_bit_int_eq_self)

lemma to_size_nat [simp]: "n < 18446744073709551616 \<Longrightarrow> to_size (int n) = n"
  by (simp add: to_size_nonneg)

lemma to_int_npos [simp]: "to_int (int npos) = -1"
  by (simp add: to_int_def npos_def)

section \<open>Lists\<close>

lemma drop_dropWhile_length: "length (dropWhile P xs) \<le> length xs"
  by (rule length_dropWhile_le)

lemma takeWhile_append_stop:
  "(\<forall>x \<in> set xs. P x) \<Longrightarrow> \<not> P y \<Longrightarrow> takeWhile P (xs @ y # ys) = xs"
  by (simp add: takeWhile_append2)

lemma dropWhile_append_stop:
  "(\<forall>x \<in> set xs. P x) \<Longrightarrow> \<not> P y \<Longrightarrow> dropWhile P (xs @ y # ys) = y # ys"
  by (simp add: dropWhile_append2)

lemma first_split_unique:
  assumes "k @ x # v = a @ x # b" and "x \<notin> set k" and "x \<notin> set a"
  shows "a = k \<and> b = v"
proof -
  have "takeWhile (\<lambda>c. c \<noteq> x) (k @ x # v) = k" "takeWhile (\<lambda>c. c \<noteq> x) (a @ x # b) = a"
    using assms(2,3) by (auto intro!: takeWhile_append_stop)
  with assms(1) show ?thesis by simp
qed

lemma takeWhile_all: "(\<forall>x \<in> set xs. P x) \<Longrightarrow> takeWhile P xs = xs"
  by simp

lemma dropWhile_all: "(\<forall>x \<in> set xs. P x) \<Longrightarrow> dropWhile P xs = []"
  by simp

lemma mset_upd_swap:
  "i < length xs \<Longrightarrow> mset (xs[i := y]) = add_mset y (mset xs - {#xs ! i#})"
  by (rule mset_update)

end
