(* ===== verification/Cstd.thy ===== *)
theory Cstd
  imports Prelude
begin

text \<open>
  The part of the C and C++ standard library the sources use: \<open>std::string\<close> searching
  and cutting, the character classes of the "C" locale, word extraction from a
  \<open>stringstream\<close>, \<open>std::to_string\<close>, glibc's \<open>atoi\<close>, \<open>htons\<close> and the
  \<open>wait\<close> status macros. A \<open>std::string\<close> is a list of characters (bytes).
\<close>

section \<open>Searching and cutting strings\<close>

text \<open>\<open>find_str pat s\<close> is the position of the first occurrence of \<open>pat\<close> in \<open>s\<close>.\<close>

fun find_str :: "string \<Rightarrow> string \<Rightarrow> nat option" where
  "find_str pat [] = (if pat = [] then Some 0 else None)"
| "find_str pat (c # s) =
     (if prefix pat (c # s) then Some 0 else map_option Suc (find_str pat s))"

definition find_pos :: "string \<Rightarrow> string \<Rightarrow> nat" where
  "find_pos pat s = (case find_str pat s of None \<Rightarrow> npos | Some i \<Rightarrow> i)"

fun rfind_char :: "char \<Rightarrow> string \<Rightarrow> nat option" where
  "rfind_char c [] = None"
| "rfind_char c (d # s) =
     (case rfind_char c s of
        Some i \<Rightarrow> Some (Suc i)
      | None \<Rightarrow> if d = c then Some 0 else None)"

text \<open>
  \<open>substr\<close> throws \<open>std::out_of_range\<close> when the position is past the end; it is
  \<open>None\<close> here.
\<close>

definition substr :: "string \<Rightarrow> nat \<Rightarrow> nat \<Rightarrow> string option" where
  "substr s pos n = (if pos \<le> length s then Some (take n (drop pos s)) else None)"

lemma find_str_Some_cut:
  "find_str pat s = Some i \<Longrightarrow> s = take i s @ pat @ drop (i + length pat) s \<and> i + length pat \<le> length s"
proof (induction pat s arbitrary: i rule: find_str.induct)
  case (1 pat)
  then show ?case by (auto split: if_splits)
next
  case (2 pat c s)
  show ?case
  proof (cases "prefix pat (c # s)")
    case True
    then have "length pat \<le> length (c # s)" by (rule prefix_length_le)
    with True "2.prems" show ?thesis by (auto simp: prefix_def)
  next
    case False
    with "2.prems" obtain j where "find_str pat s = Some j" "i = Suc j" by auto
    with "2.IH"[OF False] show ?thesis by auto
  qed
qed

lemma find_str_length: "find_str pat s = Some i \<Longrightarrow> i + length pat \<le> length s"
  using find_str_Some_cut by blast

lemma find_str_first:
  "find_str pat s = Some i \<Longrightarrow> j < i \<Longrightarrow> \<not> prefix pat (drop j s)"
proof (induction pat s arbitrary: i j rule: find_str.induct)
  case (1 pat)
  then show ?case by (auto split: if_splits)
next
  case (2 pat c s)
  show ?case
  proof (cases "prefix pat (c # s)")
    case True
    with "2.prems" show ?thesis by simp
  next
    case False
    with "2.prems" obtain k where k: "find_str pat s = Some k" "i = Suc k" by auto
    from False "2.IH"[OF False k(1)] k(2) "2.prems"(2) show ?thesis
      by (cases j) auto
  qed
qed

lemma find_str_None: "find_str pat s = None \<longleftrightarrow> \<not> sublist pat s"
proof (induction pat s rule: find_str.induct)
  case (1 pat)
  then show ?case by simp
next
  case (2 pat c s)
  then show ?case by (auto simp: sublist_Cons_right)
qed

lemma find_str_char_append:
  "x \<notin> set s \<Longrightarrow> find_str [x] (s @ x # t) = Some (length s)"
  by (induction s) auto

lemma find_str_char_None: "x \<notin> set s \<Longrightarrow> find_str [x] s = None"
  by (induction s) auto

lemma find_str_char_iff: "find_str [x] s = None \<longleftrightarrow> x \<notin> set s"
  by (induction s) auto

lemma find_pos_Some: "find_str pat s = Some i \<Longrightarrow> find_pos pat s = i"
  by (simp add: find_pos_def)

lemma rfind_char_None: "rfind_char c s = None \<longleftrightarrow> c \<notin> set s"
  by (induction s) (auto split: option.splits)

lemma rfind_char_Some:
  "rfind_char c s = Some i \<Longrightarrow> i < length s \<and> s ! i = c \<and> c \<notin> set (drop (Suc i) s)"
proof (induction s arbitrary: i)
  case Nil
  then show ?case by simp
next
  case (Cons d s)
  show ?case
  proof (cases "rfind_char c s")
    case None
    with Cons.prems show ?thesis by (auto split: if_splits simp: rfind_char_None)
  next
    case (Some j)
    with Cons show ?thesis by auto
  qed
qed

lemma rfind_char_append:
  "c \<notin> set t \<Longrightarrow> rfind_char c (s @ c # t) = Some (length s)"
  by (induction s) (auto simp: rfind_char_None split: option.splits)

section \<open>Character classes\<close>

definition isspace :: "char \<Rightarrow> bool" where
  "isspace c \<longleftrightarrow> of_char c \<in> {9, 10, 11, 12, 13, 32 :: nat}"

definition isalpha :: "char \<Rightarrow> bool" where
  "isalpha c \<longleftrightarrow> (let n = (of_char c :: nat) in (65 \<le> n \<and> n \<le> 90) \<or> (97 \<le> n \<and> n \<le> 122))"

definition isdigit :: "char \<Rightarrow> bool" where
  "isdigit c \<longleftrightarrow> (let n = (of_char c :: nat) in 48 \<le> n \<and> n \<le> 57)"

definition toupper :: "char \<Rightarrow> char" where
  "toupper c = (let n = (of_char c :: nat) in
     if 97 \<le> n \<and> n \<le> 122 then char_of (n - 32) else c)"

lemma toupper_idem [simp]: "toupper (toupper c) = toupper c"
  by (auto simp: toupper_def Let_def of_char_of)

text \<open>What a C function sees of a \<open>std::string\<close> through \<open>c_str()\<close>.\<close>

definition c_str :: "string \<Rightarrow> string" where
  "c_str s = takeWhile (\<lambda>c. c \<noteq> CHR 0x00) s"

lemma c_str_id: "CHR 0x00 \<notin> set s \<Longrightarrow> c_str s = s"
  by (auto simp: c_str_def intro!: takeWhile_all)

lemma c_str_c_str [simp]: "c_str (c_str s) = c_str s"
  by (auto simp: c_str_def intro!: takeWhile_all dest: set_takeWhileD)

section \<open>Word extraction from a stream\<close>

text \<open>\<open>ss >> w\<close>: skip white space, then take the longest run without it.\<close>

definition next_word :: "string \<Rightarrow> string \<times> string" where
  "next_word s = (let t = dropWhile isspace s in
     (takeWhile (\<lambda>c. \<not> isspace c) t, dropWhile (\<lambda>c. \<not> isspace c) t))"

definition word_ok :: "string \<Rightarrow> bool" where
  "word_ok w \<longleftrightarrow> w \<noteq> [] \<and> (\<forall>c \<in> set w. \<not> isspace c)"

lemma next_word_hit:
  assumes "word_ok w" and "isspace c"
  shows "next_word (w @ c # s) = (w, c # s)"
proof -
  from assms(1) obtain d v where w: "w = d # v" "\<not> isspace d" "\<forall>x \<in> set v. \<not> isspace x"
    by (cases w) (auto simp: word_ok_def)
  then show ?thesis using assms(2)
    by (simp add: next_word_def Let_def takeWhile_append2 dropWhile_append2)
qed

lemma next_word_end: "word_ok w \<Longrightarrow> next_word w = (w, [])"
  by (cases w) (auto simp: next_word_def word_ok_def Let_def)

lemma next_word_skip: "isspace c \<Longrightarrow> next_word (c # s) = next_word s"
  by (simp add: next_word_def Let_def)

section \<open>Numbers and text\<close>

definition digit_char :: "nat \<Rightarrow> char" where
  "digit_char d = char_of (48 + d)"

fun show_nat :: "nat \<Rightarrow> string" where
  "show_nat n = (if n < 10 then [digit_char n] else show_nat (n div 10) @ [digit_char (n mod 10)])"

declare show_nat.simps [simp del]

definition show_int :: "int \<Rightarrow> string" where
  "show_int i = (if i < 0 then CHR ''-'' # show_nat (nat (- i)) else show_nat (nat i))"

definition digit_val :: "char \<Rightarrow> nat" where
  "digit_val c = of_char c - 48"

definition digits_val :: "string \<Rightarrow> nat" where
  "digits_val s = foldl (\<lambda>acc c. 10 * acc + digit_val c) 0 s"

text \<open>
  glibc: \<open>atoi s = (int) strtol (s, NULL, 10)\<close>: white space, an optional sign, then the
  digits; the value is clamped to \<open>long\<close> and then cut to \<open>int\<close>.
\<close>

definition strtol_clamp :: "int \<Rightarrow> int" where
  "strtol_clamp v = max (- (2 ^ 63)) (min (2 ^ 63 - 1) v)"

definition atoi :: "string \<Rightarrow> int" where
  "atoi s = (let t = dropWhile isspace s;
                 neg = (t \<noteq> [] \<and> hd t = CHR ''-'');
                 u = (if t \<noteq> [] \<and> (hd t = CHR ''-'' \<or> hd t = CHR ''+'') then tl t else t);
                 v = int (digits_val (takeWhile isdigit u))
             in to_int (strtol_clamp (if neg then - v else v)))"

lemma digit_char_val [simp]: "d < 10 \<Longrightarrow> digit_val (digit_char d) = d"
  by (simp add: digit_val_def digit_char_def of_char_of)

lemma digit_char_isdigit [simp]: "d < 10 \<Longrightarrow> isdigit (digit_char d)"
  by (simp add: isdigit_def digit_char_def of_char_of)

lemma digit_char_simps [simp]:
  "digit_char 0 = CHR ''0''" "digit_char 1 = CHR ''1''" "digit_char (Suc 0) = CHR ''1''"
  "digit_char 2 = CHR ''2''" "digit_char 3 = CHR ''3''" "digit_char 4 = CHR ''4''"
  "digit_char 5 = CHR ''5''" "digit_char 6 = CHR ''6''" "digit_char 7 = CHR ''7''"
  "digit_char 8 = CHR ''8''" "digit_char 9 = CHR ''9''"
  by code_simp+

lemma show_nat_0 [simp]: "show_nat 0 = ''0''"
  by (simp add: show_nat.simps [of 0])

lemma show_nat_digits: "\<forall>c \<in> set (show_nat n). isdigit c"
proof (induction n rule: show_nat.induct)
  case (1 n)
  then show ?case by (cases "n < 10") (auto simp: show_nat.simps [of n])
qed

lemma show_nat_nonempty: "show_nat n \<noteq> []"
  by (subst show_nat.simps) simp

lemma digits_val_snoc: "digits_val (s @ [c]) = 10 * digits_val s + digit_val c"
  by (simp add: digits_val_def)

lemma digits_val_show_nat [simp]: "digits_val (show_nat n) = n"
proof (induction n rule: show_nat.induct)
  case (1 n)
  show ?case
  proof (cases "n < 10")
    case True
    then show ?thesis by (simp add: show_nat.simps [of n] digits_val_def)
  next
    case False
    with 1 show ?thesis by (simp add: show_nat.simps [of n] digits_val_snoc)
  qed
qed

lemma isdigit_not_space: "isdigit c \<Longrightarrow> \<not> isspace c"
  by (auto simp: isdigit_def isspace_def Let_def)

lemma isdigit_not_sign: "isdigit c \<Longrightarrow> c \<noteq> CHR ''-'' \<and> c \<noteq> CHR ''+''"
  by (auto simp: isdigit_def Let_def)

lemma show_nat_hd: "\<exists>d t. show_nat n = d # t \<and> isdigit d"
  using show_nat_digits [of n] show_nat_nonempty [of n] by (cases "show_nat n") auto

lemma takeWhile_show_nat: "takeWhile isdigit (show_nat n) = show_nat n"
  using show_nat_digits by (simp add: takeWhile_all)

lemma atoi_show_nat: "n < 2147483648 \<Longrightarrow> atoi (show_nat n) = int n"
proof -
  assume n: "n < 2147483648"
  obtain d t where d: "show_nat n = d # t" "isdigit d" using show_nat_hd by blast
  then have "\<not> isspace d" "d \<noteq> CHR ''-''" "d \<noteq> CHR ''+''"
    using isdigit_not_space isdigit_not_sign by blast+
  then have "atoi (show_nat n) = to_int (strtol_clamp (int (digits_val (takeWhile isdigit (show_nat n)))))"
    by (simp add: atoi_def d(1) Let_def)
  also have "\<dots> = to_int (strtol_clamp (int n))"
    by (simp add: takeWhile_show_nat)
  also have "\<dots> = int n" using n by (simp add: strtol_clamp_def)
  finally show ?thesis .
qed

lemma atoi_show_int:
  assumes "- (2 ^ 31) \<le> i" and "i < 2 ^ 31"
  shows "atoi (show_int i) = i"
proof (cases "i < 0")
  case False
  with assms atoi_show_nat [of "nat i"] show ?thesis by (simp add: show_int_def)
next
  case True
  have "\<not> isspace (CHR ''-'')" by (simp add: isspace_def)
  then have "atoi (show_int i) = to_int (strtol_clamp (- int (digits_val (takeWhile isdigit (show_nat (nat (- i)))))))"
    using True by (simp add: atoi_def show_int_def Let_def)
  also have "\<dots> = to_int (strtol_clamp i)"
    using True by (simp add: takeWhile_show_nat)
  also have "\<dots> = i" using assms by (simp add: strtol_clamp_def to_int_id)
  finally show ?thesis .
qed

section \<open>Network byte order and wait status\<close>

definition htons :: "16 word \<Rightarrow> 16 word" where
  "htons x = push_bit 8 x OR drop_bit 8 x"

lemma htons_htons: "htons (htons x) = x"
  unfolding htons_def by (rule bit_word_eqI) (auto simp: bit_simps)

definition WTERMSIG :: "32 word \<Rightarrow> 32 word" where
  "WTERMSIG st = st AND 0x7f"

definition WIFEXITED :: "32 word \<Rightarrow> bool" where
  "WIFEXITED st \<longleftrightarrow> WTERMSIG st = 0"

text \<open>\<open>((signed char) ((status & 0x7f) + 1) >> 1) > 0\<close>\<close>

definition WIFSIGNALED :: "32 word \<Rightarrow> bool" where
  "WIFSIGNALED st \<longleftrightarrow> 0 < sint (signed_drop_bit 1 (ucast (WTERMSIG st + 1) :: 8 word))"

lemma WIFEXITED_not_signaled: "WIFEXITED st \<Longrightarrow> \<not> WIFSIGNALED st"
  by (simp add: WIFEXITED_def WIFSIGNALED_def)

end
