(* ===== verification/Log_Level.thy ===== *)
theory Log_Level
  imports Prelude
begin

text \<open>
  \<open>LogLevel\<close> of include/log.h and src/log.cc: the enumeration with its order (the
  loggers compare levels with \<open>\<le>\<close> and \<open>\<ge>\<close>) and its two conversions.
\<close>

datatype Level = UNKOWN | DEBUG | INFO | WARN | ERROR | FATAL

fun level_value :: "Level \<Rightarrow> nat" where
  "level_value UNKOWN = 0"
| "level_value DEBUG = 1"
| "level_value INFO = 2"
| "level_value WARN = 3"
| "level_value ERROR = 4"
| "level_value FATAL = 5"

lemma level_value_inj [simp]: "level_value a = level_value b \<longleftrightarrow> a = b"
  by (cases a; cases b) simp_all

instantiation Level :: linorder
begin

definition less_eq_Level :: "Level \<Rightarrow> Level \<Rightarrow> bool" where
  "less_eq_Level a b \<longleftrightarrow> level_value a \<le> level_value b"

definition less_Level :: "Level \<Rightarrow> Level \<Rightarrow> bool" where
  "less_Level a b \<longleftrightarrow> level_value a < level_value b"

instance
  by standard (auto simp: less_eq_Level_def less_Level_def)

end

fun toString :: "Level \<Rightarrow> string" where
  "toString DEBUG = ''DEBUG''"
| "toString INFO = ''INFO''"
| "toString WARN = ''WARN''"
| "toString ERROR = ''ERROR''"
| "toString FATAL = ''FATAL''"
| "toString UNKOWN = ''UNKOWN''"

definition fromString :: "string \<Rightarrow> Level" where
  "fromString str =
     (if str = ''DEBUG'' then DEBUG
      else if str = ''INFO'' then INFO
      else if str = ''WARN'' then WARN
      else if str = ''ERROR'' then ERROR
      else if str = ''FATAL'' then FATAL
      else UNKOWN)"

lemma toString_not_Nil [simp]: "toString l \<noteq> []"
  by (cases l) simp_all

lemma UNKOWN_least [simp]: "UNKOWN \<le> l"
  by (simp add: less_eq_Level_def)

lemma Level_le_values [simp]:
  "DEBUG \<le> INFO" "DEBUG \<le> DEBUG" "DEBUG \<le> WARN" "DEBUG \<le> ERROR" "DEBUG \<le> FATAL"
  "\<not> DEBUG \<le> UNKOWN"
  by (simp_all add: less_eq_Level_def)

text \<open>
  Converting a level to its name and back gives the
  level again, and a string is the name of a level other than \<open>UNKOWN\<close> exactly when
  \<open>fromString\<close> does not answer \<open>UNKOWN\<close>.
\<close>

theorem level_roundtrip:
  "fromString (toString l) = l \<and>
   (fromString str \<noteq> UNKOWN \<longleftrightarrow> (\<exists>m. m \<noteq> UNKOWN \<and> str = toString m))"
proof
  show "fromString (toString l) = l" by (cases l) (simp_all add: fromString_def)
  have "fromString str = m \<longrightarrow> m \<noteq> UNKOWN \<longrightarrow> str = toString m" for m
    by (cases m) (auto simp: fromString_def split: if_splits)
  moreover have "fromString (toString m) = m" for m
    by (cases m) (simp_all add: fromString_def)
  ultimately show "fromString str \<noteq> UNKOWN \<longleftrightarrow> (\<exists>m. m \<noteq> UNKOWN \<and> str = toString m)"
    by metis
qed

end
