(* ===== verification/World.thy ===== *)
theory World
  imports Cstd Log_Level
begin

text \<open>
  The operating system as the program sees it. Every system call, log statement and
  console write is an \<open>event\<close>; a run is the list of its events, oldest first. What a
  call answers is given by an oracle \<open>os\<close>, a record of functions of the events so far,
  so the answers may change over time in any way. What the client's socket delivers is a
  script \<open>sock_in\<close>: each item is one byte or one failing \<open>recv\<close> (on these non-blocking
  sockets that is \<open>EAGAIN\<close>), and the end of the script is the end of the stream. A
  started CGI program is a function of its environment and of its standard input, giving its
  standard output and wait status, or nothing when it never finishes. Its standard input is a pipe: the bytes
  that were written into it, and whether the file ends behind them or a read waits there.
\<close>

section \<open>Events\<close>

datatype event =
    EvLog Level string            \<comment> \<open>\<open>LOG_x(LOG_ROOT()) << msg\<close>\<close>
  | EvOut string                  \<comment> \<open>\<open>std::cout\<close>\<close>
  | EvErr string                  \<comment> \<open>\<open>std::cerr\<close>, \<open>perror\<close>\<close>
  | EvStat string
  | EvOpen string int             \<comment> \<open>path, answer\<close>
  | EvClose int
  | EvPipe "(int \<times> int) option"
  | EvFork int
  | EvExec string "string list"   \<comment> \<open>in the child: program, environment\<close>
  | EvWrite int string int        \<comment> \<open>descriptor, bytes, answer\<close>
  | EvWaitpid int int             \<comment> \<open>pid, answer\<close>
  | EvSend int string int         \<comment> \<open>socket, bytes, answer\<close>
  | EvSendfile int int int string \<comment> \<open>socket, file, count, bytes transferred\<close>
  | EvSignal string               \<comment> \<open>\<open>signal(SIGx, SIG_IGN)\<close>\<close>
  | EvSocket int
  | EvSetsockopt int
  | EvBind int "16 word" int
  | EvListen int int int
  | EvAccept int int              \<comment> \<open>listening socket, answer\<close>
  | EvAccept4 int int             \<comment> \<open>the same for \<open>accept4\<close>\<close>
  | EvPush int                    \<comment> \<open>a task for this socket is handed to the pool\<close>
  | EvExit int

record stat =
  st_mode :: "32 word"
  st_size :: int

type_synonym cgi_program = "string list \<Rightarrow> bool \<Rightarrow> string \<Rightarrow> (string \<times> 32 word) option"

record os =
  os_stat :: "event list \<Rightarrow> string \<Rightarrow> stat option"
  os_open :: "event list \<Rightarrow> string \<Rightarrow> int"
  os_pipe :: "event list \<Rightarrow> (int \<times> int) option"
  os_fork :: "event list \<Rightarrow> int"
  os_exec :: "event list \<Rightarrow> string \<Rightarrow> cgi_program option"
  os_freed :: "event list \<Rightarrow> string \<Rightarrow> string"
    \<comment> \<open>what the storage of a destroyed string holds when it is read later\<close>
  os_write :: "event list \<Rightarrow> int \<Rightarrow> string \<Rightarrow> int"
  os_waitpid :: "event list \<Rightarrow> int \<Rightarrow> int"
  os_send :: "event list \<Rightarrow> int \<Rightarrow> string \<Rightarrow> int"
  os_sendfile :: "event list \<Rightarrow> int \<Rightarrow> int \<Rightarrow> string"
  os_socket :: "event list \<Rightarrow> int"
  os_bind :: "event list \<Rightarrow> int \<Rightarrow> 16 word \<Rightarrow> int"
  os_listen :: "event list \<Rightarrow> int \<Rightarrow> int"
  os_accept :: "event list \<Rightarrow> int \<Rightarrow> int \<times> int"
    \<comment> \<open>answer and \<open>errno\<close>\<close>

datatype rx = RByte char | RErr

record world =
  sock_in :: "rx list"
  trace :: "event list"

definition emit :: "event \<Rightarrow> world \<Rightarrow> world" where
  "emit e w = w\<lparr>trace := trace w @ [e]\<rparr>"

lemma emit_trace [simp]: "trace (emit e w) = trace w @ [e]"
  by (simp add: emit_def)

lemma emit_sock_in [simp]: "sock_in (emit e w) = sock_in w"
  by (simp add: emit_def)

section \<open>System calls\<close>

text \<open>
  A call reports at most the number of bytes it was given, as POSIX documents for
  \<open>write\<close> and \<open>send\<close>; an oracle answer above it counts as an error.
\<close>

definition clip :: "int \<Rightarrow> string \<Rightarrow> int" where
  "clip r s = (if r \<le> int (length s) then r else -1)"

lemma clip_le: "clip r s \<le> int (length s)"
  by (simp add: clip_def)

definition sys_send :: "os \<Rightarrow> int \<Rightarrow> string \<Rightarrow> world \<Rightarrow> int \<times> world" where
  "sys_send os fd s w = (let r = clip (os_send os (trace w) fd s) s in (r, emit (EvSend fd s r) w))"

definition sys_write :: "os \<Rightarrow> int \<Rightarrow> string \<Rightarrow> world \<Rightarrow> int \<times> world" where
  "sys_write os fd s w = (let r = clip (os_write os (trace w) fd s) s in (r, emit (EvWrite fd s r) w))"

definition sys_open :: "os \<Rightarrow> string \<Rightarrow> world \<Rightarrow> int \<times> world" where
  "sys_open os p w = (let r = os_open os (trace w) p in (r, emit (EvOpen p r) w))"

definition sys_stat :: "os \<Rightarrow> string \<Rightarrow> world \<Rightarrow> stat option \<times> world" where
  "sys_stat os p w = (os_stat os (trace w) p, emit (EvStat p) w)"

definition sys_sendfile :: "os \<Rightarrow> int \<Rightarrow> int \<Rightarrow> int \<Rightarrow> world \<Rightarrow> world" where
  "sys_sendfile os out inp n w = emit (EvSendfile out inp n (os_sendfile os (trace w) inp n)) w"

definition sys_pipe :: "os \<Rightarrow> world \<Rightarrow> (int \<times> int) option \<times> world" where
  "sys_pipe os w = (let r = os_pipe os (trace w) in (r, emit (EvPipe r) w))"

definition sys_fork :: "os \<Rightarrow> world \<Rightarrow> int \<times> world" where
  "sys_fork os w = (let r = os_fork os (trace w) in (r, emit (EvFork r) w))"

definition sys_close :: "int \<Rightarrow> world \<Rightarrow> world" where
  "sys_close fd w = emit (EvClose fd) w"

definition sys_waitpid :: "os \<Rightarrow> int \<Rightarrow> world \<Rightarrow> int \<times> world" where
  "sys_waitpid os pid w = (let r = os_waitpid os (trace w) pid in (r, emit (EvWaitpid pid r) w))"

lemmas file_and_process_calls [os_calls] = sys_send_def sys_write_def sys_open_def sys_stat_def sys_sendfile_def
  sys_pipe_def sys_fork_def sys_close_def sys_waitpid_def

section \<open>What a run put on a socket\<close>

fun event_wire :: "int \<Rightarrow> event \<Rightarrow> string" where
  "event_wire fd (EvSend s d n) = (if s = fd then take (nat n) d else [])"
| "event_wire fd (EvSendfile s i n d) = (if s = fd then d else [])"
| "event_wire fd _ = []"

definition wire :: "int \<Rightarrow> event list \<Rightarrow> string" where
  "wire fd es = concat (map (event_wire fd) es)"

lemma wire_append [simp]: "wire fd (xs @ ys) = wire fd xs @ wire fd ys"
  by (simp add: wire_def)

lemma wire_Nil [simp]: "wire fd [] = []"
  by (simp add: wire_def)

lemma wire_Cons [simp]: "wire fd (e # es) = event_wire fd e @ wire fd es"
  by (simp add: wire_def)

text \<open>Descriptors a run opened (successfully) and closed.\<close>

fun opened :: "event \<Rightarrow> int list" where
  "opened (EvOpen p r) = (if 0 \<le> r then [r] else [])"
| "opened (EvPipe (Some (a, b))) = [a, b]"
| "opened _ = []"

fun closed :: "event \<Rightarrow> int list" where
  "closed (EvClose fd) = [fd]"
| "closed _ = []"

definition opened_in :: "event list \<Rightarrow> int list" where
  "opened_in es = concat (map opened es)"

definition closed_in :: "event list \<Rightarrow> int list" where
  "closed_in es = concat (map closed es)"

lemma opened_in_simps [simp]:
  "opened_in [] = []" "opened_in (xs @ ys) = opened_in xs @ opened_in ys"
  "opened_in (e # es) = opened e @ opened_in es"
  by (simp_all add: opened_in_def)

lemma closed_in_simps [simp]:
  "closed_in [] = []" "closed_in (xs @ ys) = closed_in xs @ closed_in ys"
  "closed_in (e # es) = closed e @ closed_in es"
  by (simp_all add: closed_in_def)

section \<open>Reading the socket\<close>

text \<open>
  \<open>recv1 i ch\<close> is \<open>recv(sock, &ch, 1, 0)\<close>: the answer, the value of \<open>ch\<close> afterwards
  (unchanged when nothing was read) and the rest of the script; \<open>peek1\<close> is the same call
  with \<open>MSG_PEEK\<close>, which leaves a byte in place. A failing call is used up either way.
\<close>

fun recv1 :: "rx list \<Rightarrow> char \<Rightarrow> int \<times> char \<times> rx list" where
  "recv1 [] ch = (0, ch, [])"
| "recv1 (RErr # i) ch = (-1, ch, i)"
| "recv1 (RByte c # i) ch = (1, c, i)"

fun peek1 :: "rx list \<Rightarrow> char \<Rightarrow> int \<times> char \<times> rx list" where
  "peek1 [] ch = (0, ch, [])"
| "peek1 (RErr # i) ch = (-1, ch, i)"
| "peek1 (RByte c # i) ch = (1, c, RByte c # i)"

lemma recv1_shorter: "recv1 i ch = (sz, ch', i') \<Longrightarrow> 0 < sz \<Longrightarrow> length i' < length i"
  by (induction i ch rule: recv1.induct) auto

lemma recv1_le: "recv1 i ch = (sz, ch', i') \<Longrightarrow> length i' \<le> length i"
  by (induction i ch rule: recv1.induct) auto

lemma peek1_le: "peek1 i ch = (sz, ch', i') \<Longrightarrow> length i' \<le> length i"
  by (induction i ch rule: peek1.induct) auto

text \<open>The failures of the handler that are not a status code.\<close>

datatype failure =
    Uncaught_exception   \<comment> \<open>\<open>std::out_of_range\<close>: the whole server terminates\<close>
  | Blocked_forever      \<comment> \<open>the thread waits for a CGI program that never finishes\<close>

end
