(* ===== verification/Net_Util.thy ===== *)
theory Net_Util
  imports World
begin

text \<open>
  \<open>Util\<close> of include/util.h and src/util.cc: reading a line from a socket and cutting a
  string at a separator, with what each of them promises.
\<close>

abbreviation CR :: char where "CR \<equiv> CHR 0x0D"
abbreviation LF :: char where "LF \<equiv> CHR 0x0A"

section \<open>Definitions\<close>

text \<open>\<open>out.size()\<close> returned as an \<open>int\<close>.\<close>

definition size_int :: "string \<Rightarrow> int" where
  "size_int s = to_int (int (length s))"

lemma size_int_small: "length s < 2 ^ 31 \<Longrightarrow> size_int s = int (length s)"
  by (simp add: size_int_def)

text \<open>
  The loop of \<open>Util::ReaLine\<close>, from the test of \<open>ch\<close>: the answer, the string built so
  far and the rest of the input. \<open>ch\<close> starts as the NUL character.
\<close>

function ReaLine_loop :: "rx list \<Rightarrow> string \<Rightarrow> char \<Rightarrow> int \<times> string \<times> rx list" where
  "ReaLine_loop i out ch =
     (if ch \<noteq> LF then
        (case recv1 i ch of (sz, c1, i1) \<Rightarrow>
           if 0 < sz then
             (if c1 = CR then
                (case peek1 i1 c1 of (_, c2, i2) \<Rightarrow>
                   if c2 = LF
                   then (case recv1 i2 c2 of (_, c3, i3) \<Rightarrow> ReaLine_loop i3 (out @ [c3]) c3)
                   else ReaLine_loop i2 (out @ [LF]) LF)
              else ReaLine_loop i1 (out @ [c1]) c1)
           else if sz = 0 then (0, out, i1)
           else (-1, out, i1))
      else (size_int out, out, i))"
  by pat_completeness auto

lemma recv_sizes:
  "(sz, c, j) = recv1 i ch \<Longrightarrow> length j \<le> length i \<and> (0 < sz \<longrightarrow> length j < length i)"
  "(sz, c, j) = peek1 i ch \<Longrightarrow> length j \<le> length i"
  by (metis recv1_shorter recv1_le, metis peek1_le)

termination ReaLine_loop
  by (relation "measure (\<lambda>(i, out, ch). length i)")
     (auto dest!: recv_sizes)

declare ReaLine_loop.simps [simp del]

definition ReaLine :: "rx list \<Rightarrow> string \<Rightarrow> int \<times> string \<times> rx list" where
  "ReaLine i out = ReaLine_loop i out (CHR 0x00)"

text \<open>
  \<open>Util::Cutstring\<close>: the two out parameters are passed in and returned. The position is
  kept in an \<open>int\<close>, and converted back to \<open>size_t\<close> for the two calls of \<open>substr\<close>; the
  second may throw \<open>std::out_of_range\<close>, here \<open>Inl\<close>.
\<close>

definition Cutstring :: "string \<Rightarrow> string \<Rightarrow> string \<Rightarrow> string \<Rightarrow> failure + string \<times> string" where
  "Cutstring target out1 out2 symbol =
     (let index = to_int (int (find_pos symbol target));
          len = to_int (int (length symbol))
      in if index \<noteq> to_int (int npos)
         then (case (substr target 0 (to_size index),
                     substr target (to_size (to_int (index + len))) npos) of
                 (Some o1, Some o2) \<Rightarrow> Inr (o1, o2)
               | _ \<Rightarrow> Inl Uncaught_exception)
         else Inr (out1, out2))"

text \<open>\<open>gettid\<close> is the answer of the system call, a \<open>long\<close>.\<close>

definition GetThreadId :: "int \<Rightarrow> int" where
  "GetThreadId gettid = to_int gettid"

definition GetFiberId :: "32 word" where
  "GetFiberId = 0"

section \<open>The line reader, case by case\<close>

lemma ReaLine_loop_step:
  assumes "ch \<noteq> LF"
  shows "ReaLine_loop [] out ch = (0, out, [])"
    and "ReaLine_loop (RErr # i) out ch = (-1, out, i)"
    and "c \<noteq> CR \<Longrightarrow> ReaLine_loop (RByte c # i) out ch = ReaLine_loop i (out @ [c]) c"
    and "ReaLine_loop (RByte CR # RByte LF # i) out ch = ReaLine_loop i (out @ [LF]) LF"
    and "c \<noteq> LF \<Longrightarrow>
      ReaLine_loop (RByte CR # RByte c # i) out ch = ReaLine_loop (RByte c # i) (out @ [LF]) LF"
    and "ReaLine_loop (RByte CR # RErr # i) out ch = ReaLine_loop i (out @ [LF]) LF"
    and "ReaLine_loop [RByte CR] out ch = ReaLine_loop [] (out @ [LF]) LF"
  using assms by (simp_all add: ReaLine_loop.simps [of _ out ch])

lemma ReaLine_loop_done: "ReaLine_loop i out LF = (size_int out, out, i)"
  by (subst ReaLine_loop.simps) simp

lemmas ReaLine_loop_eqs = ReaLine_loop_step ReaLine_loop_done

lemma ReaLine_loop_plain:
  "ch \<noteq> LF \<Longrightarrow> CR \<notin> set l \<Longrightarrow> LF \<notin> set l \<Longrightarrow>
   ReaLine_loop (map RByte l @ i) out ch =
     ReaLine_loop i (out @ l) (if l = [] then ch else last l)"
proof (induction l arbitrary: out ch)
  case Nil
  then show ?case by simp
next
  case (Cons c l)
  then have "c \<noteq> CR" "c \<noteq> LF" by auto
  with Cons show ?case by (simp add: ReaLine_loop_step)
qed

text \<open>A line as it comes over the wire: text without CR and LF, then one of the line ends.\<close>

definition plain :: "string \<Rightarrow> bool" where
  "plain l \<longleftrightarrow> CR \<notin> set l \<and> LF \<notin> set l"

lemma last_not_LF: "plain l \<Longrightarrow> (if l = [] then CHR 0x00 else last l) \<noteq> LF"
  by (auto simp: plain_def dest: last_in_set)

lemma ReaLine_line:
  assumes "plain l"
  shows "ReaLine (map RByte l @ RByte LF # i) [] = (size_int (l @ [LF]), l @ [LF], i)"
    and "ReaLine (map RByte l @ RByte CR # RByte LF # i) [] =
      (size_int (l @ [LF]), l @ [LF], i)"
    and "c \<noteq> LF \<Longrightarrow> ReaLine (map RByte l @ RByte CR # RByte c # i) [] =
      (size_int (l @ [LF]), l @ [LF], RByte c # i)"
    and "ReaLine (map RByte l @ RByte CR # RErr # i) [] =
      (size_int (l @ [LF]), l @ [LF], i)"
    and "ReaLine (map RByte l) [] = (0, l, [])"
    and "ReaLine (map RByte l @ RErr # i) [] = (-1, l, i)"
  using assms last_not_LF [OF assms]
    ReaLine_loop_plain [of "CHR 0x00" l _ "[]"] ReaLine_loop_plain [of "CHR 0x00" l "[]" "[]"]
  by (simp_all add: ReaLine_def ReaLine_loop_eqs plain_def)

lemma ReaLine_line_end:
  "plain l \<Longrightarrow> ReaLine (map RByte l @ [RByte CR]) [] = (size_int (l @ [LF]), l @ [LF], [])"
  using last_not_LF [of l] ReaLine_loop_plain [of "CHR 0x00" l "[RByte CR]" "[]"]
  by (simp add: ReaLine_def ReaLine_loop_eqs plain_def)

section \<open>What every call of the line reader promises\<close>

definition reads_line :: "rx list \<Rightarrow> int \<Rightarrow> string \<Rightarrow> rx list \<Rightarrow> bool" where
  "reads_line i n out i' \<longleftrightarrow> suffix i' i \<and> length out \<le> length i - length i' \<and>
     ((\<exists>l. plain l \<and> out = l @ [LF] \<and> n = size_int out) \<or>
      (plain out \<and> n = 0 \<and> i' = []) \<or>
      (plain out \<and> n = -1 \<and> (\<exists>p. i = p @ RErr # i')))"

text \<open>Every input starts in exactly one of the seven shapes a line reader meets.\<close>

lemma script_cases:
  obtains (line) l where "plain l" "i = map RByte l"
  | (lf) l j where "plain l" "i = map RByte l @ RByte LF # j"
  | (cr) l j where "plain l" "i = map RByte l @ RByte CR # j"
  | (err) l j where "plain l" "i = map RByte l @ RErr # j"
proof (induction i arbitrary: thesis)
  case Nil
  then show ?case by (simp add: plain_def)
next
  case (Cons x i)
  note top = Cons.prems
  show ?case
  proof (cases x)
    case RErr
    then show ?thesis using top(4) [of "[]" i] by (simp add: plain_def)
  next
    case (RByte c)
    show ?thesis
    proof (cases "c = CR \<or> c = LF")
      case True
      then show ?thesis using RByte top(2,3) [of "[]" i] by (auto simp: plain_def)
    next
      case False
      have grow: "plain (c # l)" if "plain l" for l using that False by (auto simp: plain_def)
      show ?thesis
      proof (rule Cons.IH)
        fix l assume "plain l" "i = map RByte l"
        then show thesis using top(1) [of "c # l"] grow RByte by simp
      next
        fix l j assume "plain l" "i = map RByte l @ RByte LF # j"
        then show thesis using top(2) [of "c # l" j] grow RByte by simp
      next
        fix l j assume "plain l" "i = map RByte l @ RByte CR # j"
        then show thesis using top(3) [of "c # l" j] grow RByte by simp
      next
        fix l j assume "plain l" "i = map RByte l @ RErr # j"
        then show thesis using top(4) [of "c # l" j] grow RByte by simp
      qed
    qed
  qed
qed

lemma script_head:
  obtains "j = []" | k where "j = RErr # k" | k where "j = RByte LF # k"
  | c k where "j = RByte c # k" "c \<noteq> LF"
  by (metis list.exhaust rx.exhaust)

lemma reads_line_intro:
  assumes "plain l"
  shows "i = map RByte l @ x # j \<Longrightarrow> suffix i' (x # j) \<Longrightarrow> length i' \<le> length j \<Longrightarrow>
      reads_line i (size_int (l @ [LF])) (l @ [LF]) i'"
  using assms by (auto simp: reads_line_def suffix_def)

lemma ReaLine_reads_line:
  assumes "ReaLine i [] = (n, out, i')"
  shows "reads_line i n out i'"
proof (cases i rule: script_cases)
  case (line l)
  then show ?thesis using assms ReaLine_line(5) [OF line(1)] by (auto simp: reads_line_def)
next
  case (lf l j)
  then show ?thesis using assms ReaLine_line(1) [OF lf(1)]
    by (auto intro!: reads_line_intro suffix_ConsI)
next
  case (err l j)
  then show ?thesis using assms ReaLine_line(6) [OF err(1)]
    by (auto simp: reads_line_def suffix_def)
next
  case (cr l j)
  show ?thesis
  proof (cases j rule: script_head)
    case 1
    with cr assms ReaLine_line_end [OF cr(1)] show ?thesis by (auto intro!: reads_line_intro suffix_ConsI)
  qed (use cr assms ReaLine_line [OF cr(1)] in
        \<open>auto intro!: reads_line_intro suffix_ConsI\<close>)
qed

section \<open>The abstract line reader\<close>

text \<open>
  On a connection without failing calls the reader is a reader of text whose line ends
  (CR LF, CR alone, LF alone) have all become LF.
\<close>

fun normalize_eol :: "string \<Rightarrow> string" where
  "normalize_eol [] = []"
| "normalize_eol (c # s) =
     (if c = CR then
        (case s of [] \<Rightarrow> [LF] | d # t \<Rightarrow> if d = LF then LF # normalize_eol t else LF # normalize_eol s)
      else c # normalize_eol s)"

fun bytes_of :: "rx list \<Rightarrow> string" where
  "bytes_of [] = []"
| "bytes_of (RErr # i) = bytes_of i"
| "bytes_of (RByte c # i) = c # bytes_of i"

definition abs_line :: "string \<Rightarrow> int \<times> string \<times> string" where
  "abs_line s =
     (if LF \<in> set s then
        (let l = takeWhile (\<lambda>c. c \<noteq> LF) s in (size_int (l @ [LF]), l @ [LF], drop (Suc (length l)) s))
      else (0, s, []))"

lemma bytes_of_map [simp]: "bytes_of (map RByte s) = s"
  by (induction s) auto

lemma bytes_of_append [simp]: "bytes_of (i @ j) = bytes_of i @ bytes_of j"
  by (induction i rule: bytes_of.induct) auto

lemma bytes_of_length: "length (bytes_of i) \<le> length i"
  by (induction i rule: bytes_of.induct) auto

lemma normalize_eol_plain: "plain l \<Longrightarrow> normalize_eol (l @ s) = l @ normalize_eol s"
  by (induction l) (auto simp: plain_def)

lemma abs_line_hit: "plain l \<Longrightarrow> abs_line (l @ LF # s) = (size_int (l @ [LF]), l @ [LF], s)"
proof -
  assume "plain l"
  then have "takeWhile (\<lambda>c. c \<noteq> LF) (l @ LF # s) = l"
    by (auto simp: plain_def intro!: takeWhile_append_stop)
  then show ?thesis by (simp add: abs_line_def Let_def)
qed

lemma abs_line_miss: "plain l \<Longrightarrow> abs_line l = (0, l, [])"
  by (auto simp: abs_line_def plain_def)

lemma suffix_map_RByte: "suffix i' (map RByte bs) \<Longrightarrow> i' = map RByte (bytes_of i')"
  by (auto simp: suffix_def map_eq_append_conv)

lemma ReaLine_abs_line:
  assumes "ReaLine (map RByte bs) [] = (n, out, i')"
  shows "(n, out, normalize_eol (bytes_of i')) = abs_line (normalize_eol bs)"
proof (cases "map RByte bs" rule: script_cases)
  case (line l)
  then have "bs = l" by (metis bytes_of_map)
  with line assms ReaLine_line(5) [OF line(1)] normalize_eol_plain [OF line(1), of "[]"]
  show ?thesis by (auto simp: abs_line_miss)
next
  case (err l j)
  then have "RErr \<in> set (map RByte bs)" by simp
  then show ?thesis by auto
next
  case (lf l j)
  then obtain k where k: "bs = l @ LF # k" "j = map RByte k"
    by (auto simp: map_eq_append_conv map_eq_Cons_conv inj_map_eq_map inj_def)
  with assms ReaLine_line(1) [OF lf(1)] normalize_eol_plain [OF lf(1)]
  show ?thesis by (auto simp: abs_line_hit [OF lf(1)])
next
  case (cr l j)
  then obtain k where k: "bs = l @ CR # k" "j = map RByte k"
    by (auto simp: map_eq_append_conv map_eq_Cons_conv inj_map_eq_map inj_def)
  note facts = assms ReaLine_line [OF cr(1)] normalize_eol_plain [OF cr(1)] abs_line_hit [OF cr(1)]
  show ?thesis
  proof (cases k)
    case Nil
    with k facts ReaLine_line_end [OF cr(1)] show ?thesis by auto
  next
    case (Cons d t)
    with k facts show ?thesis by (cases "d = LF") auto
  qed
qed

text \<open>
  C12 (refinement). Without failing calls \<open>ReaLine\<close> implements the abstract reader of
  newline-normalised text: same answer, same line, and what it leaves unread is, again
  normalised, what the abstract reader leaves.
\<close>

theorem ReaLine_refines_abs_line:
  assumes "ReaLine (map RByte bs) [] = (n, out, i')"
  shows "(n, out, normalize_eol (bytes_of i')) = abs_line (normalize_eol bs) \<and>
    i' = map RByte (bytes_of i')"
proof -
  have "suffix i' (map RByte bs)"
    using ReaLine_reads_line [OF assms] by (simp add: reads_line_def)
  then show ?thesis
    using ReaLine_abs_line [OF assms] suffix_map_RByte by blast
qed

lemma ReaLine_refines_abs_line_witness:
  "(2, ''a'' @ [LF], normalize_eol (bytes_of (map RByte ''b''))) =
    abs_line (normalize_eol [CHR ''a'', CR, LF, CHR ''b''])"
proof -
  have r: "ReaLine (map RByte [CHR ''a'', CR, LF, CHR ''b'']) [] = (2, ''a'' @ [LF], map RByte ''b'')"
    by (simp add: ReaLine_def ReaLine_loop_eqs size_int_def)
  show ?thesis using ReaLine_refines_abs_line [OF r] by simp
qed

text \<open>
  \<open>ReaLine\<close> always returns, and it answers one of three
  ways: a line that ends in LF and holds no other CR or LF, with its size; 0 with the text
  so far, when the stream has ended; or -1 with the text so far, right after a failing
  call. It leaves a suffix of its input, and never invents bytes.
\<close>

theorem ReaLine_contract:
  "case ReaLine i [] of (n, out, i') \<Rightarrow> reads_line i n out i'"
  using ReaLine_reads_line by (auto split: prod.splits)

text \<open>
  When a CR arrives and the next byte is not there yet (the peek
  fails with \<open>EAGAIN\<close> on the non-blocking socket), the LF that belongs to it is read as a
  line of its own: the very next line is an empty one, which ends the header block.
\<close>

theorem split_CRLF_reads_blank_line:
  assumes "plain l"
  shows "ReaLine (map RByte l @ RByte CR # RErr # RByte LF # i) [] =
      (size_int (l @ [LF]), l @ [LF], RByte LF # i) \<and>
    ReaLine (RByte LF # i) [] = (1, [LF], i)"
  using ReaLine_line(4) [OF assms, of "RByte LF # i"] ReaLine_line(1) [of "[]" i]
  by (simp add: plain_def size_int_def)

lemma split_CRLF_reads_blank_line_witness:
  "ReaLine (map RByte ''Host: x'' @ RByte CR # RErr # RByte LF # map RByte ''A: b'') [] =
    (size_int (''Host: x'' @ [LF]), ''Host: x'' @ [LF], RByte LF # map RByte ''A: b'')"
  using split_CRLF_reads_blank_line [of "''Host: x''" "map RByte ''A: b''"]
  by (simp add: plain_def)

section \<open>Cutting a string at a separator\<close>

text \<open>
  The contract the callers rely on, shared with the CGI program's own \<open>CutString\<close>: a
  cut returns what stands before and after the first occurrence of the separator.
\<close>

locale cutter =
  fixes cut :: "string \<Rightarrow> string \<Rightarrow> (string \<times> string) option"
    and ok :: "string \<Rightarrow> string \<Rightarrow> bool"
  assumes cut_Some: "ok s sep \<Longrightarrow> cut s sep = Some (a, b) \<Longrightarrow> s = a @ sep @ b"
    and cut_first: "ok s sep \<Longrightarrow> cut s sep = Some (a, b) \<Longrightarrow> j < length a \<Longrightarrow> \<not> prefix sep (drop j s)"
    and cut_None: "ok s sep \<Longrightarrow> cut s sep = None \<longleftrightarrow> \<not> sublist sep s"
begin

lemma cut_exists: "ok s sep \<Longrightarrow> sublist sep s \<Longrightarrow> \<exists>a b. cut s sep = Some (a, b)"
  using cut_None by (metis not_None_eq surj_pair)

lemma cut_char_left:
  assumes "ok s [x]" and "cut s [x] = Some (a, b)"
  shows "x \<notin> set a"
proof
  assume "x \<in> set a"
  then obtain j where j: "j < length a" "a ! j = x" by (auto simp: in_set_conv_nth)
  have "s = a @ [x] @ b" using cut_Some assms by blast
  with j have "drop j s = x # drop (Suc j) s"
    by (metis Cons_nth_drop_Suc length_append nth_append trans_less_add1)
  then have "prefix [x] (drop j s)" by simp
  with cut_first [OF assms j(1)] show False by blast
qed

lemma cut_char_pair:
  assumes "ok (k @ x # v) [x]" and "x \<notin> set k"
  shows "cut (k @ x # v) [x] = Some (k, v)"
proof -
  have "sublist [x] (k @ x # v)" by (metis append_Cons append_Nil sublist_appendI)
  then obtain a b where c: "cut (k @ x # v) [x] = Some (a, b)"
    using cut_exists assms(1) by blast
  then have eq: "k @ x # v = a @ [x] @ b" and "x \<notin> set a"
    using cut_Some cut_char_left assms(1) by blast+
  then have "a = k \<and> b = v"
    using assms(2) first_split_unique [of k x v a b] by simp
  with c show ?thesis by simp
qed

end

text \<open>\<open>Cutstring\<close> as a cut: \<open>Some\<close> when both parts were assigned.\<close>

definition small :: "string \<Rightarrow> string \<Rightarrow> bool" where
  "small s sep \<longleftrightarrow> length s < 2 ^ 31 \<and> length sep < 2 ^ 31"

lemma Cutstring_small:
  assumes "small s sep"
  shows "Cutstring s a b sep =
    Inr (case find_str sep s of None \<Rightarrow> (a, b) | Some i \<Rightarrow> (take i s, drop (i + length sep) s))"
proof (cases "find_str sep s")
  case None
  then show ?thesis by (simp add: Cutstring_def find_pos_def)
next
  case (Some i)
  then have i: "i + length sep \<le> length s" by (rule find_str_length)
  with assms have "to_int (int i) = int i" "to_int (int (length sep)) = int (length sep)"
    "to_int (int i + int (length sep)) = int (i + length sep)" "to_size (int i) = i"
    by (auto simp: small_def intro: to_int_id to_size_nonneg)
  moreover have "to_size (int (i + length sep)) = i + length sep"
    by (rule to_size_nat) (use i assms in \<open>simp add: small_def\<close>)
  moreover have "length (drop (i + length sep) s) \<le> npos"
    using assms by (auto simp: small_def npos_def)
  then have "take npos (drop (i + length sep) s) = drop (i + length sep) s"
    by (rule take_all)
  ultimately show ?thesis using Some i
    by (simp add: Cutstring_def find_pos_def substr_def)
qed

definition cut_of :: "string \<Rightarrow> string \<Rightarrow> (string \<times> string) option" where
  "cut_of s sep = map_option (\<lambda>i. (take i s, drop (i + length sep) s)) (find_str sep s)"

interpretation util: cutter cut_of small
proof
  fix s sep a b j
  show "s = a @ sep @ b" if "cut_of s sep = Some (a, b)"
    using that find_str_Some_cut by (auto simp: cut_of_def)
  show "\<not> prefix sep (drop j s)" if "cut_of s sep = Some (a, b)" "j < length a"
    using that find_str_first by (auto simp: cut_of_def)
  show "cut_of s sep = None \<longleftrightarrow> \<not> sublist sep s"
    using find_str_None by (auto simp: cut_of_def)
qed

lemma Cutstring_cut_of:
  "small s sep \<Longrightarrow> Cutstring s a b sep = Inr (case cut_of s sep of None \<Rightarrow> (a, b) | Some p \<Rightarrow> p)"
  by (simp add: Cutstring_small cut_of_def split: option.splits)

text \<open>
  On strings below 2 GiB \<open>Cutstring\<close> never throws; without the
  separator both out parameters keep their values, and otherwise they are the parts around
  its first occurrence, so that putting them together with the separator gives the target.
\<close>

theorem Cutstring_contract:
  assumes "length target < 2 ^ 31" and "length symbol < 2 ^ 31"
  shows "\<exists>o1 o2. Cutstring target out1 out2 symbol = Inr (o1, o2) \<and>
    (if sublist symbol target
     then target = o1 @ symbol @ o2 \<and> (\<forall>j < length o1. \<not> prefix symbol (drop j target))
     else (o1, o2) = (out1, out2))"
proof -
  have ok: "small target symbol" using assms by (simp add: small_def)
  show ?thesis
  proof (cases "cut_of target symbol")
    case None
    then show ?thesis using Cutstring_cut_of [OF ok] util.cut_None [OF ok] by simp
  next
    case (Some p)
    obtain a b where p: "p = (a, b)" by (cases p)
    with Some ok util.cut_Some util.cut_first util.cut_None show ?thesis
      using Cutstring_cut_of [OF ok] by (metis not_None_eq option.simps(5))
  qed
qed

lemma Cutstring_contract_witness:
  "\<exists>o1 o2. Cutstring ''a: b: c'' [] [] '': '' = Inr (o1, o2) \<and>
    (if sublist '': '' ''a: b: c''
     then ''a: b: c'' = o1 @ '': '' @ o2 \<and> (\<forall>j < length o1. \<not> prefix '': '' (drop j ''a: b: c''))
     else (o1, o2) = ([], []))"
  by (rule Cutstring_contract) simp_all

text \<open>
  The position is kept in a 32-bit \<open>int\<close>: when the separator stands at
  offset \<open>2 ^ 31\<close> of a longer string, the offset turns negative, and the second
  \<open>substr\<close> throws \<open>std::out_of_range\<close>.
\<close>

theorem Cutstring_truncates:
  assumes "find_str symbol target = Some (2 ^ 31)"
    and "length symbol < 2 ^ 20" and "length target < 2 ^ 60"
  shows "Cutstring target out1 out2 symbol = Inl Uncaught_exception"
proof -
  let ?n = "int (length symbol)"
  have a: "to_int (int (2 ^ 31)) = - (2 ^ 31)"
    by (simp add: to_int_def)
  have b: "to_int ?n = ?n" and c: "to_int (- (2 ^ 31) + ?n) = - (2 ^ 31) + ?n"
    using assms(2) by (auto intro: to_int_id)
  have "take_bit 64 (- (2 ^ 31) + ?n) = 2 ^ 64 - 2 ^ 31 + ?n"
  proof -
    have "take_bit 64 (- (2 ^ 31) + ?n) = (- (2 ^ 31) + ?n + 2 ^ 64) mod 2 ^ 64"
      by (simp only: take_bit_eq_mod mod_add_self2)
    also have "\<dots> = - (2 ^ 31) + ?n + 2 ^ 64"
      by (rule mod_pos_pos_trivial) (use assms(2) in simp_all)
    also have "\<dots> = 2 ^ 64 - 2 ^ 31 + ?n" by simp
    finally show ?thesis .
  qed
  then have "length target < to_size (- (2 ^ 31) + ?n)"
    using assms(3) by (simp add: to_size_def nat_less_iff)
  then show ?thesis using assms(1) a b c
    by (simp add: Cutstring_def find_pos_def substr_def split: option.splits)
qed

lemma Cutstring_truncates_witness:
  "Cutstring (replicate (2 ^ 31) (CHR ''a'') @ ''?x'') [] [] ''?'' = Inl Uncaught_exception"
proof (rule Cutstring_truncates)
  show "find_str ''?'' (replicate (2 ^ 31) (CHR ''a'') @ ''?x'') = Some (2 ^ 31)"
    using find_str_char_append [of "CHR ''?''" "replicate (2 ^ 31) (CHR ''a'')" "''x''"]
    by simp
qed simp_all

end
