(* ===== verification/Http_Message.thy ===== *)
theory Http_Message
  imports Net_Util
begin

text \<open>
  The data of include/protocal.h: the request and response objects and the \<open>EndPoint\<close>
  that owns them, with the constants and the two tables of src/protocal.cc. Every getter
  of the source returns its member by value; where the code changes what a getter
  returned, it changes a copy, which \<open>discard\<close> makes visible.
\<close>

section \<open>Constants\<close>

definition SEP :: string where "SEP = '': ''"
definition OK :: int where "OK = 200"
definition BAD_REQUEST :: int where "BAD_REQUEST = 400"
definition NOT_FOUND :: int where "NOT_FOUND = 404"
definition SERVER_ERROR :: int where "SERVER_ERROR = 500"
definition WWW_ROOT :: string where "WWW_ROOT = ''wwwroot''"
definition HOME_PAGE :: string where "HOME_PAGE = ''index.html''"
definition HTTP_VERSION :: string where "HTTP_VERSION = ''HTTP/1.1''"
definition PAGE_404 :: string where "PAGE_404 = ''wwwroot/404.html''"
definition PAGE_400 :: string where "PAGE_400 = ''wwwroot/400.html''"
definition PAGE_500 :: string where "PAGE_500 = ''wwwroot/500.html''"
definition LINE_END :: string where "LINE_END = [CR, LF]"

lemmas status_codes = OK_def BAD_REQUEST_def NOT_FOUND_def SERVER_ERROR_def

section \<open>Tables\<close>

definition ContentTypeTable :: "string \<Rightarrow> string" where
  "ContentTypeTable sfx =
     (case map_of [(''.html'', ''text/html''), (''.txt'', ''text/plain''),
                   (''.ppt'', ''application/vnd.ms-powerpoint''),
                   (''.js'', ''application/x-javascript''),
                   (''.xml'', ''application/rss+xml'')] sfx of
        Some t \<Rightarrow> t
      | None \<Rightarrow> ''.html'')"

definition CodeAnaly :: "int \<Rightarrow> string" where
  "CodeAnaly code =
     (if code = 200 then ''OK''
      else if code = 400 then ''BADREQUEST''
      else if code = 404 then ''NOTFOUND''
      else if code = 500 then ''SERVERERROR''
      else '''')"

section \<open>Requests\<close>

record HttpRequest =
  m_request_line :: string
  m_request_header :: "string list"
  m_req_blank :: string
  m_request_body :: string
  m_method :: string
  m_url :: string
  m_version :: string
  m_header_kv :: "string \<rightharpoonup> string"
  m_content_length :: "64 word"
  m_path :: string
  m_parameter :: string
  m_cgi :: bool

definition new_HttpRequest :: HttpRequest where
  "new_HttpRequest = \<lparr>m_request_line = [], m_request_header = [], m_req_blank = [],
     m_request_body = [], m_method = [], m_url = [], m_version = [], m_header_kv = Map.empty,
     m_content_length = 0, m_path = [], m_parameter = [], m_cgi = False\<rparr>"

definition transformMethod :: "HttpRequest \<Rightarrow> HttpRequest" where
  "transformMethod q = q\<lparr>m_method := map toupper (m_method q)\<rparr>"

definition addToRequestBody :: "char \<Rightarrow> HttpRequest \<Rightarrow> HttpRequest" where
  "addToRequestBody ch q = q\<lparr>m_request_body := m_request_body q @ [ch]\<rparr>"

definition addToPath :: "string \<Rightarrow> HttpRequest \<Rightarrow> HttpRequest" where
  "addToPath v q = q\<lparr>m_path := m_path q @ v\<rparr>"

text \<open>\<open>unordered_map::insert\<close> keeps an existing entry.\<close>

definition kv_insert :: "string \<Rightarrow> string \<Rightarrow> (string \<rightharpoonup> string) \<Rightarrow> (string \<rightharpoonup> string)" where
  "kv_insert k v m = (if m k = None then m(k \<mapsto> v) else m)"

section \<open>Responses\<close>

text \<open>The constructor sets the status code only; \<open>fd0\<close> and \<open>size0\<close> are what the
  memory of \<open>m_fd\<close> and \<open>m_file_size\<close> happens to hold.\<close>

record HttpResponse =
  m_status_line :: string
  m_response_header :: "string list"
  m_res_blank :: string
  m_response_body :: string
  m_status_code :: int
  m_fd :: int
  m_file_size :: int
  m_suffix :: string

definition new_HttpResponse :: "int \<Rightarrow> int \<Rightarrow> HttpResponse" where
  "new_HttpResponse fd0 size0 = \<lparr>m_status_line = [], m_response_header = [], m_res_blank = [],
     m_response_body = [], m_status_code = OK, m_fd = fd0, m_file_size = size0, m_suffix = []\<rparr>"

definition addToResponseHeader :: "string \<Rightarrow> HttpResponse \<Rightarrow> HttpResponse" where
  "addToResponseHeader v r = r\<lparr>m_response_header := m_response_header r @ [v]\<rparr>"

definition addToResponseBody :: "char \<Rightarrow> HttpResponse \<Rightarrow> HttpResponse" where
  "addToResponseBody ch r = r\<lparr>m_response_body := m_response_body r @ [ch]\<rparr>"

definition setFileSize :: "int \<Rightarrow> HttpResponse \<Rightarrow> HttpResponse" where
  "setFileSize v r = r\<lparr>m_file_size := to_int v\<rparr>"

section \<open>The end point\<close>

record EndPoint =
  m_sock :: int
  m_http_request :: HttpRequest
  m_http_response :: HttpResponse
  m_stop :: bool

text \<open>
  \<open>EndPoint(int sock)\<close> does not initialise \<open>m_stop\<close> (only the private default
  constructor does): \<open>stop0\<close> is what its memory holds.
\<close>

definition new_EndPoint :: "int \<Rightarrow> bool \<Rightarrow> int \<Rightarrow> int \<Rightarrow> EndPoint" where
  "new_EndPoint sock stop0 fd0 size0 = \<lparr>m_sock = sock, m_http_request = new_HttpRequest,
     m_http_response = new_HttpResponse fd0 size0, m_stop = stop0\<rparr>"

abbreviation on_request :: "(HttpRequest \<Rightarrow> HttpRequest) \<Rightarrow> EndPoint \<Rightarrow> EndPoint" where
  "on_request f ep \<equiv> ep\<lparr>m_http_request := f (m_http_request ep)\<rparr>"

abbreviation on_response :: "(HttpResponse \<Rightarrow> HttpResponse) \<Rightarrow> EndPoint \<Rightarrow> EndPoint" where
  "on_response f ep \<equiv> ep\<lparr>m_http_response := f (m_http_response ep)\<rparr>"

text \<open>The value of a temporary copy that the code changes and then drops.\<close>

definition discard :: "'a \<Rightarrow> 'b \<Rightarrow> 'b" where
  "discard tmp x = x"

lemma discard_simp [simp]: "discard tmp x = x"
  by (simp add: discard_def)

lemmas message_operations [message_defs] = new_HttpRequest_def new_HttpResponse_def new_EndPoint_def
  transformMethod_def addToRequestBody_def addToPath_def addToResponseHeader_def
  addToResponseBody_def setFileSize_def

text \<open>
  The status text is non-empty exactly for the four codes the server
  sets, and these four texts are different.
\<close>

theorem CodeAnaly_cases:
  "(CodeAnaly code \<noteq> [] \<longleftrightarrow> code \<in> {OK, BAD_REQUEST, NOT_FOUND, SERVER_ERROR}) \<and>
   inj_on CodeAnaly {OK, BAD_REQUEST, NOT_FOUND, SERVER_ERROR}"
  by (auto simp: CodeAnaly_def status_codes inj_on_def)

end
