(* ===== verification/Http_Recv.thy ===== *)
theory Http_Recv
  imports Http_Message
begin

text \<open>
  The receiving half of \<open>EndPoint\<close> in src/protocal.cc: reading the request line, the
  header block and the body, and parsing them.
\<close>

section \<open>Reading\<close>

text \<open>\<open>std::string::resize\<close>\<close>

definition resize :: "string \<Rightarrow> nat \<Rightarrow> string" where
  "resize s n = take n s @ replicate (n - length s) (CHR 0x00)"

lemma resize_snoc [simp]: "resize (l @ [c]) (length l) = l"
  by (simp add: resize_def)

definition RecvHttpRequestLine :: "EndPoint \<Rightarrow> world \<Rightarrow> bool \<times> EndPoint \<times> world" where
  "RecvHttpRequestLine ep w =
     (case ReaLine (sock_in w) (m_request_line (m_http_request ep)) of (sz, request_line, i) \<Rightarrow>
        let ep1 = on_request (m_request_line_update (\<lambda>_. request_line)) ep;
            w1 = w\<lparr>sock_in := i\<rparr>
        in if 0 < sz then
             (let request_line' = resize request_line (to_size (sz - 1));
                  ep2 = on_request (m_request_line_update (\<lambda>_. request_line')) ep1;
                  w2 = emit (EvLog INFO (m_request_line (m_http_request ep2))) w1
              in (m_stop ep2, ep2, w2))
           else
             (let ep2 = ep1\<lparr>m_stop := True\<rparr> in (m_stop ep2, ep2, w1)))"

lemma ReaLine_progress: "ReaLine i [] = (n, s, i') \<Longrightarrow> 0 < n \<Longrightarrow> length i' < length i"
  using ReaLine_reads_line [of i n s i'] by (auto simp: reads_line_def)

text \<open>The line pushed on the copy \<open>getRequestHeader()\<close> returns is lost, and so is the
  blank line assigned to the copy of \<open>getBlank()\<close>.\<close>

function RecvHttpRequestHeader_loop :: "EndPoint \<Rightarrow> world \<Rightarrow> EndPoint \<times> world" where
  "RecvHttpRequestHeader_loop ep w =
     (case ReaLine (sock_in w) [] of (n, s, i) \<Rightarrow>
        if n \<le> 0 then (ep\<lparr>m_stop := True\<rparr>, w\<lparr>sock_in := i\<rparr>)
        else if s = [LF] then discard s (ep, w\<lparr>sock_in := i\<rparr>)
        else (let s' = resize s (length s - 1)
              in discard (m_request_header (m_http_request ep) @ [s'])
                   (RecvHttpRequestHeader_loop ep (w\<lparr>sock_in := i\<rparr>))))"
  by pat_completeness auto

termination RecvHttpRequestHeader_loop
  by (relation "measure (\<lambda>(ep, w). length (sock_in w))")
     (auto dest!: sym [of "(_, _, _)"] intro: ReaLine_progress)

declare RecvHttpRequestHeader_loop.simps [simp del]

definition RecvHttpRequestHeader :: "EndPoint \<Rightarrow> world \<Rightarrow> bool \<times> EndPoint \<times> world" where
  "RecvHttpRequestHeader ep w =
     (case RecvHttpRequestHeader_loop ep w of (ep1, w1) \<Rightarrow> (m_stop ep1, ep1, w1))"

section \<open>Parsing\<close>

definition ParseHttpRequestLine :: "EndPoint \<Rightarrow> EndPoint" where
  "ParseHttpRequestLine ep =
     (let line = m_request_line (m_http_request ep);
          (w1, s1) = next_word line;
          (w2, s2) = next_word s1;
          (w3, s3) = next_word s2
      in on_request (\<lambda>q. transformMethod (q\<lparr>m_method := w1, m_url := w2, m_version := w3\<rparr>)) ep)"

definition ParseURL :: "EndPoint \<Rightarrow> world \<Rightarrow> failure + EndPoint \<times> world" where
  "ParseURL ep w =
     (let q = m_http_request ep; method = m_method q in
      if method \<noteq> ''GET'' \<and> method \<noteq> ''POST'' then
        Inr (on_response (m_status_code_update (\<lambda>_. BAD_REQUEST)) ep, emit (EvLog WARN ''method error'') w)
      else if method = ''GET'' then
        (let url = m_url q in
         if find_pos ''?'' url \<noteq> npos then
           (case Cutstring url [] [] ''?'' of
              Inl e \<Rightarrow> Inl e
            | Inr (path, parameter) \<Rightarrow>
                Inr (on_request (\<lambda>q. q\<lparr>m_path := path, m_parameter := parameter\<rparr>) ep, w))
         else Inr (on_request (m_path_update (\<lambda>_. url)) ep, w))
      else if method = ''POST'' then
        Inr (on_request (\<lambda>q. q\<lparr>m_path := m_url q, m_cgi := True\<rparr>) ep, w)
      else Inr (ep, w))"

text \<open>The pair is inserted in the copy \<open>getHeaderKv()\<close> returns, and lost.\<close>

fun ParseHttpRequestHeader_loop :: "string list \<Rightarrow> EndPoint \<Rightarrow> failure + EndPoint" where
  "ParseHttpRequestHeader_loop [] ep = Inr ep"
| "ParseHttpRequestHeader_loop (str # rest) ep =
     (case Cutstring str [] [] SEP of
        Inl e \<Rightarrow> Inl e
      | Inr (str1, str2) \<Rightarrow>
          discard (kv_insert str1 str2 (m_header_kv (m_http_request ep)))
            (ParseHttpRequestHeader_loop rest ep))"

definition ParseHttpRequestHeader :: "EndPoint \<Rightarrow> failure + EndPoint" where
  "ParseHttpRequestHeader ep = ParseHttpRequestHeader_loop (m_request_header (m_http_request ep)) ep"

section \<open>The body\<close>

definition IsNeedRecvHttpRequestBody :: "EndPoint \<Rightarrow> bool \<times> EndPoint" where
  "IsNeedRecvHttpRequestBody ep =
     (if m_method (m_http_request ep) = ''POST'' then
        (case m_header_kv (m_http_request ep) ''Content-Length'' of
           Some v \<Rightarrow> (True, on_request (m_content_length_update (\<lambda>_. word_of_int (atoi v))) ep)
         | None \<Rightarrow> (False, ep))
      else (False, ep))"

fun RecvHttpRequestBody_loop :: "nat \<Rightarrow> EndPoint \<Rightarrow> world \<Rightarrow> EndPoint \<times> world" where
  "RecvHttpRequestBody_loop 0 ep w = (ep, w)"
| "RecvHttpRequestBody_loop (Suc content_length) ep w =
     (case recv1 (sock_in w) (CHR 0x00) of (sz, ch, i) \<Rightarrow>
        if 0 < sz
        then RecvHttpRequestBody_loop content_length (on_request (addToRequestBody ch) ep) (w\<lparr>sock_in := i\<rparr>)
        else (ep\<lparr>m_stop := True\<rparr>, w\<lparr>sock_in := i\<rparr>))"

definition RecvHttpRequestBody :: "EndPoint \<Rightarrow> world \<Rightarrow> EndPoint \<times> world" where
  "RecvHttpRequestBody ep w =
     (case IsNeedRecvHttpRequestBody ep of (need, ep1) \<Rightarrow>
        if need then RecvHttpRequestBody_loop (unat (m_content_length (m_http_request ep1))) ep1 w
        else (ep1, w))"

definition RecvHttpRequest :: "EndPoint \<Rightarrow> world \<Rightarrow> failure + EndPoint \<times> world" where
  "RecvHttpRequest ep w =
     (case RecvHttpRequestLine ep w of (stop1, ep1, w1) \<Rightarrow>
        if stop1 then Inr (ep1, w1)
        else (case RecvHttpRequestHeader ep1 w1 of (stop2, ep2, w2) \<Rightarrow>
          if stop2 then Inr (ep2, w2)
          else (let ep3 = ParseHttpRequestLine ep2 in
            case ParseURL ep3 w2 of
              Inl e \<Rightarrow> Inl e
            | Inr (ep4, w4) \<Rightarrow>
                (case ParseHttpRequestHeader ep4 of
                   Inl e \<Rightarrow> Inl e
                 | Inr ep5 \<Rightarrow> Inr (RecvHttpRequestBody ep5 w4)))))"

section \<open>The single operations\<close>

lemma size_minus_one: "length l < 2147483647 \<Longrightarrow> to_size (size_int (l @ [LF]) - 1) = length l"
  using size_int_small [of "l @ [LF]"] by simp

lemma size_int_pos: "length l < 2147483647 \<Longrightarrow> 0 < size_int (l @ [LF])"
  using size_int_small [of "l @ [LF]"] by simp

lemma RecvHttpRequestLine_hit:
  assumes "sock_in w = map RByte l @ RByte CR # RByte LF # i" and "plain l" and "length l < 2147483647"
    and "m_request_line (m_http_request ep) = []"
  shows "RecvHttpRequestLine ep w =
    (m_stop ep, on_request (m_request_line_update (\<lambda>_. l)) ep, emit (EvLog INFO l) (w\<lparr>sock_in := i\<rparr>))"
  using assms ReaLine_line(2) [OF assms(2), of i]
  by (simp add: RecvHttpRequestLine_def size_int_pos size_minus_one)

lemma RecvHttpRequestLine_miss:
  assumes "ReaLine (sock_in w) (m_request_line (m_http_request ep)) = (n, l, i)" and "n \<le> 0"
  shows "RecvHttpRequestLine ep w =
    (True, (on_request (m_request_line_update (\<lambda>_. l)) ep)\<lparr>m_stop := True\<rparr>, w\<lparr>sock_in := i\<rparr>)"
  using assms by (simp add: RecvHttpRequestLine_def)

lemma header_loop_only_stop:
  "\<exists>i b. RecvHttpRequestHeader_loop ep w = ((if b then ep\<lparr>m_stop := True\<rparr> else ep), w\<lparr>sock_in := i\<rparr>)"
proof (induction ep w rule: RecvHttpRequestHeader_loop.induct)
  case (1 ep w)
  obtain n s i where r: "ReaLine (sock_in w) [] = (n, s, i)" by (metis surj_pair)
  consider "n \<le> 0" | "0 < n" "s = [LF]" | "0 < n" "s \<noteq> [LF]" by linarith
  then show ?case
  proof cases
    case 1
    then show ?thesis by (subst RecvHttpRequestHeader_loop.simps) (auto simp: r intro: exI [of _ True])
  next
    case 2
    then show ?thesis by (subst RecvHttpRequestHeader_loop.simps) (auto simp: r intro: exI [of _ False])
  next
    case 3
    with "1.IH" [OF r [symmetric] refl] r show ?thesis
      by (subst RecvHttpRequestHeader_loop.simps) (auto simp: Let_def)
  qed
qed

text \<open>A header block on the wire: lines, each closed by CR LF, then an empty line.\<close>

definition header_block :: "string list \<Rightarrow> rx list" where
  "header_block hs = concat (map (\<lambda>h. map RByte h @ [RByte CR, RByte LF]) hs) @ [RByte CR, RByte LF]"

definition header_ok :: "string \<Rightarrow> bool" where
  "header_ok h \<longleftrightarrow> plain h \<and> h \<noteq> [] \<and> length h < 2147483647"

lemma header_loop_block:
  "(\<forall>h \<in> set hs. header_ok h) \<Longrightarrow> sock_in w = header_block hs @ i \<Longrightarrow>
   RecvHttpRequestHeader_loop ep w = (ep, w\<lparr>sock_in := i\<rparr>)"
proof (induction hs arbitrary: w)
  case Nil
  have "ReaLine (RByte CR # RByte LF # i) [] = (1, [LF], i)"
    using ReaLine_line(2) [of "[]" i] by (simp add: plain_def size_int_def)
  with Nil show ?case
    by (subst RecvHttpRequestHeader_loop.simps) (simp add: header_block_def)
next
  case (Cons h hs)
  let ?j = "header_block hs @ i"
  have h: "plain h" "h \<noteq> []" "length h < 2147483647" using Cons.prems(1) by (auto simp: header_ok_def)
  have "ReaLine (sock_in w) [] = (size_int (h @ [LF]), h @ [LF], ?j)"
    using Cons.prems(2) ReaLine_line(2) [OF h(1), of ?j] by (simp add: header_block_def)
  moreover have "RecvHttpRequestHeader_loop ep (w\<lparr>sock_in := ?j\<rparr>) = (ep, w\<lparr>sock_in := i\<rparr>)"
    using Cons by simp
  ultimately show ?case using h size_int_pos [OF h(3)]
    by (subst RecvHttpRequestHeader_loop.simps) (simp add: Let_def)
qed

lemma isspace_chars [simp]: "isspace (CHR '' '')" "isspace CR" "isspace LF"
  by (simp_all add: isspace_def)

lemma word_ok_plain: "word_ok w \<Longrightarrow> plain w"
  using isspace_chars by (auto simp: word_ok_def plain_def)

definition request_line :: "string \<Rightarrow> string \<Rightarrow> string \<Rightarrow> string" where
  "request_line m u v = m @ CHR '' '' # u @ CHR '' '' # v"

lemma request_line_plain: "word_ok m \<Longrightarrow> word_ok u \<Longrightarrow> word_ok v \<Longrightarrow> plain (request_line m u v)"
  using word_ok_plain [of m] word_ok_plain [of u] word_ok_plain [of v]
  by (auto simp: request_line_def plain_def)

lemma ParseHttpRequestLine_words:
  assumes "word_ok m" "word_ok u" "word_ok v"
    and "m_request_line (m_http_request ep) = request_line m u v"
  shows "ParseHttpRequestLine ep = on_request
    (\<lambda>q. q\<lparr>m_method := map toupper m, m_url := u, m_version := v\<rparr>) ep"
  using assms
  by (simp add: ParseHttpRequestLine_def request_line_def next_word_hit next_word_skip next_word_end
      transformMethod_def)

definition query_split :: "string \<Rightarrow> string \<times> string" where
  "query_split u = (case cut_of u ''?'' of None \<Rightarrow> (u, []) | Some p \<Rightarrow> p)"

lemma find_pos_npos: "length s < 2 ^ 31 \<Longrightarrow> find_pos pat s \<noteq> npos \<longleftrightarrow> find_str pat s \<noteq> None"
  by (auto simp: find_pos_def npos_def dest!: find_str_length split: option.splits)

lemma ParseURL_other:
  "m_method (m_http_request ep) \<notin> {''GET'', ''POST''} \<Longrightarrow> ParseURL ep w =
    Inr (on_response (m_status_code_update (\<lambda>_. BAD_REQUEST)) ep, emit (EvLog WARN ''method error'') w)"
  by (simp add: ParseURL_def)

lemma ParseURL_POST:
  "m_method (m_http_request ep) = ''POST'' \<Longrightarrow> ParseURL ep w =
    Inr (on_request (\<lambda>q. q\<lparr>m_path := m_url q, m_cgi := True\<rparr>) ep, w)"
  by (simp add: ParseURL_def Let_def)

lemma ParseURL_GET:
  assumes "m_method (m_http_request ep) = ''GET''" and "length (m_url (m_http_request ep)) < 2 ^ 31"
    and "m_parameter (m_http_request ep) = []"
  shows "ParseURL ep w = Inr (on_request (\<lambda>q. q\<lparr>m_path := fst (query_split (m_url q)),
    m_parameter := snd (query_split (m_url q))\<rparr>) ep, w)"
proof (cases "find_str ''?'' (m_url (m_http_request ep))")
  case None
  then have "find_pos ''?'' (m_url (m_http_request ep)) = npos" by (simp add: find_pos_def)
  with None assms show ?thesis
    by (cases "m_http_request ep") (simp add: ParseURL_def query_split_def cut_of_def)
next
  case (Some i)
  have "small (m_url (m_http_request ep)) ''?''" using assms(2) by (simp add: small_def)
  with Some assms find_pos_npos [OF assms(2)] show ?thesis
    by (simp add: ParseURL_def query_split_def cut_of_def Cutstring_small Let_def)
qed

section \<open>A whole request\<close>

text \<open>
  What a request with method \<open>m\<close>, target \<open>u\<close> and version \<open>v\<close> should leave in the
  request object, and the status it should start the response with.
\<close>

definition parsed_request :: "string \<Rightarrow> string \<Rightarrow> string \<Rightarrow> HttpRequest" where
  "parsed_request m u v = (let M = map toupper m in
     new_HttpRequest\<lparr>m_request_line := request_line m u v, m_method := M, m_url := u, m_version := v,
       m_path := (if M = ''GET'' then fst (query_split u) else if M = ''POST'' then u else []),
       m_parameter := (if M = ''GET'' then snd (query_split u) else []),
       m_cgi := (M = ''POST'')\<rparr>)"

definition parsed_status :: "string \<Rightarrow> int" where
  "parsed_status m = (if map toupper m \<in> {''GET'', ''POST''} then OK else BAD_REQUEST)"

definition parse_events :: "string \<Rightarrow> string \<Rightarrow> string \<Rightarrow> event list" where
  "parse_events m u v = EvLog INFO (request_line m u v) #
     (if map toupper m \<in> {''GET'', ''POST''} then [] else [EvLog WARN ''method error''])"

definition request_ok :: "string \<Rightarrow> string \<Rightarrow> string \<Rightarrow> string list \<Rightarrow> bool" where
  "request_ok m u v hs \<longleftrightarrow> word_ok m \<and> word_ok u \<and> word_ok v \<and>
     length (request_line m u v) < 2147483647 \<and> (\<forall>h \<in> set hs. header_ok h)"

lemma IsNeed_empty:
  "m_header_kv (m_http_request ep) = Map.empty \<Longrightarrow> IsNeedRecvHttpRequestBody ep = (False, ep)"
  by (simp add: IsNeedRecvHttpRequestBody_def)

lemma RecvHttpRequest_parses:
  assumes ok: "request_ok m u v hs"
    and w: "sock_in w = map RByte (request_line m u v) @ RByte CR # RByte LF # header_block hs @ i"
  shows "RecvHttpRequest (new_EndPoint s False fd0 size0) w =
    Inr (\<lparr>m_sock = s, m_http_request = parsed_request m u v,
          m_http_response = (new_HttpResponse fd0 size0)\<lparr>m_status_code := parsed_status m\<rparr>,
          m_stop = False\<rparr>,
        w\<lparr>sock_in := i, trace := trace w @ parse_events m u v\<rparr>)"
proof -
  let ?l = "request_line m u v"
  let ?ep = "new_EndPoint s False fd0 size0"
  let ?ep1 = "on_request (m_request_line_update (\<lambda>_. ?l)) ?ep"
  let ?w1 = "emit (EvLog INFO ?l) (w\<lparr>sock_in := header_block hs @ i\<rparr>)"
  let ?w2 = "?w1\<lparr>sock_in := i\<rparr>"
  have l: "plain ?l" "length ?l < 2147483647" and words: "word_ok m" "word_ok u" "word_ok v"
    and hs: "\<forall>h \<in> set hs. header_ok h" using ok request_line_plain by (auto simp: request_ok_def)
  have line: "RecvHttpRequestLine ?ep w = (False, ?ep1, ?w1)"
    using RecvHttpRequestLine_hit [OF w l] by (simp add: message_defs)
  have header: "RecvHttpRequestHeader ?ep1 ?w1 = (False, ?ep1, ?w2)"
    using header_loop_block [OF hs, of ?w1 i ?ep1]
    by (simp add: RecvHttpRequestHeader_def message_defs)
  let ?ep3 = "on_request (\<lambda>q. q\<lparr>m_method := map toupper m, m_url := u, m_version := v\<rparr>) ?ep1"
  have parse: "ParseHttpRequestLine ?ep1 = ?ep3"
    using ParseHttpRequestLine_words [OF words, of ?ep1] by (simp add: message_defs)
  have u: "length u < 2 ^ 31" using l(2) by (simp add: request_line_def)
  consider "map toupper m = ''GET''" | "map toupper m = ''POST''"
    | "map toupper m \<notin> {''GET'', ''POST''}" by blast
  then show ?thesis
  proof cases
    case 1
    have "ParseURL ?ep3 ?w2 = Inr (on_request (\<lambda>q. q\<lparr>m_path := fst (query_split (m_url q)),
      m_parameter := snd (query_split (m_url q))\<rparr>) ?ep3, ?w2)"
      by (rule ParseURL_GET) (use 1 u in \<open>simp_all add: message_defs\<close>)
    with 1 line header parse show ?thesis
      by (simp add: RecvHttpRequest_def ParseHttpRequestHeader_def RecvHttpRequestBody_def IsNeed_empty
          message_defs parsed_request_def parsed_status_def parse_events_def status_codes emit_def)
  next
    case 2
    then have "ParseURL ?ep3 ?w2 = Inr (on_request (\<lambda>q. q\<lparr>m_path := m_url q, m_cgi := True\<rparr>) ?ep3, ?w2)"
      by (intro ParseURL_POST) simp
    with 2 line header parse show ?thesis
      by (simp add: RecvHttpRequest_def ParseHttpRequestHeader_def RecvHttpRequestBody_def IsNeed_empty
          message_defs parsed_request_def parsed_status_def parse_events_def status_codes emit_def)
  next
    case 3
    then have "ParseURL ?ep3 ?w2 = Inr (on_response (m_status_code_update (\<lambda>_. BAD_REQUEST)) ?ep3,
        emit (EvLog WARN ''method error'') ?w2)"
      by (intro ParseURL_other) simp
    with 3 line header parse show ?thesis
      by (simp add: RecvHttpRequest_def ParseHttpRequestHeader_def RecvHttpRequestBody_def IsNeed_empty
          message_defs parsed_request_def parsed_status_def parse_events_def status_codes emit_def)
  qed
qed

section \<open>Any input at all\<close>

definition no_headers :: "HttpRequest \<Rightarrow> bool" where
  "no_headers q \<longleftrightarrow> m_request_header q = [] \<and> m_header_kv q = Map.empty \<and> m_request_body q = [] \<and>
     m_content_length q = 0"

definition recv_inv :: "EndPoint \<Rightarrow> EndPoint \<Rightarrow> bool" where
  "recv_inv ep0 ep \<longleftrightarrow> no_headers (m_http_request ep) \<and> m_sock ep = m_sock ep0 \<and>
     (m_http_response ep)\<lparr>m_status_code := 0\<rparr> = (m_http_response ep0)\<lparr>m_status_code := 0\<rparr>"

lemma recv_inv_line:
  "recv_inv ep0 ep \<Longrightarrow> RecvHttpRequestLine ep w = (b, ep', w') \<Longrightarrow> recv_inv ep0 ep'"
  by (auto simp: RecvHttpRequestLine_def recv_inv_def no_headers_def Let_def split: prod.splits if_splits)

lemma recv_inv_header:
  "recv_inv ep0 ep \<Longrightarrow> RecvHttpRequestHeader ep w = (b, ep', w') \<Longrightarrow> recv_inv ep0 ep'"
  using header_loop_only_stop [of ep w]
  by (auto simp: RecvHttpRequestHeader_def recv_inv_def split: if_splits)

lemma recv_inv_parse: "recv_inv ep0 ep \<Longrightarrow> recv_inv ep0 (ParseHttpRequestLine ep)"
  by (auto simp: ParseHttpRequestLine_def recv_inv_def no_headers_def transformMethod_def Let_def
      split: prod.splits)

lemma recv_inv_url: "recv_inv ep0 ep \<Longrightarrow> ParseURL ep w = Inr (ep', w') \<Longrightarrow> recv_inv ep0 ep'"
  by (auto simp: ParseURL_def recv_inv_def no_headers_def Let_def
      split: if_splits sum.splits prod.splits)

lemma recv_inv_kv: "recv_inv ep0 ep \<Longrightarrow> ParseHttpRequestHeader ep = Inr ep' \<Longrightarrow> ep' = ep"
  by (simp add: ParseHttpRequestHeader_def recv_inv_def no_headers_def)

lemma recv_inv_body: "recv_inv ep0 ep \<Longrightarrow> RecvHttpRequestBody ep w = (ep, w)"
  by (simp add: RecvHttpRequestBody_def recv_inv_def no_headers_def IsNeed_empty)

text \<open>The three ways a request that was received without an exception can have gone.\<close>

lemma RecvHttpRequest_cases:
  assumes inv: "recv_inv ep0 ep" and run: "RecvHttpRequest ep w = Inr (ep', w')"
  obtains (line) "RecvHttpRequestLine ep w = (True, ep', w')"
  | (header) ep1 w1 where "RecvHttpRequestLine ep w = (False, ep1, w1)"
      "RecvHttpRequestHeader ep1 w1 = (True, ep', w')"
  | (parsed) ep1 w1 ep2 w2 where "RecvHttpRequestLine ep w = (False, ep1, w1)"
      "RecvHttpRequestHeader ep1 w1 = (False, ep2, w2)"
      "ParseURL (ParseHttpRequestLine ep2) w2 = Inr (ep', w')"
proof -
  obtain b1 ep1 w1 where 1: "RecvHttpRequestLine ep w = (b1, ep1, w1)" by (metis surj_pair)
  obtain b2 ep2 w2 where 2: "RecvHttpRequestHeader ep1 w1 = (b2, ep2, w2)" by (metis surj_pair)
  have "recv_inv ep0 ep1" using recv_inv_line inv 1 by blast
  then have i3: "recv_inv ep0 (ParseHttpRequestLine ep2)"
    using recv_inv_header 2 recv_inv_parse by blast
  show thesis
  proof (cases "b1 \<or> b2")
    case True
    with run 1 2 that(1,2) show thesis by (auto simp: RecvHttpRequest_def split: if_splits)
  next
    case False
    with run 1 2 obtain ep4 w4 where 4: "ParseURL (ParseHttpRequestLine ep2) w2 = Inr (ep4, w4)"
      by (cases "ParseURL (ParseHttpRequestLine ep2) w2") (auto simp: RecvHttpRequest_def Let_def)
    with False run 1 2 obtain ep5 where 5: "ParseHttpRequestHeader ep4 = Inr ep5"
      by (cases "ParseHttpRequestHeader ep4") (auto simp: RecvHttpRequest_def Let_def)
    have i4: "recv_inv ep0 ep4" using recv_inv_url i3 4 by blast
    then have "ep5 = ep4" using recv_inv_kv 5 by blast
    with False run 1 2 4 5 recv_inv_body [OF i4] that(3) show thesis
      by (simp add: RecvHttpRequest_def Let_def)
  qed
qed

lemma recv_inv_RecvHttpRequest:
  assumes "recv_inv ep0 ep" and "RecvHttpRequest ep w = Inr (ep', w')"
  shows "recv_inv ep0 ep'"
  using assms
proof (cases rule: RecvHttpRequest_cases)
  case line
  then show ?thesis using recv_inv_line [OF assms(1)] by blast
next
  case (header ep1 w1)
  then show ?thesis using recv_inv_line [OF assms(1)] recv_inv_header by blast
next
  case (parsed ep1 w1 ep2 w2)
  have "recv_inv ep0 ep2" using parsed recv_inv_line [OF assms(1)] recv_inv_header by blast
  from recv_inv_url [OF recv_inv_parse [OF this] parsed(3)] show ?thesis .
qed

lemma recv_inv_new: "recv_inv (new_EndPoint s b fd n) (new_EndPoint s b fd n)"
  by (simp add: recv_inv_def no_headers_def message_defs)

text \<open>Stopping before the parser leaves the parsed fields as they were.\<close>

definition unparsed :: "EndPoint \<Rightarrow> bool" where
  "unparsed ep \<longleftrightarrow> m_method (m_http_request ep) = [] \<and> m_url (m_http_request ep) = [] \<and>
     m_version (m_http_request ep) = [] \<and> m_path (m_http_request ep) = [] \<and>
     \<not> m_cgi (m_http_request ep) \<and> m_status_code (m_http_response ep) = OK"

lemma unparsed_new: "unparsed (new_EndPoint s b fd n)"
  by (simp add: unparsed_def message_defs)

lemma unparsed_line: "unparsed ep \<Longrightarrow> RecvHttpRequestLine ep w = (b, ep', w') \<Longrightarrow> unparsed ep' \<and> b = m_stop ep'"
  by (auto simp: RecvHttpRequestLine_def unparsed_def Let_def split: prod.splits if_splits)

lemma unparsed_header:
  "unparsed ep \<Longrightarrow> RecvHttpRequestHeader ep w = (b, ep', w') \<Longrightarrow> unparsed ep' \<and> b = m_stop ep'"
  using header_loop_only_stop [of ep w]
  by (auto simp: RecvHttpRequestHeader_def unparsed_def split: if_splits)

lemma parse_keeps_stop: "ParseURL (ParseHttpRequestLine ep) w = Inr (ep', w') \<Longrightarrow> m_stop ep' = m_stop ep"
  by (auto simp: ParseURL_def ParseHttpRequestLine_def Let_def split: if_splits sum.splits prod.splits)

text \<open>
  C11 (functional, the whole receiving path). A request line and any well-formed header
  lines, each ended by CR LF, followed by the empty line: the end point then holds exactly
  the parsed request line (method in upper case, target cut at the first question mark for
  GET, CGI flag for POST), the status 200 or 400, the events are the log lines, and
  everything after the empty line is left unread.
\<close>

theorem RecvHttpRequest_functional:
  assumes "request_ok m u v hs"
    and "sock_in w = map RByte (request_line m u v) @ RByte CR # RByte LF # header_block hs @ i"
  shows "RecvHttpRequest (new_EndPoint s False fd0 size0) w =
    Inr (\<lparr>m_sock = s, m_http_request = parsed_request m u v,
          m_http_response = (new_HttpResponse fd0 size0)\<lparr>m_status_code := parsed_status m\<rparr>,
          m_stop = False\<rparr>,
        w\<lparr>sock_in := i, trace := trace w @ parse_events m u v\<rparr>)"
  using assms by (rule RecvHttpRequest_parses)

lemma RecvHttpRequest_functional_witness:
  "RecvHttpRequest (new_EndPoint 7 False 0 0)
     \<lparr>sock_in = map RByte (request_line ''get'' ''/a?x=1'' ''HTTP/1.1'') @ RByte CR # RByte LF #
        header_block [''Host: h''] @ [], trace = []\<rparr> =
   Inr (\<lparr>m_sock = 7, m_http_request = parsed_request ''get'' ''/a?x=1'' ''HTTP/1.1'',
         m_http_response = (new_HttpResponse 0 0)\<lparr>m_status_code := parsed_status ''get''\<rparr>,
         m_stop = False\<rparr>,
       \<lparr>sock_in = [], trace = parse_events ''get'' ''/a?x=1'' ''HTTP/1.1''\<rparr>)"
proof -
  have ok: "request_ok ''get'' ''/a?x=1'' ''HTTP/1.1'' [''Host: h'']"
    by (simp add: request_ok_def word_ok_def header_ok_def plain_def request_line_def isspace_def)
  show ?thesis
    using RecvHttpRequest_functional [OF ok, of "\<lparr>sock_in = map RByte
        (request_line ''get'' ''/a?x=1'' ''HTTP/1.1'') @ RByte CR # RByte LF #
        header_block [''Host: h''] @ [], trace = []\<rparr>" "[]" 7 0 0]
    by simp
qed

text \<open>
  C32 (safety, every input). Whatever the client sends, in whatever pieces: after
  \<open>RecvHttpRequest\<close> the object holds no header line, an empty header table, an empty body
  and content length 0, because the lines and pairs go into temporary copies. In
  particular the body of a POST is never read, and the response is as it was but for its
  status code.
\<close>

theorem RecvHttpRequest_drops_headers_and_body:
  assumes "RecvHttpRequest (new_EndPoint s stop0 fd0 size0) w = Inr (ep, w')"
  shows "m_request_header (m_http_request ep) = [] \<and> m_header_kv (m_http_request ep) = Map.empty \<and>
    m_request_body (m_http_request ep) = [] \<and> m_content_length (m_http_request ep) = 0 \<and>
    m_sock ep = s \<and>
    (m_http_response ep)\<lparr>m_status_code := 0\<rparr> = (new_HttpResponse fd0 size0)\<lparr>m_status_code := 0\<rparr>"
proof -
  from recv_inv_RecvHttpRequest [OF recv_inv_new assms] show ?thesis
    by (simp add: recv_inv_def no_headers_def new_EndPoint_def)
qed

lemma RecvHttpRequest_drops_headers_and_body_witness:
  "\<exists>ep w'. RecvHttpRequest (new_EndPoint 7 False 0 0)
     \<lparr>sock_in = map RByte (request_line ''POST'' ''/f'' ''HTTP/1.1'') @ RByte CR # RByte LF #
        header_block [''Content-Length: 2''] @ map RByte ''ab'', trace = []\<rparr> = Inr (ep, w') \<and>
     m_request_body (m_http_request ep) = [] \<and> sock_in w' = map RByte ''ab''"
proof -
  let ?w = "\<lparr>sock_in = map RByte (request_line ''POST'' ''/f'' ''HTTP/1.1'') @ RByte CR # RByte LF #
        header_block [''Content-Length: 2''] @ map RByte ''ab'', trace = []\<rparr>"
  have ok: "request_ok ''POST'' ''/f'' ''HTTP/1.1'' [''Content-Length: 2'']"
    by (simp add: request_ok_def word_ok_def header_ok_def plain_def request_line_def isspace_def)
  have r: "RecvHttpRequest (new_EndPoint 7 False 0 0) ?w =
    Inr (\<lparr>m_sock = 7, m_http_request = parsed_request ''POST'' ''/f'' ''HTTP/1.1'',
          m_http_response = (new_HttpResponse 0 0)\<lparr>m_status_code := parsed_status ''POST''\<rparr>,
          m_stop = False\<rparr>,
        ?w\<lparr>sock_in := map RByte ''ab'', trace := trace ?w @ parse_events ''POST'' ''/f'' ''HTTP/1.1''\<rparr>)"
    by (rule RecvHttpRequest_parses [OF ok]) simp
  from RecvHttpRequest_drops_headers_and_body [OF r] r show ?thesis by simp
qed

text \<open>
  With a non-zero byte in the uninitialised \<open>m_stop\<close> no request is ever
  accepted: whatever arrives, at most one line is read, nothing is parsed, and the end
  point says stop.
\<close>

theorem RecvHttpRequest_stop_garbage:
  "\<exists>l w'. RecvHttpRequest (new_EndPoint s True fd0 size0) w =
    Inr ((on_request (m_request_line_update (\<lambda>_. l)) (new_EndPoint s True fd0 size0)), w')"
  by (auto simp: RecvHttpRequest_def RecvHttpRequestLine_def new_EndPoint_def Let_def
      split: prod.splits)

text \<open>
  When the end point says stop after receiving (the client closed, or a call
  failed, before the empty line that ends the header block), nothing was parsed: method,
  target, version and path are empty, the CGI flag is off and the status is still 200.
\<close>

theorem RecvHttpRequest_incomplete:
  assumes "RecvHttpRequest (new_EndPoint s stop0 fd0 size0) w = Inr (ep, w')" and "m_stop ep"
  shows "unparsed ep"
  using recv_inv_new assms(1)
proof (cases rule: RecvHttpRequest_cases)
  case line
  then show ?thesis using unparsed_line unparsed_new by blast
next
  case (header ep1 w1)
  then show ?thesis using unparsed_line unparsed_header unparsed_new by blast
next
  case (parsed ep1 w1 ep2 w2)
  then have "m_stop ep = m_stop ep2" and "unparsed ep1"
    using parse_keeps_stop unparsed_line unparsed_new by blast+
  with parsed(2) assms(2) show ?thesis using unparsed_header by blast
qed

lemma RecvHttpRequest_incomplete_witness:
  "\<exists>ep w'. RecvHttpRequest (new_EndPoint 7 False 0 0)
     \<lparr>sock_in = map RByte ''GET / HTTP/1.1'' @ [RErr], trace = []\<rparr> = Inr (ep, w') \<and> unparsed ep"
proof -
  have "plain ''GET / HTTP/1.1''" by (simp add: plain_def)
  from ReaLine_line(6) [OF this, of "[]"]
  have r: "RecvHttpRequest (new_EndPoint 7 False 0 0)
      \<lparr>sock_in = map RByte ''GET / HTTP/1.1'' @ [RErr], trace = []\<rparr> =
    Inr ((on_request (m_request_line_update (\<lambda>_. ''GET / HTTP/1.1'')) (new_EndPoint 7 False 0 0))
      \<lparr>m_stop := True\<rparr>, \<lparr>sock_in = [], trace = []\<rparr>)"
    by (simp add: RecvHttpRequest_def RecvHttpRequestLine_def message_defs)
  from RecvHttpRequest_incomplete [OF r] r show ?thesis by simp
qed

end
