(* ===== verification/Http_Build.thy ===== *)
theory Http_Build
  imports Http_Recv
begin

text \<open>
  The building half of \<open>EndPoint\<close> in src/protocal.cc: choosing the file or program a
  target names, running a CGI program, opening a file, and the status line and headers.
\<close>

section \<open>Running a CGI program\<close>

text \<open>
  The child puts pointers into local strings in its environment. \<open>method_env\<close> is still
  alive at \<open>execl\<close>; \<open>parameter_env\<close> and \<open>length_env\<close> live in the inner blocks and are
  destroyed by then, so the program sees whatever their storage holds (\<open>os_freed\<close>). Only these
  settings are listed: the rest of the environment is the server's own, which the code neither reads nor changes;
  what a program does with it is part of the program \<open>os_exec\<close> gives.
\<close>

definition cgi_env :: "os \<Rightarrow> event list \<Rightarrow> HttpRequest \<Rightarrow> string list" where
  "cgi_env os h q = c_str (''METHOD='' @ m_method q) #
     (if m_method q = ''GET'' then [os_freed os h (c_str (''PARAMETER='' @ m_parameter q))]
      else if m_method q = ''POST''
        then [os_freed os h (''Content-Length='' @ show_nat (unat (m_content_length q)))]
      else [])"

text \<open>What runs in the child: the program, or after a failing \<open>execl\<close> the message and
  \<open>exit(1)\<close>.\<close>

definition program_of :: "cgi_program option \<Rightarrow> cgi_program" where
  "program_of x =
     (case x of Some p \<Rightarrow> p | None \<Rightarrow> (\<lambda>env ended inp. Some (''execl error'' @ [LF], 0x100)))"

definition cgi_child :: "os \<Rightarrow> HttpRequest \<Rightarrow> world \<Rightarrow> (string list \<times> cgi_program) \<times> world" where
  "cgi_child os q w =
     (let w1 = (if m_method q = ''POST''
                then emit (EvErr (''Content-Length='' @ show_nat (unat (m_content_length q)) @ [LF])) w
                else w);
          path = c_str (m_path q);
          env = cgi_env os (trace w1) q;
          prog = program_of (os_exec os (trace w1) path)
      in ((env, prog), emit (EvExec path env) w1))"

text \<open>The parent's loop around \<open>write\<close>: what was written in all, and the new world.\<close>

function cgi_write_loop :: "os \<Rightarrow> int \<Rightarrow> string \<Rightarrow> world \<Rightarrow> string \<times> world" where
  "cgi_write_loop os fd rest w =
     (case sys_write os fd rest w of (n, w1) \<Rightarrow>
        if 0 < n
        then (case cgi_write_loop os fd (drop (nat n) rest) w1 of
                (s, w2) \<Rightarrow> (take (nat n) rest @ s, w2))
        else ([], w1))"
  by pat_completeness auto

lemma sys_write_le: "sys_write os fd s w = (n, w1) \<Longrightarrow> n \<le> int (length s)"
  using clip_le by (auto simp: sys_write_def Let_def)

termination cgi_write_loop
  by (relation "measure (\<lambda>(os, fd, rest, w). length rest)")
     (use sys_write_le in \<open>fastforce dest!: sym [of "(_, _)"]\<close>)+

declare cgi_write_loop.simps [simp del]

text \<open>The code the parent derives from \<open>waitpid\<close>.\<close>

definition cgi_code :: "int \<Rightarrow> int \<Rightarrow> 32 word \<Rightarrow> int" where
  "cgi_code ret pid status =
     (if ret = pid then
        (if WIFEXITED status then (if WIFSIGNALED status then SERVER_ERROR else OK) else SERVER_ERROR)
      else OK)"

text \<open>
  The four ends of the two pipes, \<open>input[0]\<close>, \<open>input[1]\<close>, \<open>output[0]\<close> and \<open>output[1]\<close>. After
  \<open>fork\<close> each process holds all of them; \<open>close_end\<close> is a \<open>close\<close> of the parent, and the child closes
  two before it runs the program, which keeps the others.
\<close>

datatype pipe_end = Input_0 | Input_1 | Output_0 | Output_1

definition all_ends :: "pipe_end list" where
  "all_ends = [Input_0, Input_1, Output_0, Output_1]"

fun end_fd :: "int \<times> int \<Rightarrow> int \<times> int \<Rightarrow> pipe_end \<Rightarrow> int" where
  "end_fd input output Input_0 = fst input"
| "end_fd input output Input_1 = snd input"
| "end_fd input output Output_0 = fst output"
| "end_fd input output Output_1 = snd output"

definition close_end :: "int \<times> int \<Rightarrow> int \<times> int \<Rightarrow> pipe_end \<Rightarrow> pipe_end list \<times> world \<Rightarrow> pipe_end list \<times> world" where
  "close_end input output e s = (case s of (ends, w) \<Rightarrow> (removeAll e ends, sys_close (end_fd input output e) w))"

definition child_ends :: "pipe_end list" where
  "child_ends = removeAll Output_0 (removeAll Input_1 all_ends)"

text \<open>
  The parent reads the output to its end while it holds \<open>ends\<close>. The end comes when the program has ended, and
  only if the parent holds no write end of this pipe; the program meets the end of its input only if no
  process holds a write end of that one.
\<close>

definition read_output :: "pipe_end list \<Rightarrow> string list \<times> cgi_program \<Rightarrow> string \<Rightarrow> (string \<times> 32 word) option" where
  "read_output ends child inp =
     (if Output_1 \<in> set ends then None
      else snd child (fst child) (Input_1 \<notin> set (ends @ child_ends)) inp)"

text \<open>The parent's branch after \<open>fork\<close>, from closing its two pipe ends to closing the others.\<close>

definition cgi_parent ::
  "os \<Rightarrow> EndPoint \<Rightarrow> int \<Rightarrow> int \<times> int \<Rightarrow> int \<times> int \<Rightarrow> world \<Rightarrow> failure + int \<times> EndPoint \<times> world" where
  "cgi_parent os ep pid input output w =
     (case cgi_child os (m_http_request ep) w of (child, w1) \<Rightarrow>
        case close_end input output Output_1 (close_end input output Input_0 (all_ends, w1)) of (ends, w2) \<Rightarrow>
        (case (if m_method (m_http_request ep) = ''POST''
               then cgi_write_loop os (snd input) (m_request_body (m_http_request ep)) w2
               else ([], w2)) of (inp, w3) \<Rightarrow>
           (case read_output ends child inp of
              None \<Rightarrow> Inl Blocked_forever
            | Some (out, status) \<Rightarrow>
                let ep1 = on_response (fold addToResponseBody out) ep;
                    w4 = emit (EvOut (''body:'' @ m_response_body (m_http_response ep1) @ [LF])) w3
                in (case sys_waitpid os pid w4 of (ret, w5) \<Rightarrow>
                      let code = cgi_code ret pid status;
                          w6 = emit (EvOut (''code'' @ show_int code @ [LF])) w5
                      in Inr (code, ep1,
                           snd (close_end input output Input_1 (close_end input output Output_0 (ends, w6))))))))"

text \<open>
  The order of the calls evaluated: when the parent reads the output it still holds \<open>input[1]\<close>, so no
  program meets the end of its input.
\<close>

lemma cgi_parent_run:
  "cgi_parent os ep pid input output w =
     (case cgi_child os (m_http_request ep) w of (child, w1) \<Rightarrow>
        let w2 = sys_close (snd output) (sys_close (fst input) w1) in
        (case (if m_method (m_http_request ep) = ''POST''
               then cgi_write_loop os (snd input) (m_request_body (m_http_request ep)) w2
               else ([], w2)) of (inp, w3) \<Rightarrow>
           (case snd child (fst child) False inp of
              None \<Rightarrow> Inl Blocked_forever
            | Some (out, status) \<Rightarrow>
                let ep1 = on_response (fold addToResponseBody out) ep;
                    w4 = emit (EvOut (''body:'' @ m_response_body (m_http_response ep1) @ [LF])) w3
                in (case sys_waitpid os pid w4 of (ret, w5) \<Rightarrow>
                      let code = cgi_code ret pid status;
                          w6 = emit (EvOut (''code'' @ show_int code @ [LF])) w5
                      in Inr (code, ep1, sys_close (snd input) (sys_close (fst output) w6))))))"
  by (simp add: cgi_parent_def close_end_def read_output_def all_ends_def child_ends_def Let_def split: prod.split option.split)

text \<open>
  \<open>fork\<close> answers here as it does in the parent. Two pipes are opened before it; the
  error returns leave them open.
\<close>

definition CgiProcess :: "os \<Rightarrow> EndPoint \<Rightarrow> world \<Rightarrow> failure + int \<times> EndPoint \<times> world" where
  "CgiProcess os ep w =
     (case sys_pipe os w of
        (None, w1) \<Rightarrow> Inr (SERVER_ERROR, ep, w1)
      | (Some input, w1) \<Rightarrow>
          (case sys_pipe os w1 of
             (None, w2) \<Rightarrow> Inr (SERVER_ERROR, ep, w2)
           | (Some output, w2) \<Rightarrow>
               (case sys_fork os w2 of (pid, w3) \<Rightarrow>
                  if 0 < pid then cgi_parent os ep pid input output w3
                  else Inr (404, ep, w3))))"

definition NotCgiProcess :: "os \<Rightarrow> EndPoint \<Rightarrow> world \<Rightarrow> int \<times> EndPoint \<times> world" where
  "NotCgiProcess os ep w =
     (let (fd, w1) = sys_open os (c_str (m_path (m_http_request ep))) w;
          ep1 = on_response (m_fd_update (\<lambda>_. fd)) ep
      in if 0 < m_fd (m_http_response ep1) then (OK, ep1, w1) else (SERVER_ERROR, ep1, w1))"

section \<open>Status line and headers\<close>

definition BuildErrorHeader :: "os \<Rightarrow> string \<Rightarrow> EndPoint \<Rightarrow> world \<Rightarrow> EndPoint \<times> world" where
  "BuildErrorHeader os path ep w =
     (let (fd, w1) = sys_open os (c_str path) w;
          ep1 = on_response (m_fd_update (\<lambda>_. fd)) ep
      in if 0 < m_fd (m_http_response ep1) then
           (let ep2 = on_response (addToResponseHeader (''Content-Type: text/html'' @ LINE_END)) ep1;
                (st, w2) = sys_stat os (c_str path) w1;
                ep3 = (case st of Some s \<Rightarrow> on_response (setFileSize (st_size s)) ep2 | None \<Rightarrow> ep2);
                line = ''Content-Length: '' @ show_int (m_file_size (m_http_response ep3)) @ LINE_END
            in (on_response (addToResponseHeader line) ep3, w2))
         else (ep1, w1))"

text \<open>
  The two header lines of a successful response are pushed on \<open>response_header\<close>, a local
  copy of the header list, and lost when the function returns.
\<close>

definition Build200header :: "EndPoint \<Rightarrow> EndPoint" where
  "Build200header ep =
     (let cgi = m_cgi (m_http_request ep);
          r = m_http_response ep;
          line1 = ''Content-Type: '' @ ContentTypeTable (m_suffix r) @ LINE_END;
          line2 = ''Content-Length: '' @
            (if cgi then show_nat (length (m_response_body r)) else show_int (m_file_size r)) @ LINE_END
      in discard (m_response_header r @ [line1, line2]) ep)"

text \<open>\<open>case 404\<close> has no \<open>break\<close> and falls through to \<open>case 500\<close>.\<close>

definition BuildResponseHelper :: "os \<Rightarrow> EndPoint \<Rightarrow> world \<Rightarrow> EndPoint \<times> world" where
  "BuildResponseHelper os ep w =
     (let code = m_status_code (m_http_response ep);
          status_line = HTTP_VERSION @ '' '' @ show_int code @ '' '' @ CodeAnaly code @ LINE_END;
          ep1 = on_response (\<lambda>r. r\<lparr>m_status_line := status_line, m_res_blank := LINE_END\<rparr>) ep
      in if code = 200 then (Build200header ep1, w)
         else if code = 400 then BuildErrorHeader os PAGE_400 ep1 w
         else if code = 404 then
           (let (ep2, w2) = BuildErrorHeader os PAGE_404 ep1 w in BuildErrorHeader os PAGE_500 ep2 w2)
         else if code = 500 then BuildErrorHeader os PAGE_500 ep1 w
         else (ep1, w))"

section \<open>Choosing the resource\<close>

definition S_ISDIR :: "32 word \<Rightarrow> bool" where
  "S_ISDIR m \<longleftrightarrow> m AND 0xF000 = 0x4000"

definition executable :: "32 word \<Rightarrow> bool" where
  "executable m \<longleftrightarrow> m AND 0x8 \<noteq> 0 \<or> m AND 0x1 \<noteq> 0 \<or> m AND 0x40 \<noteq> 0"

text \<open>The bytes of the console message for a missing file (UTF-8).\<close>

definition missing_msg :: string where
  "missing_msg = [CHR 0xE6, CHR 0x96, CHR 0x87, CHR 0xE4, CHR 0xBB, CHR 0xB6, CHR 0xE4, CHR 0xB8,
     CHR 0x8D, CHR 0xE5, CHR 0xAD, CHR 0x98, CHR 0xE5, CHR 0x9C, CHR 0xA8, CHR '':'']"

text \<open>The path part: \<open>wwwroot\<close>, the request path, and the home page after a final slash.\<close>

definition resource_path :: "string \<Rightarrow> string" where
  "resource_path path =
     (let p = WWW_ROOT @ path in if p ! (length p - 1) = CHR ''/'' then p @ HOME_PAGE else p)"

text \<open>The suffix part: from the last dot of the whole path on.\<close>

definition path_suffix :: "string \<Rightarrow> string" where
  "path_suffix p = (case rfind_char (CHR ''.'') p of Some pos \<Rightarrow> drop pos p | None \<Rightarrow> ''.html'')"

text \<open>What a successful \<open>stat\<close> leads to: the index page of a directory, or the CGI flag.\<close>

definition locate_resource :: "os \<Rightarrow> stat \<Rightarrow> EndPoint \<Rightarrow> world \<Rightarrow> EndPoint \<times> stat \<times> world" where
  "locate_resource os st ep w =
     (if S_ISDIR (st_mode st) then
        (let ep1 = on_request (addToPath HOME_PAGE) (on_request (addToPath ''/'') ep);
             (st2, w1) = sys_stat os (c_str (m_path (m_http_request ep1))) w
         in (on_response (m_suffix_update (\<lambda>_. ''.html'')) ep1,
             (case st2 of Some s \<Rightarrow> s | None \<Rightarrow> st), w1))
      else if executable (st_mode st) then (on_request (m_cgi_update (\<lambda>_. True)) ep, st, w)
      else (ep, st, w))"

text \<open>
  The rest: size and suffix, then the CGI program or the file. Both \<open>CgiProcess\<close> and
  \<open>NotCgiProcess\<close> are called twice: once for the local \<open>code\<close>, once for the status.
\<close>

definition serve_resource :: "os \<Rightarrow> stat \<Rightarrow> EndPoint \<Rightarrow> world \<Rightarrow> failure + EndPoint \<times> world" where
  "serve_resource os st ep w =
     (let ep1 = on_response (setFileSize (st_size st)) ep;
          ep2 = on_response (m_suffix_update (\<lambda>_. path_suffix (m_path (m_http_request ep1)))) ep1
      in if m_cgi (m_http_request ep2) then
           (case CgiProcess os ep2 (emit (EvOut (''cgi begin...'' @ [LF])) w) of
              Inl e \<Rightarrow> Inl e
            | Inr (code, ep3, w3) \<Rightarrow>
                (case CgiProcess os ep3 w3 of
                   Inl e \<Rightarrow> Inl e
                 | Inr (code', ep4, w4) \<Rightarrow>
                     Inr (BuildResponseHelper os
                            (on_response (m_status_code_update (\<lambda>_. code')) ep4) w4)))
         else
           (case NotCgiProcess os ep2 (emit (EvOut (''not cgi begining'' @ [LF])) w) of
              (code, ep3, w3) \<Rightarrow>
                (case NotCgiProcess os ep3 w3 of
                   (code', ep4, w4) \<Rightarrow>
                     Inr (BuildResponseHelper os
                            (on_response (m_status_code_update (\<lambda>_. code')) ep4) w4))))"

definition BuildHttpResponse :: "os \<Rightarrow> EndPoint \<Rightarrow> world \<Rightarrow> failure + EndPoint \<times> world" where
  "BuildHttpResponse os ep w =
     (if m_status_code (m_http_response ep) = BAD_REQUEST then Inr (BuildResponseHelper os ep w)
      else
        (let path = m_path (m_http_request ep);
             ep1 = on_request (m_path_update (\<lambda>_. resource_path path)) ep;
             w1 = emit (EvOut (''path:'' @ m_path (m_http_request ep1) @ [LF])) w
         in case sys_stat os (c_str (m_path (m_http_request ep1))) w1 of
              (None, w2) \<Rightarrow>
                (let ep2 = on_response (m_status_code_update (\<lambda>_. NOT_FOUND)) ep1;
                     w3 = emit (EvOut (missing_msg @ path @ [LF])) w2
                 in Inr (BuildResponseHelper os ep2 w3))
            | (Some st, w2) \<Rightarrow>
                (case locate_resource os st ep1 w2 of
                   (ep2, st', w3) \<Rightarrow> serve_resource os st' ep2 w3)))"

section \<open>What the building half may do\<close>

text \<open>\<open>grows P w w'\<close>: the run went on from \<open>w\<close> to \<open>w'\<close> by events that satisfy \<open>P\<close>.\<close>

definition grows :: "(event \<Rightarrow> bool) \<Rightarrow> world \<Rightarrow> world \<Rightarrow> bool" where
  "grows P w w' \<longleftrightarrow> (\<exists>es. trace w' = trace w @ es \<and> list_all P es)"

lemma grows_refl [simp, intro]: "grows P w w"
  by (simp add: grows_def)

lemma grows_trans [trans]: "grows P w w' \<Longrightarrow> grows P w' w'' \<Longrightarrow> grows P w w''"
  by (auto simp: grows_def)

lemma grows_emit: "grows P w w' \<Longrightarrow> P e \<Longrightarrow> grows P w (emit e w')"
  by (auto simp: grows_def)

lemma grows_in [simp]: "grows P w (w'\<lparr>sock_in := i\<rparr>) = grows P w w'"
  by (simp add: grows_def)

lemma grows_mono: "grows P w w' \<Longrightarrow> (\<And>e. P e \<Longrightarrow> Q e) \<Longrightarrow> grows Q w w'"
  by (auto simp: grows_def list_all_iff)

fun build_event :: "event \<Rightarrow> bool" where
  "build_event (EvStat p) \<longleftrightarrow> prefix WWW_ROOT p"
| "build_event (EvOpen p r) \<longleftrightarrow> prefix WWW_ROOT p"
| "build_event (EvExec p env) \<longleftrightarrow> prefix WWW_ROOT p"
| "build_event (EvSend s d n) \<longleftrightarrow> False"
| "build_event (EvSendfile s i n d) \<longleftrightarrow> False"
| "build_event (EvAccept s r) \<longleftrightarrow> False"
| "build_event (EvPush s) \<longleftrightarrow> False"
| "build_event (EvExit c) \<longleftrightarrow> False"
| "build_event _ \<longleftrightarrow> True"

lemma build_event_wire: "build_event e \<Longrightarrow> event_wire fd e = []"
  by (cases e) auto

lemma grows_build_wire: "grows build_event w w' \<Longrightarrow> wire fd (trace w') = wire fd (trace w)"
proof -
  have "list_all build_event es \<Longrightarrow> wire fd es = []" for es
    by (induction es) (auto simp: build_event_wire)
  then show "grows build_event w w' \<Longrightarrow> wire fd (trace w') = wire fd (trace w)"
    by (auto simp: grows_def)
qed

lemma prefix_c_str [simp]: "prefix WWW_ROOT p \<Longrightarrow> prefix WWW_ROOT (c_str p)"
  by (auto simp: prefix_def WWW_ROOT_def c_str_def)

lemma prefix_pages [simp]: "prefix WWW_ROOT PAGE_400" "prefix WWW_ROOT PAGE_404" "prefix WWW_ROOT PAGE_500"
  by (simp_all add: prefix_def WWW_ROOT_def PAGE_400_def PAGE_404_def PAGE_500_def)

lemma prefix_resource [simp]: "prefix WWW_ROOT (resource_path p)"
  by (auto simp: resource_path_def Let_def)

text \<open>The loop that writes to the program does nothing else.\<close>

definition write_event :: "event \<Rightarrow> bool" where
  "write_event e \<longleftrightarrow> (\<exists>fd s n. e = EvWrite fd s n)"

lemma write_loop_grows: "cgi_write_loop os fd s w = (out, w') \<Longrightarrow> grows write_event w w'"
proof (induction os fd s w arbitrary: out w' rule: cgi_write_loop.induct)
  case (1 os fd rest w)
  obtain n w1 where n: "sys_write os fd rest w = (n, w1)" by fastforce
  then have g: "grows write_event w w1" by (auto simp: sys_write_def write_event_def Let_def intro: grows_emit)
  show ?case
  proof (cases "0 < n")
    case True
    obtain t w2 where t: "cgi_write_loop os fd (drop (nat n) rest) w1 = (t, w2)" by fastforce
    have "grows write_event w1 w2" using "1.IH" [OF n [symmetric] True t] .
    moreover have "w' = w2" using "1.prems" n t True
      by (subst (asm) cgi_write_loop.simps) simp
    ultimately show ?thesis using g grows_trans by blast
  next
    case False
    then have "w' = w1" using "1.prems" n by (subst (asm) cgi_write_loop.simps) simp
    with g show ?thesis by simp
  qed
qed

lemma grows_write_loop: "cgi_write_loop os fd s w = (out, w') \<Longrightarrow> grows build_event w w'"
  by (rule grows_mono [OF write_loop_grows]) (auto simp: write_event_def)

lemma grows_cgi_child:
  "prefix WWW_ROOT (m_path q) \<Longrightarrow> cgi_child os q w = (p, w') \<Longrightarrow> grows build_event w w'"
  by (auto simp: cgi_child_def Let_def intro!: grows_emit split: if_splits)

lemma fold_addToResponseBody:
  "fold addToResponseBody s r = r\<lparr>m_response_body := m_response_body r @ s\<rparr>"
  by (induction s arbitrary: r) (simp_all add: addToResponseBody_def)

section \<open>One run of a CGI program\<close>

lemma cgi_parent_cases:
  assumes "cgi_parent os ep pid pin pout w = Inr (code, ep', w')"
  obtains env prog w1 inp w3 out status ret where
    "cgi_child os (m_http_request ep) w = ((env, prog), w1)"
    "(if m_method (m_http_request ep) = ''POST''
      then cgi_write_loop os (snd pin) (m_request_body (m_http_request ep))
             (sys_close (snd pout) (sys_close (fst pin) w1))
      else ([], sys_close (snd pout) (sys_close (fst pin) w1))) = (inp, w3)"
    "prog env False inp = Some (out, status)"
    "ep' = on_response (\<lambda>r. r\<lparr>m_response_body := m_response_body r @ out\<rparr>) ep"
    "ret = os_waitpid os
       (trace w3 @ [EvOut (''body:'' @ m_response_body (m_http_response ep) @ out @ [LF])]) pid"
    "code = cgi_code ret pid status"
    "trace w' = trace w3 @
       [EvOut (''body:'' @ m_response_body (m_http_response ep) @ out @ [LF]), EvWaitpid pid ret,
        EvOut (''code'' @ show_int code @ [LF]), EvClose (fst pout), EvClose (snd pin)]"
proof -
  obtain child w1 where 1: "cgi_child os (m_http_request ep) w = (child, w1)" by fastforce
  obtain env prog where child: "child = (env, prog)" by fastforce
  let ?w2 = "sys_close (snd pout) (sys_close (fst pin) w1)"
  obtain inp w3 where 3: "(if m_method (m_http_request ep) = ''POST''
      then cgi_write_loop os (snd pin) (m_request_body (m_http_request ep)) ?w2
      else ([], ?w2)) = (inp, w3)" by fastforce
  from assms 1 child 3 obtain out status where 4: "prog env False inp = Some (out, status)"
    by (cases "prog env False inp") (auto simp: cgi_parent_run Let_def)
  let ?h = "trace w3 @ [EvOut (''body:'' @ m_response_body (m_http_response ep) @ out @ [LF])]"
  have "ep' = on_response (\<lambda>r. r\<lparr>m_response_body := m_response_body r @ out\<rparr>) ep"
    "code = cgi_code (os_waitpid os ?h pid) pid status"
    "trace w' = trace w3 @
       [EvOut (''body:'' @ m_response_body (m_http_response ep) @ out @ [LF]),
        EvWaitpid pid (os_waitpid os ?h pid),
        EvOut (''code'' @ show_int code @ [LF]), EvClose (fst pout), EvClose (snd pin)]"
    using assms [unfolded cgi_parent_run Let_def 1 child prod.case fst_conv snd_conv 3 4 option.case]
    by (auto simp: fold_addToResponseBody os_calls Let_def)
  from that [OF 1 [unfolded child] 3 4 this(1) refl this(2,3)] show thesis .
qed

lemma CgiProcess_cases:
  assumes "CgiProcess os ep w = Inr (code, ep', w')"
  obtains (no_pipe) es where "code = SERVER_ERROR" "ep' = ep" "trace w' = trace w @ es"
      "es \<in> {[EvPipe None]} \<union> {[EvPipe (Some p), EvPipe None] | p. True}"
  | (no_fork) p1 p2 pid where "code = NOT_FOUND" "ep' = ep" "pid \<le> 0"
      "trace w' = trace w @ [EvPipe (Some p1), EvPipe (Some p2), EvFork pid]"
  | (ran) pin pout pid w3 where "0 < pid"
      "trace w3 = trace w @ [EvPipe (Some pin), EvPipe (Some pout), EvFork pid]"
      "cgi_parent os ep pid pin pout w3 = Inr (code, ep', w')"
proof -
  obtain p1 w1 where 1: "sys_pipe os w = (p1, w1)" by fastforce
  then have t1: "trace w1 = trace w @ [EvPipe p1]" by (auto simp: os_calls Let_def)
  show thesis
  proof (cases p1)
    case None
    with assms 1 t1 no_pipe [of "[EvPipe None]"] show thesis by (auto simp: CgiProcess_def)
  next
    case (Some a)
    obtain p2 w2 where 2: "sys_pipe os w1 = (p2, w2)" by fastforce
    then have t2: "trace w2 = trace w @ [EvPipe p1, EvPipe p2]"
      using t1 by (auto simp: os_calls Let_def)
    show thesis
    proof (cases p2)
      case None
      with assms 1 2 t2 Some no_pipe [of "[EvPipe (Some a), EvPipe None]"] show thesis
        by (auto simp: CgiProcess_def)
    next
      case (Some b)
      note p2 = this
      obtain pid w3 where 3: "sys_fork os w2 = (pid, w3)" by fastforce
      then have t3: "trace w3 = trace w @ [EvPipe p1, EvPipe p2, EvFork pid]"
        using t2 by (auto simp: os_calls Let_def)
      show thesis
      proof (cases "0 < pid")
        case True
        with assms 1 2 3 \<open>p1 = Some a\<close> p2 have "cgi_parent os ep pid a b w3 = Inr (code, ep', w')"
          by (simp add: CgiProcess_def)
        with ran [OF True _ this] t3 \<open>p1 = Some a\<close> p2 show thesis by simp
      next
        case False
        with assms 1 2 3 t3 \<open>p1 = Some a\<close> p2 no_fork [of pid a b] show thesis
          by (simp add: CgiProcess_def status_codes)
      qed
    qed
  qed
qed

lemma cgi_code_cases: "cgi_code ret pid status \<in> {OK, SERVER_ERROR}"
  by (simp add: cgi_code_def)

lemma CgiProcess_frame:
  assumes "CgiProcess os ep w = Inr (code, ep', w')"
  shows "code \<in> {OK, SERVER_ERROR, NOT_FOUND} \<and>
    (\<exists>out. ep' = on_response (\<lambda>r. r\<lparr>m_response_body := m_response_body r @ out\<rparr>) ep)"
  using assms
proof (cases rule: CgiProcess_cases)
  case (ran pin pout pid w3)
  from ran(3) show ?thesis
    by (rule cgi_parent_cases) (use cgi_code_cases in blast)
qed (auto intro: exI [of _ "[]"])

lemma CgiProcess_grows:
  assumes "CgiProcess os ep w = Inr (code, ep', w')" and "prefix WWW_ROOT (m_path (m_http_request ep))"
  shows "grows build_event w w'"
  using assms(1)
proof (cases rule: CgiProcess_cases)
  case (ran pin pout pid w3)
  from ran(3) show ?thesis
  proof (rule cgi_parent_cases)
    fix env prog w1 inp w4 out status ret
    assume c: "cgi_child os (m_http_request ep) w3 = ((env, prog), w1)"
      and l: "(if m_method (m_http_request ep) = ''POST''
        then cgi_write_loop os (snd pin) (m_request_body (m_http_request ep))
               (sys_close (snd pout) (sys_close (fst pin) w1))
        else ([], sys_close (snd pout) (sys_close (fst pin) w1))) = (inp, w4)"
      and t: "trace w' = trace w4 @
       [EvOut (''body:'' @ m_response_body (m_http_response ep) @ out @ [LF]), EvWaitpid pid ret,
        EvOut (''code'' @ show_int code @ [LF]), EvClose (fst pout), EvClose (snd pin)]"
    have "grows build_event w w3" using ran(2) by (simp add: grows_def)
    also have "grows build_event w3 w1" by (rule grows_cgi_child [OF assms(2) c])
    also have "grows build_event w1 (sys_close (snd pout) (sys_close (fst pin) w1))"
      by (simp add: os_calls grows_emit)
    also have "grows build_event (sys_close (snd pout) (sys_close (fst pin) w1)) w4"
      using l grows_write_loop by (auto split: if_splits)
    also have "grows build_event w4 w'" using t by (simp add: grows_def)
    finally show ?thesis .
  qed
qed (auto simp: grows_def)

lemma NotCgiProcess_eq:
  "NotCgiProcess os ep w =
    (let fd = os_open os (trace w) (c_str (m_path (m_http_request ep)))
     in (if 0 < fd then OK else SERVER_ERROR,
         on_response (m_fd_update (\<lambda>_. fd)) ep,
         emit (EvOpen (c_str (m_path (m_http_request ep))) fd) w))"
  by (simp add: NotCgiProcess_def os_calls Let_def)

section \<open>Status line and headers\<close>

definition status_line_of :: "int \<Rightarrow> string" where
  "status_line_of code = ''HTTP/1.1 '' @ show_int code @ '' '' @ CodeAnaly code @ [CR, LF]"

definition error_header :: "string \<Rightarrow> bool" where
  "error_header s \<longleftrightarrow> s = ''Content-Type: text/html'' @ [CR, LF] \<or>
     (\<exists>n. s = ''Content-Length: '' @ show_int n @ [CR, LF])"

definition same_but_response :: "EndPoint \<Rightarrow> EndPoint \<Rightarrow> bool" where
  "same_but_response ep ep' \<longleftrightarrow> m_sock ep' = m_sock ep \<and> m_http_request ep' = m_http_request ep \<and>
     m_stop ep' = m_stop ep \<and>
     m_response_body (m_http_response ep') = m_response_body (m_http_response ep) \<and>
     m_status_code (m_http_response ep') = m_status_code (m_http_response ep)"

lemma same_but_response_refl [simp]: "same_but_response ep ep"
  by (simp add: same_but_response_def)

lemma same_but_response_trans [trans]:
  "same_but_response a b \<Longrightarrow> same_but_response b c \<Longrightarrow> same_but_response a c"
  by (simp add: same_but_response_def)

lemma BuildErrorHeader_props:
  assumes "BuildErrorHeader os path ep w = (ep', w')"
  shows "same_but_response ep ep'"
    and "m_status_line (m_http_response ep') = m_status_line (m_http_response ep)"
    and "m_res_blank (m_http_response ep') = m_res_blank (m_http_response ep)"
    and "\<exists>hs. m_response_header (m_http_response ep') = m_response_header (m_http_response ep) @ hs \<and>
      list_all error_header hs"
    and "prefix WWW_ROOT path \<Longrightarrow> grows build_event w w'"
    and "m_fd (m_http_response ep') = os_open os (trace w) (c_str path)"
  using assms
  by (auto simp: BuildErrorHeader_def os_calls Let_def same_but_response_def
      addToResponseHeader_def setFileSize_def error_header_def LINE_END_def grows_emit
      split: if_splits option.splits)

text \<open>What the building half hands to the sending half.\<close>

definition built :: "EndPoint \<Rightarrow> bool" where
  "built ep \<longleftrightarrow> (let r = m_http_response ep in
     m_status_code r \<in> {OK, BAD_REQUEST, NOT_FOUND, SERVER_ERROR} \<and>
     m_status_line r = status_line_of (m_status_code r) \<and> m_res_blank r = [CR, LF] \<and>
     list_all error_header (m_response_header r) \<and>
     (m_status_code r = OK \<longrightarrow> m_response_header r = []))"

lemma BuildResponseHelper_props:
  assumes run: "BuildResponseHelper os ep w = (ep', w')"
    and code: "m_status_code (m_http_response ep) \<in> {OK, BAD_REQUEST, NOT_FOUND, SERVER_ERROR}"
    and hs: "m_response_header (m_http_response ep) = []"
  shows "built ep' \<and> same_but_response ep ep' \<and> grows build_event w w'"
proof -
  let ?code = "m_status_code (m_http_response ep)"
  let ?ep1 = "on_response (\<lambda>r. r\<lparr>m_status_line := status_line_of ?code, m_res_blank := [CR, LF]\<rparr>) ep"
  have s1: "same_but_response ep ?ep1" by (simp add: same_but_response_def)
  have line: "HTTP_VERSION @ '' '' @ show_int ?code @ '' '' @ CodeAnaly ?code @ LINE_END = status_line_of ?code"
    by (simp add: status_line_of_def HTTP_VERSION_def LINE_END_def)
  have err: "built e2 \<and> same_but_response ep e2 \<and> grows build_event w u2"
    if "BuildErrorHeader os p e1 u1 = (e2, u2)" "prefix WWW_ROOT p" "same_but_response ep e1"
      "m_status_line (m_http_response e1) = status_line_of ?code"
      "m_res_blank (m_http_response e1) = [CR, LF]" "list_all error_header (m_response_header (m_http_response e1))"
      "grows build_event w u1" "?code \<noteq> OK" for p e1 u1 e2 u2
    using BuildErrorHeader_props [OF that(1)] that(2-) code
    by (auto simp: built_def Let_def same_but_response_def intro: grows_trans)
  have run': "BuildResponseHelper os ep w =
    (if ?code = 200 then (Build200header ?ep1, w)
     else if ?code = 400 then BuildErrorHeader os PAGE_400 ?ep1 w
     else if ?code = 404 then
       (case BuildErrorHeader os PAGE_404 ?ep1 w of (ep2, w2) \<Rightarrow> BuildErrorHeader os PAGE_500 ep2 w2)
     else if ?code = 500 then BuildErrorHeader os PAGE_500 ?ep1 w else (?ep1, w))"
    unfolding BuildResponseHelper_def Let_def line unfolding LINE_END_def by (rule refl)
  consider "?code = 200" | "?code = 400" | "?code = 404" | "?code = 500"
    using code by (auto simp: status_codes)
  then show ?thesis
  proof cases
    case 1
    with run run' have "ep' = ?ep1" "w' = w" by (simp_all add: Build200header_def Let_def)
    with 1 hs s1 show ?thesis by (simp add: built_def status_codes Let_def)
  next
    case 2
    with run run' have "BuildErrorHeader os PAGE_400 ?ep1 w = (ep', w')" by simp
    from err [OF this] s1 2 hs show ?thesis by (simp add: status_codes)
  next
    case 3
    obtain e2 u2 where e2: "BuildErrorHeader os PAGE_404 ?ep1 w = (e2, u2)" by fastforce
    with 3 run run' have l: "BuildErrorHeader os PAGE_500 e2 u2 = (ep', w')" by simp
    from err [OF e2] s1 3 hs have b: "built e2" "same_but_response ep e2" "grows build_event w u2"
      by (simp_all add: status_codes)
    then show ?thesis using err [OF l] 3
      by (simp add: built_def Let_def same_but_response_def status_codes)
  next
    case 4
    with run run' have "BuildErrorHeader os PAGE_500 ?ep1 w = (ep', w')" by simp
    from err [OF this] s1 4 hs show ?thesis by (simp add: status_codes)
  qed
qed

section \<open>The whole of \<open>BuildHttpResponse\<close>\<close>

definition fresh_response :: "EndPoint \<Rightarrow> bool" where
  "fresh_response ep \<longleftrightarrow> m_response_header (m_http_response ep) = [] \<and>
     m_status_code (m_http_response ep) \<in> {OK, BAD_REQUEST}"

lemma serve_resource_props:
  assumes run: "serve_resource os st ep w = Inr (ep', w')"
    and hs: "m_response_header (m_http_response ep) = []"
    and path: "prefix WWW_ROOT (m_path (m_http_request ep))"
  shows "built ep' \<and> m_sock ep' = m_sock ep \<and> m_cgi (m_http_request ep') = m_cgi (m_http_request ep) \<and>
    grows build_event w w'"
proof -
  let ?ep2 = "on_response (m_suffix_update (\<lambda>_. path_suffix (m_path (m_http_request ep))))
    (on_response (setFileSize (st_size st)) ep)"
  have path2: "prefix WWW_ROOT (m_path (m_http_request ?ep2))" using path by simp
  have g1: "grows build_event w (emit (EvOut x) w)" for x by (simp add: grows_emit)
  show ?thesis
  proof (cases "m_cgi (m_http_request ep)")
    case True
    let ?w1 = "emit (EvOut (''cgi begin...'' @ [LF])) w"
    obtain c3 ep3 w3 where 3: "CgiProcess os ?ep2 ?w1 = Inr (c3, ep3, w3)"
      using run True by (cases "CgiProcess os ?ep2 ?w1") (auto simp: serve_resource_def Let_def)
    obtain c4 ep4 w4 where 4: "CgiProcess os ep3 w3 = Inr (c4, ep4, w4)"
      using run True 3 by (cases "CgiProcess os ep3 w3") (auto simp: serve_resource_def Let_def)
    let ?ep5 = "on_response (m_status_code_update (\<lambda>_. c4)) ep4"
    have h: "BuildResponseHelper os ?ep5 w4 = (ep', w')"
      using run True 3 4 by (simp add: serve_resource_def Let_def)
    have f3: "m_http_request ep3 = m_http_request ?ep2" "m_sock ep3 = m_sock ep"
      "m_response_header (m_http_response ep3) = []"
      using CgiProcess_frame [OF 3] hs by (auto simp: setFileSize_def)
    then have f4: "m_http_request ep4 = m_http_request ?ep2" "m_sock ep4 = m_sock ep"
      "m_response_header (m_http_response ep4) = []"
      "c4 \<in> {OK, BAD_REQUEST, NOT_FOUND, SERVER_ERROR}"
      using CgiProcess_frame [OF 4] by auto
    have "grows build_event w ?w1" by (rule g1)
    also have "grows build_event ?w1 w3" by (rule CgiProcess_grows [OF 3 path2])
    also have "grows build_event w3 w4" by (rule CgiProcess_grows [OF 4]) (simp add: f3(1) path)
    finally have "grows build_event w w4" .
    then show ?thesis
      using BuildResponseHelper_props [OF h] f4 by (auto simp: same_but_response_def intro: grows_trans)
  next
    case False
    let ?w1 = "emit (EvOut (''not cgi begining'' @ [LF])) w"
    let ?p = "c_str (m_path (m_http_request ep))"
    let ?f3 = "os_open os (trace ?w1) ?p"
    let ?ep3 = "on_response (m_fd_update (\<lambda>_. ?f3)) ?ep2"
    let ?w3 = "emit (EvOpen ?p ?f3) ?w1"
    let ?f4 = "os_open os (trace ?w3) ?p"
    let ?ep4 = "on_response (m_fd_update (\<lambda>_. ?f4)) ?ep3"
    let ?w4 = "emit (EvOpen ?p ?f4) ?w3"
    let ?c4 = "if 0 < ?f4 then OK else SERVER_ERROR"
    let ?ep5 = "on_response (m_status_code_update (\<lambda>_. ?c4)) ?ep4"
    have h: "BuildResponseHelper os ?ep5 ?w4 = (ep', w')"
      using run False by (simp add: serve_resource_def Let_def NotCgiProcess_eq)
    have "grows build_event w ?w4" using path by (simp add: grows_emit)
    then show ?thesis
      using BuildResponseHelper_props [OF h] hs
      by (auto simp: same_but_response_def setFileSize_def intro: grows_trans)
  qed
qed

lemma locate_resource_props:
  assumes "locate_resource os st ep w = (ep', st', w')" and "prefix WWW_ROOT (m_path (m_http_request ep))"
  shows "prefix WWW_ROOT (m_path (m_http_request ep')) \<and> m_sock ep' = m_sock ep \<and>
    m_response_header (m_http_response ep') = m_response_header (m_http_response ep) \<and>
    grows build_event w w'"
  using assms
  by (auto simp: locate_resource_def os_calls Let_def addToPath_def grows_emit split: if_splits)

lemma BuildHttpResponse_props:
  assumes run: "BuildHttpResponse os ep w = Inr (ep', w')" and fresh: "fresh_response ep"
  shows "built ep' \<and> m_sock ep' = m_sock ep \<and> grows build_event w w'"
proof (cases "m_status_code (m_http_response ep) = BAD_REQUEST")
  case True
  then have "BuildResponseHelper os ep w = (ep', w')" using run by (simp add: BuildHttpResponse_def)
  from BuildResponseHelper_props [OF this] fresh True show ?thesis
    by (simp add: fresh_response_def same_but_response_def)
next
  case False
  let ?path = "m_path (m_http_request ep)"
  let ?ep1 = "on_request (m_path_update (\<lambda>_. resource_path ?path)) ep"
  let ?w1 = "emit (EvOut (''path:'' @ resource_path ?path @ [LF])) w"
  let ?w2 = "emit (EvStat (c_str (resource_path ?path))) ?w1"
  let ?st = "os_stat os (trace ?w1) (c_str (resource_path ?path))"
  have g: "grows build_event w ?w2" by (simp add: grows_emit)
  have hs: "m_response_header (m_http_response ep) = []" using fresh by (simp add: fresh_response_def)
  show ?thesis
  proof (cases ?st)
    case None
    let ?ep2 = "on_response (m_status_code_update (\<lambda>_. NOT_FOUND)) ?ep1"
    let ?w3 = "emit (EvOut (missing_msg @ ?path @ [LF])) ?w2"
    have "BuildResponseHelper os ?ep2 ?w3 = (ep', w')"
      using run False None by (simp add: BuildHttpResponse_def os_calls Let_def)
    moreover have "grows build_event w ?w3" using g by (rule grows_emit) simp
    ultimately show ?thesis
      using BuildResponseHelper_props [of os ?ep2 ?w3 ep' w'] hs
      by (auto simp: same_but_response_def intro: grows_trans)
  next
    case (Some st)
    obtain ep2 st' w3 where l: "locate_resource os st ?ep1 ?w2 = (ep2, st', w3)" by (metis surj_pair)
    have s: "serve_resource os st' ep2 w3 = Inr (ep', w')"
      using run False Some l by (simp add: BuildHttpResponse_def os_calls Let_def)
    show ?thesis
      using locate_resource_props [OF l] serve_resource_props [OF s] hs g
      by (auto intro: grows_trans)
  qed
qed
end
