(* ===== verification/Http_Send.thy ===== *)
theory Http_Send
  imports Http_Build
begin

text \<open>
  Sending the response, and \<open>HandlerTask\<close>: one connection from the accepted socket to its
  close (src/protocal.cc, include/protocal.h).
\<close>

section \<open>Definitions\<close>

text \<open>The header lines are sent one by one; the answers of \<open>send\<close> are ignored.\<close>

fun send_lines :: "os \<Rightarrow> int \<Rightarrow> string list \<Rightarrow> world \<Rightarrow> world" where
  "send_lines os fd [] w = w"
| "send_lines os fd (str # rest) w = send_lines os fd rest (snd (sys_send os fd str w))"

text \<open>The loop that sends a CGI body.\<close>

function send_loop :: "os \<Rightarrow> int \<Rightarrow> string \<Rightarrow> world \<Rightarrow> world" where
  "send_loop os fd rest w =
     (if rest \<noteq> [] then
        (case sys_send os fd rest w of (n, w1) \<Rightarrow>
           if 0 < n then send_loop os fd (drop (nat n) rest) w1 else w1)
      else w)"
  by pat_completeness auto

termination send_loop
  by (relation "measure (\<lambda>(os, fd, rest, w). length rest)") auto

declare send_loop.simps [simp del]

definition SendHttpResponse :: "os \<Rightarrow> EndPoint \<Rightarrow> world \<Rightarrow> world" where
  "SendHttpResponse os ep w =
     (let r = m_http_response ep;
          w1 = snd (sys_send os (m_sock ep) (m_status_line r) w);
          w2 = send_lines os (m_sock ep) (m_response_header r) w1;
          w3 = snd (sys_send os (m_sock ep) (m_res_blank r) w2);
          w4 = (if m_cgi (m_http_request ep)
                then send_loop os (m_sock ep) (m_response_body r) w3
                else sys_close (m_fd r)
                       (sys_sendfile os (m_sock ep) (m_fd r) (int (to_size (m_file_size r))) w3))
      in emit (EvLog INFO ''SendHttpRespone'') w4)"

text \<open>
  \<open>HandlerTask::HandlerRequest\<close>: the three arguments in the middle are what the memory
  of the fresh end point holds in the members no constructor sets.
\<close>

definition HandlerRequest :: "os \<Rightarrow> bool \<Rightarrow> int \<Rightarrow> int \<Rightarrow> int \<Rightarrow> world \<Rightarrow> failure + world" where
  "HandlerRequest os stop0 fd0 size0 sock w =
     (case RecvHttpRequest (new_EndPoint sock stop0 fd0 size0) w of
        Inl e \<Rightarrow> Inl e
      | Inr (ep, w1) \<Rightarrow>
          if \<not> m_stop ep then
            (case BuildHttpResponse os ep w1 of
               Inl e \<Rightarrow> Inl e
             | Inr (ep2, w2) \<Rightarrow> Inr (sys_close sock (SendHttpResponse os ep2 w2)))
          else Inr (sys_close sock w1))"

definition HandlerTask_call :: "os \<Rightarrow> bool \<Rightarrow> int \<Rightarrow> int \<Rightarrow> int \<Rightarrow> world \<Rightarrow> failure + world" where
  "HandlerTask_call os stop0 fd0 size0 sock w =
     HandlerRequest os stop0 fd0 size0 sock (emit (EvLog INFO ''HandlerTask'') w)"

section \<open>Sending\<close>

definition full_send :: "os \<Rightarrow> bool" where
  "full_send os \<longleftrightarrow> (\<forall>h fd s. os_send os h fd s = int (length s))"

lemma sys_send_full:
  "full_send os \<Longrightarrow> sys_send os fd s w = (int (length s), emit (EvSend fd s (int (length s))) w)"
  by (simp add: sys_send_def full_send_def clip_def Let_def)

lemma send_lines_full:
  "full_send os \<Longrightarrow> trace (send_lines os fd hs w) = trace w @ map (\<lambda>h. EvSend fd h (int (length h))) hs"
  by (induction hs arbitrary: w) (simp_all add: sys_send_full)

lemma send_loop_Nil [simp]: "send_loop os fd [] w = w"
  by (simp add: send_loop.simps)

lemma send_loop_full:
  "full_send os \<Longrightarrow> trace (send_loop os fd s w) =
     trace w @ (if s = [] then [] else [EvSend fd s (int (length s))])"
  by (simp add: send_loop.simps [of os fd s w] send_loop.simps [of os fd "[]"] sys_send_full)

text \<open>Whatever the calls answer, the loop sends a prefix of the body, in order.\<close>

lemma send_loop_prefix:
  "\<exists>k. wire fd (trace (send_loop os fd s w)) = wire fd (trace w) @ take k s"
proof (induction os fd s w rule: send_loop.induct)
  case (1 os fd rest w)
  show ?case
  proof (cases "rest = []")
    case True
    then show ?thesis by (simp add: send_loop.simps [of os fd rest w])
  next
    case False
    obtain n w1 where n: "sys_send os fd rest w = (n, w1)" by fastforce
    then have t1: "trace w1 = trace w @ [EvSend fd rest n]" and le: "n \<le> int (length rest)"
      using clip_le by (auto simp: sys_send_def Let_def)
    show ?thesis
    proof (cases "0 < n")
      case True
      from "1.IH" [OF False n [symmetric] True] obtain k where
        "wire fd (trace (send_loop os fd (drop (nat n) rest) w1)) =
          wire fd (trace w1) @ take k (drop (nat n) rest)" by blast
      moreover have "take (nat n) rest @ take k (drop (nat n) rest) = take (nat n + k) rest"
        by (simp add: take_add)
      ultimately show ?thesis using False n True t1
        by (auto simp: send_loop.simps [of os fd rest w] intro: exI [of _ "nat n + k"])
    next
      case False2: False
      then show ?thesis using False n t1
        by (auto simp: send_loop.simps [of os fd rest w] intro: exI [of _ 0])
    qed
  qed
qed

lemma send_loop_complete:
  assumes "\<And>h t. t \<noteq> [] \<Longrightarrow> 0 < os_send os h fd t \<and> os_send os h fd t \<le> int (length t)"
  shows "wire fd (trace (send_loop os fd s w)) = wire fd (trace w) @ s"
  using assms
proof (induction os fd s w rule: send_loop.induct)
  case (1 os fd rest w)
  show ?case
  proof (cases "rest = []")
    case True
    then show ?thesis by (simp add: send_loop.simps [of os fd rest w])
  next
    case False
    let ?n = "os_send os (trace w) fd rest"
    have n: "sys_send os fd rest w = (?n, emit (EvSend fd rest ?n) w)" and pos: "0 < ?n"
      using "1.prems" [of rest "trace w"] False by (simp_all add: sys_send_def clip_def Let_def)
    have "wire fd (trace (send_loop os fd (drop (nat ?n) rest) (emit (EvSend fd rest ?n) w))) =
      wire fd (trace (emit (EvSend fd rest ?n) w)) @ drop (nat ?n) rest"
      by (rule "1.IH" [OF False n [symmetric] pos]) (rule "1.prems")
    then show ?thesis using False n pos
      by (simp add: send_loop.simps [of os fd rest w])
  qed
qed

text \<open>The bytes of a response as \<open>SendHttpResponse\<close> puts them on the socket.\<close>

definition response_bytes :: "os \<Rightarrow> EndPoint \<Rightarrow> world \<Rightarrow> string" where
  "response_bytes os ep w = (let r = m_http_response ep in
     m_status_line r @ concat (m_response_header r) @ m_res_blank r @
     (if m_cgi (m_http_request ep) then m_response_body r
      else os_sendfile os (trace w) (m_fd r) (int (to_size (m_file_size r)))))"

lemma wire_sends: "wire fd (map (\<lambda>h. EvSend fd h (int (length h))) hs) = concat hs"
  by (induction hs) simp_all

lemma SendHttpResponse_wire:
  assumes "full_send os"
  shows "\<exists>w1. wire (m_sock ep) (trace (SendHttpResponse os ep w)) =
    wire (m_sock ep) (trace w) @ response_bytes os ep w1"
proof -
  let ?r = "m_http_response ep"
  let ?w3 = "snd (sys_send os (m_sock ep) (m_res_blank ?r) (send_lines os (m_sock ep) (m_response_header ?r)
     (snd (sys_send os (m_sock ep) (m_status_line ?r) w))))"
  have w3: "wire (m_sock ep) (trace ?w3) = wire (m_sock ep) (trace w) @ m_status_line ?r @
      concat (m_response_header ?r) @ m_res_blank ?r"
    using assms by (simp add: sys_send_full send_lines_full wire_sends)
  show ?thesis
  proof (cases "m_cgi (m_http_request ep)")
    case True
    then show ?thesis using assms w3
      by (simp add: SendHttpResponse_def Let_def response_bytes_def send_loop_full)
  next
    case False
    then show ?thesis using w3
      by (auto simp: SendHttpResponse_def Let_def response_bytes_def sys_close_def sys_sendfile_def
          intro: exI [of _ ?w3])
  qed
qed

section \<open>What a client can get\<close>

text \<open>The replies the protocol half can produce, whatever it was asked.\<close>

definition reply :: "string \<Rightarrow> bool" where
  "reply s \<longleftrightarrow> (\<exists>code hs body. code \<in> {OK, BAD_REQUEST, NOT_FOUND, SERVER_ERROR} \<and>
     s = status_line_of code @ concat hs @ [CR, LF] @ body \<and>
     list_all error_header hs \<and> (code = OK \<longrightarrow> hs = []))"

lemma built_reply: "built ep \<Longrightarrow> reply (response_bytes os ep w)"
  unfolding reply_def built_def response_bytes_def Let_def by auto

definition recv_event :: "event \<Rightarrow> bool" where
  "recv_event e \<longleftrightarrow> (\<exists>l s. e = EvLog l s)"

lemma recv_line_grows: "RecvHttpRequestLine ep w = (b, ep', w') \<Longrightarrow> grows recv_event w w'"
  by (auto simp: RecvHttpRequestLine_def recv_event_def Let_def intro!: grows_emit
      split: prod.splits if_splits)

lemma recv_header_grows: "RecvHttpRequestHeader ep w = (b, ep', w') \<Longrightarrow> grows recv_event w w'"
  using header_loop_only_stop [of ep w]
  by (auto simp: RecvHttpRequestHeader_def split: if_splits)

lemma parse_url_grows: "ParseURL ep w = Inr (ep', w') \<Longrightarrow> grows recv_event w w'"
  by (auto simp: ParseURL_def recv_event_def Let_def intro!: grows_emit
      split: if_splits sum.splits prod.splits)

lemma RecvHttpRequest_grows:
  assumes "recv_inv ep0 ep" and "RecvHttpRequest ep w = Inr (ep', w')"
  shows "grows recv_event w w'"
  using assms
proof (cases rule: RecvHttpRequest_cases)
  case line
  then show ?thesis by (rule recv_line_grows)
next
  case (header ep1 w1)
  then show ?thesis using recv_line_grows recv_header_grows grows_trans by blast
next
  case (parsed ep1 w1 ep2 w2)
  show ?thesis
    by (rule grows_trans [OF recv_line_grows [OF parsed(1)]
          grows_trans [OF recv_header_grows [OF parsed(2)] parse_url_grows [OF parsed(3)]]])
qed

lemma recv_event_build: "recv_event e \<Longrightarrow> build_event e"
  by (auto simp: recv_event_def)

lemma recv_inv_fresh:
  assumes "recv_inv (new_EndPoint s b fd n) ep" and "m_status_code (m_http_response ep) \<in> {OK, BAD_REQUEST}"
  shows "fresh_response ep"
proof -
  have "m_response_header ((m_http_response ep)\<lparr>m_status_code := 0\<rparr>) =
    m_response_header ((m_http_response (new_EndPoint s b fd n))\<lparr>m_status_code := 0\<rparr>)"
    using assms(1) by (simp add: recv_inv_def)
  then have "m_response_header (m_http_response ep) = []" by (simp add: message_defs)
  with assms(2) show ?thesis by (simp add: fresh_response_def)
qed

text \<open>The receiving half sets the status to 200 or 400 only.\<close>

definition status_ok :: "EndPoint \<Rightarrow> bool" where
  "status_ok ep \<longleftrightarrow> m_status_code (m_http_response ep) \<in> {OK, BAD_REQUEST}"

lemma status_ok_steps:
  "status_ok ep \<Longrightarrow> RecvHttpRequestLine ep w = (b, ep', w') \<Longrightarrow> status_ok ep'"
  "status_ok ep \<Longrightarrow> RecvHttpRequestHeader ep w = (b, ep', w') \<Longrightarrow> status_ok ep'"
  "status_ok ep \<Longrightarrow> status_ok (ParseHttpRequestLine ep)"
  "status_ok ep \<Longrightarrow> ParseURL ep w = Inr (ep', w') \<Longrightarrow> status_ok ep'"
proof -
  show "status_ok ep \<Longrightarrow> RecvHttpRequestHeader ep w = (b, ep', w') \<Longrightarrow> status_ok ep'"
    using header_loop_only_stop [of ep w]
    by (auto simp: RecvHttpRequestHeader_def status_ok_def split: if_splits)
qed (auto simp: RecvHttpRequestLine_def ParseHttpRequestLine_def ParseURL_def status_ok_def Let_def
      split: prod.splits if_splits sum.splits)

lemma RecvHttpRequest_fresh:
  assumes "RecvHttpRequest (new_EndPoint s b fd n) w = Inr (ep, w')"
  shows "fresh_response ep" and "m_sock ep = s"
proof -
  have inv: "recv_inv (new_EndPoint s b fd n) ep"
    by (rule recv_inv_RecvHttpRequest [OF recv_inv_new assms])
  then show "m_sock ep = s" by (simp add: recv_inv_def new_EndPoint_def)
  have 0: "status_ok (new_EndPoint s b fd n)" by (simp add: status_ok_def message_defs)
  have "status_ok ep"
    using recv_inv_new assms
  proof (cases rule: RecvHttpRequest_cases)
    case line
    then show ?thesis using 0 status_ok_steps(1) by blast
  next
    case (header ep1 w1)
    then show ?thesis using 0 status_ok_steps(1,2) by blast
  next
    case (parsed ep1 w1 ep2 w2)
    then have "status_ok (ParseHttpRequestLine ep2)" using 0 status_ok_steps(1-3) by blast
    then show ?thesis using parsed(3) status_ok_steps(4) by blast
  qed
  then show "fresh_response ep" using recv_inv_fresh [OF inv] by (simp add: status_ok_def)
qed

lemma sys_close_wire [simp]: "wire fd (trace (sys_close c w)) = wire fd (trace w)"
  by (simp add: os_calls)

text \<open>
  C7 (safety, every input). Whatever the client sends and whatever the system answers:
  if the handler returns, the connection's socket carries nothing, or exactly one reply: a
  status line with one of the four codes and its text, header lines that are only the two
  of an error page, the empty line, and the body. A reply with status 200 has no header
  line at all, since the headers of the success case are built in a dropped copy.
\<close>

theorem HandlerRequest_reply:
  assumes "full_send os" and "HandlerRequest os stop0 fd0 size0 sock w = Inr w'"
  shows "wire sock (trace w') = wire sock (trace w) \<or>
    (\<exists>s. wire sock (trace w') = wire sock (trace w) @ s \<and> reply s)"
proof -
  obtain ep w1 where 1: "RecvHttpRequest (new_EndPoint sock stop0 fd0 size0) w = Inr (ep, w1)"
    using assms(2) by (auto simp: HandlerRequest_def split: sum.splits)
  have wire1: "wire sock (trace w1) = wire sock (trace w)"
    using RecvHttpRequest_grows [OF recv_inv_new 1] recv_event_build grows_mono grows_build_wire by blast
  show ?thesis
  proof (cases "m_stop ep")
    case True
    then have "w' = sys_close sock w1" using assms(2) 1 by (simp add: HandlerRequest_def)
    with wire1 show ?thesis by simp
  next
    case False
    obtain ep2 w2 where 2: "BuildHttpResponse os ep w1 = Inr (ep2, w2)"
      using assms(2) 1 False by (auto simp: HandlerRequest_def split: sum.splits)
    have w': "w' = sys_close sock (SendHttpResponse os ep2 w2)"
      using assms(2) 1 2 False by (simp add: HandlerRequest_def)
    have b: "built ep2" "m_sock ep2 = sock" "grows build_event w1 w2"
      using BuildHttpResponse_props [OF 2] RecvHttpRequest_fresh [OF 1] by auto
    obtain w3 where "wire sock (trace (SendHttpResponse os ep2 w2)) =
        wire sock (trace w2) @ response_bytes os ep2 w3"
      using SendHttpResponse_wire [OF assms(1)] b(2) by blast
    then show ?thesis
      using w' wire1 grows_build_wire [OF b(3)] built_reply [OF b(1)] by auto
  qed
qed

section \<open>Complete runs\<close>

lemma reply_line: "HTTP_VERSION @ '' '' @ show_int c @ '' '' @ CodeAnaly c @ LINE_END = status_line_of c"
  by (simp add: status_line_of_def HTTP_VERSION_def LINE_END_def)

lemma resource_path_nonul: "CHR 0x00 \<notin> set p \<Longrightarrow> c_str (resource_path p) = resource_path p"
  by (rule c_str_id) (auto simp: resource_path_def WWW_ROOT_def HOME_PAGE_def Let_def)

lemma BuildResponseHelper_200:
  "m_status_code (m_http_response ep) = 200 \<Longrightarrow> BuildResponseHelper os ep w =
    (on_response (\<lambda>r. r\<lparr>m_status_line := status_line_of 200, m_res_blank := [CR, LF]\<rparr>) ep, w)"
  unfolding BuildResponseHelper_def Let_def reply_line unfolding LINE_END_def
  by (simp add: Build200header_def Let_def)

text \<open>A plain file, and a system on which it can be opened again and again.\<close>

definition plain_file :: "os \<Rightarrow> string \<Rightarrow> stat \<Rightarrow> bool" where
  "plain_file os p st \<longleftrightarrow> \<not> S_ISDIR (st_mode st) \<and> \<not> executable (st_mode st) \<and>
     (\<forall>h. os_stat os h p = Some st) \<and> (\<forall>h. 0 < os_open os h p)"

lemma BuildHttpResponse_file:
  assumes pf: "plain_file os (c_str p) st" and p: "p = resource_path (m_path (m_http_request ep))"
    and ep: "m_status_code (m_http_response ep) = OK" "\<not> m_cgi (m_http_request ep)"
  shows "\<exists>f1 f2. BuildHttpResponse os ep w = Inr
     (\<lparr>m_sock = m_sock ep, m_http_request = (m_http_request ep)\<lparr>m_path := p\<rparr>,
       m_http_response = (m_http_response ep)\<lparr>m_status_line := status_line_of 200,
         m_res_blank := [CR, LF], m_fd := f2, m_file_size := to_int (st_size st),
         m_suffix := path_suffix p, m_status_code := 200\<rparr>,
       m_stop = m_stop ep\<rparr>,
      w\<lparr>trace := trace w @ [EvOut (''path:'' @ p @ [LF]), EvStat (c_str p),
         EvOut (''not cgi begining'' @ [LF]), EvOpen (c_str p) f1, EvOpen (c_str p) f2]\<rparr>) \<and> 0 < f1 \<and> 0 < f2 \<and>
     f1 = os_open os (trace w @ [EvOut (''path:'' @ p @ [LF]), EvStat (c_str p), EvOut (''not cgi begining'' @ [LF])]) (c_str p) \<and>
     f2 = os_open os (trace w @ [EvOut (''path:'' @ p @ [LF]), EvStat (c_str p), EvOut (''not cgi begining'' @ [LF]),
       EvOpen (c_str p) f1]) (c_str p)"
proof -
  let ?h = "trace w @ [EvOut (''path:'' @ p @ [LF]), EvStat (c_str p), EvOut (''not cgi begining'' @ [LF])]"
  let ?f1 = "os_open os ?h (c_str p)"
  let ?f2 = "os_open os (?h @ [EvOpen (c_str p) ?f1]) (c_str p)"
  show ?thesis
    by (rule exI [of _ ?f1], rule exI [of _ ?f2], cases ep) (use assms in
      \<open>simp add: BuildHttpResponse_def os_calls plain_file_def locate_resource_def serve_resource_def
        NotCgiProcess_eq BuildResponseHelper_200 setFileSize_def Let_def emit_def status_codes\<close>)
qed

lemma static_file_trace:
  assumes ok: "request_ok m u v hs" and get: "map toupper m = ''GET''"
    and inp: "sock_in w = map RByte (request_line m u v) @ RByte CR # RByte LF # header_block hs @ i"
    and nul: "CHR 0x00 \<notin> set u" and p: "p = resource_path (fst (query_split u))"
    and pf: "plain_file os p st" and send: "full_send os"
  shows "\<exists>f1 f2 body. 0 < f1 \<and> 0 < f2 \<and>
    HandlerRequest os False fd0 size0 sock w = Inr (w\<lparr>sock_in := i, trace := trace w @
      [EvLog INFO (request_line m u v), EvOut (''path:'' @ p @ [LF]), EvStat p,
       EvOut (''not cgi begining'' @ [LF]), EvOpen p f1, EvOpen p f2,
       EvSend sock (status_line_of 200) (int (length (status_line_of 200))),
       EvSend sock [CR, LF] 2, EvSendfile sock f2 (int (to_size (to_int (st_size st)))) body, EvClose f2,
       EvLog INFO ''SendHttpRespone'', EvClose sock]\<rparr>) \<and>
    f1 = os_open os (trace w @ [EvLog INFO (request_line m u v), EvOut (''path:'' @ p @ [LF]), EvStat p,
       EvOut (''not cgi begining'' @ [LF])]) p \<and>
    f2 = os_open os (trace w @ [EvLog INFO (request_line m u v), EvOut (''path:'' @ p @ [LF]), EvStat p,
       EvOut (''not cgi begining'' @ [LF]), EvOpen p f1]) p \<and>
    body = os_sendfile os (trace w @ [EvLog INFO (request_line m u v), EvOut (''path:'' @ p @ [LF]), EvStat p,
       EvOut (''not cgi begining'' @ [LF]), EvOpen p f1, EvOpen p f2,
       EvSend sock (status_line_of 200) (int (length (status_line_of 200))), EvSend sock [CR, LF] 2])
       f2 (int (to_size (to_int (st_size st))))"
proof -
  let ?ep = "\<lparr>m_sock = sock, m_http_request = parsed_request m u v,
    m_http_response = (new_HttpResponse fd0 size0)\<lparr>m_status_code := parsed_status m\<rparr>, m_stop = False\<rparr>"
  let ?w1 = "w\<lparr>sock_in := i, trace := trace w @ parse_events m u v\<rparr>"
  have recv: "RecvHttpRequest (new_EndPoint sock False fd0 size0) w = Inr (?ep, ?w1)"
    by (rule RecvHttpRequest_parses [OF ok inp])
  have path: "m_path (m_http_request ?ep) = fst (query_split u)"
    using get by (simp add: parsed_request_def Let_def)
  have "set (fst (query_split u)) \<subseteq> set u"
    by (auto simp: query_split_def cut_of_def split: option.splits dest: in_set_takeD)
  with nul have cp: "c_str p = p" using p resource_path_nonul by blast
  obtain f1 f2 ep2 w2 where b: "BuildHttpResponse os ?ep ?w1 = Inr (ep2, w2)" "0 < f1" "0 < f2"
    "ep2 = \<lparr>m_sock = sock, m_http_request = (parsed_request m u v)\<lparr>m_path := p\<rparr>,
       m_http_response = (m_http_response ?ep)\<lparr>m_status_line := status_line_of 200,
         m_res_blank := [CR, LF], m_fd := f2, m_file_size := to_int (st_size st),
         m_suffix := path_suffix p, m_status_code := 200\<rparr>, m_stop = False\<rparr>"
    "w2 = ?w1\<lparr>trace := trace ?w1 @ [EvOut (''path:'' @ p @ [LF]), EvStat p,
         EvOut (''not cgi begining'' @ [LF]), EvOpen p f1, EvOpen p f2]\<rparr>"
    "f1 = os_open os (trace ?w1 @ [EvOut (''path:'' @ p @ [LF]), EvStat p, EvOut (''not cgi begining'' @ [LF])]) p"
    "f2 = os_open os (trace ?w1 @ [EvOut (''path:'' @ p @ [LF]), EvStat p, EvOut (''not cgi begining'' @ [LF]),
       EvOpen p f1]) p"
    using BuildHttpResponse_file [of os p st ?ep ?w1] pf path p cp get
    by (auto simp: parsed_request_def parsed_status_def new_HttpRequest_def status_codes Let_def)
  have cgi: "\<not> m_cgi (m_http_request ep2)" and sock: "m_sock ep2 = sock"
    and r: "m_response_header (m_http_response ep2) = []"
      "m_status_line (m_http_response ep2) = status_line_of 200"
      "m_res_blank (m_http_response ep2) = [CR, LF]" "m_fd (m_http_response ep2) = f2"
      "m_file_size (m_http_response ep2) = to_int (st_size st)"
    using b(4) get by (simp_all add: parsed_request_def message_defs Let_def)
  have "HandlerRequest os False fd0 size0 sock w = Inr (sys_close sock (SendHttpResponse os ep2 w2))"
    using recv b(1) by (simp add: HandlerRequest_def)
  also have "\<dots> = Inr (w\<lparr>sock_in := i, trace := trace w @
      [EvLog INFO (request_line m u v), EvOut (''path:'' @ p @ [LF]), EvStat p,
       EvOut (''not cgi begining'' @ [LF]), EvOpen p f1, EvOpen p f2,
       EvSend sock (status_line_of 200) (int (length (status_line_of 200))),
       EvSend sock [CR, LF] 2,
       EvSendfile sock f2 (int (to_size (to_int (st_size st)))) (os_sendfile os (trace w2 @
         [EvSend sock (status_line_of 200) (int (length (status_line_of 200))), EvSend sock [CR, LF] 2])
         f2 (int (to_size (to_int (st_size st))))),
       EvClose f2, EvLog INFO ''SendHttpRespone'', EvClose sock]\<rparr>)"
    using b(5) get
    by (simp add: SendHttpResponse_def Let_def cgi sock r sys_send_full [OF send] sys_close_def
        sys_sendfile_def emit_def parse_events_def)
  finally show ?thesis
    using b(2,3,5-7) get by (intro exI conjI) (simp_all add: parse_events_def)
qed

lemma static_file_run:
  assumes ok: "request_ok m u v hs" and get: "map toupper m = ''GET''"
    and inp: "sock_in w = map RByte (request_line m u v) @ RByte CR # RByte LF # header_block hs @ i"
    and nul: "CHR 0x00 \<notin> set u" and p: "p = resource_path (fst (query_split u))"
    and pf: "plain_file os p st" and send: "full_send os"
  shows "\<exists>f1 f2 body. 0 < f1 \<and> 0 < f2 \<and>
    HandlerRequest os False fd0 size0 sock w = Inr (w\<lparr>sock_in := i, trace := trace w @
      [EvLog INFO (request_line m u v), EvOut (''path:'' @ p @ [LF]), EvStat p,
       EvOut (''not cgi begining'' @ [LF]), EvOpen p f1, EvOpen p f2,
       EvSend sock (status_line_of 200) (int (length (status_line_of 200))),
       EvSend sock [CR, LF] 2, EvSendfile sock f2 (int (to_size (to_int (st_size st)))) body, EvClose f2,
       EvLog INFO ''SendHttpRespone'', EvClose sock]\<rparr>)"
  using static_file_trace [OF assms, of fd0 size0 sock] by blast

text \<open>
  C8 (functional, a static page end to end). A well-formed GET for a plain file, on a
  system that sends everything: the complete sequence of events. The reply is the status
  line, the empty line and the file, with no header; the file is opened twice and closed
  once, so the descriptor \<open>f1\<close> is leaked; the socket is closed at the end although the
  client speaks HTTP/1.1.
\<close>

theorem HandlerRequest_static_file:
  assumes "request_ok m u v hs" and "map toupper m = ''GET''"
    and "sock_in w = map RByte (request_line m u v) @ RByte CR # RByte LF # header_block hs @ i"
    and "CHR 0x00 \<notin> set u" and "p = resource_path (fst (query_split u))"
    and "plain_file os p st" and "full_send os" and "0 \<le> st_size st" "st_size st < 2 ^ 31"
  shows "\<exists>f1 f2 body. 0 < f1 \<and> 0 < f2 \<and>
    HandlerRequest os False fd0 size0 sock w = Inr (w\<lparr>sock_in := i, trace := trace w @
      [EvLog INFO (request_line m u v), EvOut (''path:'' @ p @ [LF]), EvStat p,
       EvOut (''not cgi begining'' @ [LF]), EvOpen p f1, EvOpen p f2,
       EvSend sock (status_line_of 200) (int (length (status_line_of 200))),
       EvSend sock [CR, LF] 2, EvSendfile sock f2 (st_size st) body, EvClose f2,
       EvLog INFO ''SendHttpRespone'', EvClose sock]\<rparr>)"
  using static_file_run [OF assms(1-7), of fd0 size0 sock] assms(8,9)
  by (simp add: to_int_id to_size_nonneg)

text \<open>
  The file size goes through the \<open>int\<close> member \<open>m_file_size\<close>: of a file of
  \<open>k * 2 ^ 32 + n\<close> bytes only \<open>n\<close> are asked to be sent (when \<open>n < 2 ^ 31\<close>).
\<close>

theorem HandlerRequest_large_file:
  assumes "request_ok m u v hs" and "map toupper m = ''GET''"
    and "sock_in w = map RByte (request_line m u v) @ RByte CR # RByte LF # header_block hs @ i"
    and "CHR 0x00 \<notin> set u" and "p = resource_path (fst (query_split u))"
    and "plain_file os p st" and "full_send os"
    and "st_size st = k * 2 ^ 32 + int n" and "n < 2 ^ 31"
  shows "\<exists>w' f2 body. HandlerRequest os False fd0 size0 sock w = Inr w' \<and>
    EvSendfile sock f2 (int n) body \<in> set (trace w')"
proof -
  have "to_int (st_size st) = int n"
    using to_int_cong [of "int n" k] assms(8,9) by (simp add: add.commute)
  then have "int (to_size (to_int (st_size st))) = int n" using assms(9) by simp
  with static_file_run [OF assms(1-7), of fd0 size0 sock] obtain w' f2 body where
    "HandlerRequest os False fd0 size0 sock w = Inr w'" "EvSendfile sock f2 (int n) body \<in> set (trace w')"
    by fastforce
  then show ?thesis by blast
qed

lemma grows_in_trace: "grows P w w' \<Longrightarrow> e \<in> set (trace w) \<Longrightarrow> e \<in> set (trace w')"
  by (auto simp: grows_def)

text \<open>With \<open>SIGCHLD\<close> ignored, \<open>waitpid\<close> has nothing to report (POSIX: \<open>ECHILD\<close>).\<close>

definition sigchld_law :: "os \<Rightarrow> bool" where
  "sigchld_law os \<longleftrightarrow> (\<forall>h pid. EvSignal ''SIGCHLD'' \<in> set h \<longrightarrow> os_waitpid os h pid = -1)"

lemma cgi_parent_code:
  assumes law: "sigchld_law os" and sig: "EvSignal ''SIGCHLD'' \<in> set (trace w)" and pid: "0 < pid"
    and run: "cgi_parent os ep pid pin pout w = Inr (code, ep', w')"
    and root: "prefix WWW_ROOT (m_path (m_http_request ep))"
  shows "code = OK"
  using run
proof (rule cgi_parent_cases)
  fix env prog w1 inp w3 out status ret
  assume c: "cgi_child os (m_http_request ep) w = ((env, prog), w1)"
    and l: "(if m_method (m_http_request ep) = ''POST''
        then cgi_write_loop os (snd pin) (m_request_body (m_http_request ep))
               (sys_close (snd pout) (sys_close (fst pin) w1))
        else ([], sys_close (snd pout) (sys_close (fst pin) w1))) = (inp, w3)"
    and ret: "ret = os_waitpid os
       (trace w3 @ [EvOut (''body:'' @ m_response_body (m_http_response ep) @ out @ [LF])]) pid"
    and code: "code = cgi_code ret pid status"
  let ?w2 = "sys_close (snd pout) (sys_close (fst pin) w1)"
  have "EvSignal ''SIGCHLD'' \<in> set (trace ?w2)"
    using grows_in_trace [OF grows_cgi_child [OF root c] sig] by (simp add: os_calls)
  moreover have "grows build_event ?w2 w3" using l grows_write_loop by (auto split: if_splits)
  ultimately have "EvSignal ''SIGCHLD'' \<in> set (trace w3)" by (rule grows_in_trace [rotated])
  then have "ret = -1" using law ret by (simp add: sigchld_law_def)
  then show "code = OK" using code pid by (simp add: cgi_code_def)
qed

text \<open>
  C40 (error). The server ignores \<open>SIGCHLD\<close>, so the kernel reaps the children itself and
  \<open>waitpid\<close> never answers the child's pid: a CGI program that was started counts as
  successful, whether it exits with an error, crashes or could not be executed at all.
  The only failures \<open>CgiProcess\<close> reports are those before the child runs.
\<close>

theorem CgiProcess_ignores_child_status:
  assumes "sigchld_law os" and "EvSignal ''SIGCHLD'' \<in> set (trace w)"
    and "prefix WWW_ROOT (m_path (m_http_request ep))"
    and "CgiProcess os ep w = Inr (code, ep', w')"
  shows "code = OK \<or>
    (\<exists>es. trace w' = trace w @ es \<and> (\<forall>p env. EvExec p env \<notin> set es) \<and> ep' = ep)"
  using assms(4)
proof (cases rule: CgiProcess_cases)
  case (ran pin pout pid w3)
  then show ?thesis using cgi_parent_code [OF assms(1) _ ran(1) ran(3) assms(3)] assms(2) by simp
qed auto

definition neutral :: "event \<Rightarrow> bool" where
  "neutral e \<longleftrightarrow> opened e = [] \<and> closed e = []"

lemma neutral_lists: "list_all neutral es \<Longrightarrow> opened_in es = [] \<and> closed_in es = []"
  by (induction es) (auto simp: neutral_def)

lemma neutral_write_loop: "cgi_write_loop os fd s w = (out, w') \<Longrightarrow> grows neutral w w'"
  by (rule grows_mono [OF write_loop_grows]) (auto simp: write_event_def neutral_def)

lemma neutral_cgi_child: "cgi_child os q w = (p, w') \<Longrightarrow> grows neutral w w'"
  by (auto simp: cgi_child_def neutral_def Let_def intro!: grows_emit split: if_splits)

lemma cgi_parent_descriptors:
  assumes "cgi_parent os ep pid pin pout w = Inr (code, ep', w')"
  shows "\<exists>es. trace w' = trace w @ es \<and> opened_in es = [] \<and>
    closed_in es = [fst pin, snd pout, fst pout, snd pin]"
  using assms
proof (rule cgi_parent_cases)
  fix env prog w1 inp w3 out status ret
  assume c: "cgi_child os (m_http_request ep) w = ((env, prog), w1)"
    and l: "(if m_method (m_http_request ep) = ''POST''
        then cgi_write_loop os (snd pin) (m_request_body (m_http_request ep))
               (sys_close (snd pout) (sys_close (fst pin) w1))
        else ([], sys_close (snd pout) (sys_close (fst pin) w1))) = (inp, w3)"
    and t: "trace w' = trace w3 @
       [EvOut (''body:'' @ m_response_body (m_http_response ep) @ out @ [LF]), EvWaitpid pid ret,
        EvOut (''code'' @ show_int code @ [LF]), EvClose (fst pout), EvClose (snd pin)]"
  obtain es1 where 1: "trace w1 = trace w @ es1" "list_all neutral es1"
    using neutral_cgi_child [OF c] by (auto simp: grows_def)
  have "grows neutral (sys_close (snd pout) (sys_close (fst pin) w1)) w3"
    using l neutral_write_loop by (auto split: if_splits)
  then obtain es2 where 2: "trace w3 = trace w @ es1 @ [EvClose (fst pin), EvClose (snd pout)] @ es2"
    "list_all neutral es2" using 1 by (auto simp: grows_def os_calls)
  show ?thesis
    by (rule exI, rule conjI, subst t, subst 2(1), unfold append_assoc, rule refl)
       (use neutral_lists [OF 1(2)] neutral_lists [OF 2(2)] in simp)
qed

text \<open>
  C38 (resource safety). When a child was started and the parent returns, every pipe end
  the call opened is closed in it exactly once; when a pipe or the fork fails, the ends
  that were already open stay open.
\<close>

theorem CgiProcess_descriptors:
  assumes "CgiProcess os ep w = Inr (code, ep', w')"
  shows "\<exists>es. trace w' = trace w @ es \<and>
    (if \<exists>pid. 0 < pid \<and> EvFork pid \<in> set es
     then mset (closed_in es) = mset (opened_in es) \<and> length (opened_in es) = 4
     else closed_in es = [] \<and> length (opened_in es) \<in> {0, 2, 4})"
  using assms
proof (cases rule: CgiProcess_cases)
  case (no_pipe es)
  then show ?thesis by auto
next
  case (no_fork p1 p2 pid)
  then show ?thesis by (cases p1; cases p2) auto
next
  case (ran pin pout pid w3)
  obtain es where es: "trace w' = trace w3 @ es" "opened_in es = []"
    "closed_in es = [fst pin, snd pout, fst pout, snd pin]"
    using cgi_parent_descriptors [OF ran(3)] by blast
  let ?es = "[EvPipe (Some pin), EvPipe (Some pout), EvFork pid] @ es"
  have "mset (closed_in ?es) = mset (opened_in ?es) \<and> length (opened_in ?es) = 4"
    using es by (cases pin; cases pout) auto
  moreover have "trace w' = trace w @ ?es" using es(1) ran(2) by simp
  ultimately show ?thesis using ran(1) by (intro exI [of _ ?es]) auto
qed

section \<open>Missing files and error pages\<close>

fun opens :: "event list \<Rightarrow> (string \<times> int) list" where
  "opens [] = []"
| "opens (EvOpen p r # es) = (p, r) # opens es"
| "opens (_ # es) = opens es"

lemma opens_append [simp]: "opens (xs @ ys) = opens xs @ opens ys"
  by (induction xs rule: opens.induct) auto

lemma BuildErrorHeader_trace:
  assumes "BuildErrorHeader os path ep w = (ep', w')" and "c_str path = path"
  shows "\<exists>es. trace w' = trace w @ es \<and> opens es = [(path, m_fd (m_http_response ep'))] \<and> closed_in es = []"
  using assms
  by (auto simp: BuildErrorHeader_def os_calls Let_def addToResponseHeader_def
      setFileSize_def split: if_splits option.splits)

lemma c_str_pages [simp]: "c_str PAGE_404 = PAGE_404" "c_str PAGE_400 = PAGE_400" "c_str PAGE_500 = PAGE_500"
  by (simp_all add: c_str_def PAGE_404_def PAGE_400_def PAGE_500_def)

lemma BuildResponseHelper_404:
  assumes "m_status_code (m_http_response ep) = 404" and "BuildResponseHelper os ep w = (ep', w')"
  shows "\<exists>es f404 f500. trace w' = trace w @ es \<and> opens es = [(PAGE_404, f404), (PAGE_500, f500)] \<and>
    closed_in es = [] \<and> m_fd (m_http_response ep') = f500 \<and> m_status_code (m_http_response ep') = 404"
proof -
  let ?ep1 = "on_response (\<lambda>r. r\<lparr>m_status_line := status_line_of 404, m_res_blank := [CR, LF]\<rparr>) ep"
  obtain ep2 w2 where 2: "BuildErrorHeader os PAGE_404 ?ep1 w = (ep2, w2)" by fastforce
  have 3: "BuildErrorHeader os PAGE_500 ep2 w2 = (ep', w')"
    using assms 2 unfolding BuildResponseHelper_def Let_def reply_line unfolding LINE_END_def by simp
  obtain es1 where e1: "trace w2 = trace w @ es1" "closed_in es1 = []"
    "opens es1 = [(PAGE_404, m_fd (m_http_response ep2))]"
    using BuildErrorHeader_trace [OF 2] by auto
  obtain es2 where e2: "trace w' = trace w2 @ es2" "closed_in es2 = []"
    "opens es2 = [(PAGE_500, m_fd (m_http_response ep'))]"
    using BuildErrorHeader_trace [OF 3] by auto
  have "m_status_code (m_http_response ep') = 404"
    using BuildErrorHeader_props(1) [OF 2] BuildErrorHeader_props(1) [OF 3] assms(1)
    by (simp add: same_but_response_def)
  then show ?thesis using e1 e2 by (intro exI [of _ "es1 @ es2"]) auto
qed

text \<open>
  A target that does not exist gets status 404, but the missing \<open>break\<close> makes
  the server open the 404 page and then the 500 page: the descriptor it will send from is
  the one of the 500 page, and the one of the 404 page is dropped without being closed.
\<close>

theorem BuildHttpResponse_missing_file:
  assumes "m_status_code (m_http_response ep) = OK"
    and "\<And>h. os_stat os h (c_str (resource_path (m_path (m_http_request ep)))) = None"
  shows "\<exists>ep' w' es f404 f500. BuildHttpResponse os ep w = Inr (ep', w') \<and> trace w' = trace w @ es \<and>
    m_status_code (m_http_response ep') = NOT_FOUND \<and>
    opens es = [(PAGE_404, f404), (PAGE_500, f500)] \<and> closed_in es = [] \<and>
    m_fd (m_http_response ep') = f500"
proof -
  let ?p = "resource_path (m_path (m_http_request ep))"
  let ?ep1 = "on_response (m_status_code_update (\<lambda>_. NOT_FOUND)) (on_request (m_path_update (\<lambda>_. ?p)) ep)"
  let ?es = "[EvOut (''path:'' @ ?p @ [LF]), EvStat (c_str ?p), EvOut (missing_msg @ m_path (m_http_request ep) @ [LF])]"
  let ?w1 = "w\<lparr>trace := trace w @ ?es\<rparr>"
  obtain ep' w' where r: "BuildResponseHelper os ?ep1 ?w1 = (ep', w')" by fastforce
  have "BuildHttpResponse os ep w = Inr (ep', w')"
    using assms r by (simp add: BuildHttpResponse_def os_calls Let_def emit_def status_codes)
  moreover obtain es f404 f500 where "trace w' = trace ?w1 @ es"
    "opens es = [(PAGE_404, f404), (PAGE_500, f500)]" "closed_in es = []"
    "m_fd (m_http_response ep') = f500" "m_status_code (m_http_response ep') = 404"
    using BuildResponseHelper_404 [OF _ r] by (auto simp: status_codes)
  ultimately show ?thesis
    by (intro exI [of _ ep'] exI [of _ w'] exI [of _ "?es @ es"]) (auto simp: status_codes)
qed

section \<open>CGI replies\<close>

text \<open>
  A system that can start programs: the file is no directory, pipes and processes are
  there, \<open>x\<close> is what \<open>execl\<close> finds at the path, and the storage of the destroyed
  environment strings is not reused before \<open>execl\<close>.
\<close>

definition cgi_ready :: "os \<Rightarrow> string \<Rightarrow> stat \<Rightarrow> cgi_program option \<Rightarrow> bool" where
  "cgi_ready os p st x \<longleftrightarrow> \<not> S_ISDIR (st_mode st) \<and>
     (\<forall>h. os_stat os h p = Some st \<and> (\<exists>a. os_pipe os h = Some a) \<and> 0 < os_fork os h \<and>
        os_exec os h p = x \<and> (\<forall>s. os_freed os h s = s))"

definition can_run :: "os \<Rightarrow> string \<Rightarrow> cgi_program option \<Rightarrow> bool" where
  "can_run os p x \<longleftrightarrow> (\<forall>h. (\<exists>a. os_pipe os h = Some a) \<and> 0 < os_fork os h \<and> os_exec os h p = x \<and>
     (\<forall>s. os_freed os h s = s))"

lemma cgi_ready_can_run: "cgi_ready os p st x \<Longrightarrow> can_run os p x"
  by (simp add: cgi_ready_def can_run_def)

text \<open>The environment the program is meant to see.\<close>

definition plain_env :: "string \<Rightarrow> string \<Rightarrow> string list" where
  "plain_env method parameter =
     (if method = ''GET'' then [''METHOD=GET'', ''PARAMETER='' @ parameter]
      else [''METHOD=POST'', ''Content-Length=0''])"

definition cgi_request :: "HttpRequest \<Rightarrow> bool" where
  "cgi_request q \<longleftrightarrow> m_method q \<in> {''GET'', ''POST''} \<and> CHR 0x00 \<notin> set (m_parameter q) \<and>
     m_request_body q = [] \<and> m_content_length q = 0 \<and> prefix WWW_ROOT (m_path q)"

lemma cgi_env_plain:
  assumes "\<forall>s. os_freed os h s = s" and "cgi_request q"
  shows "cgi_env os h q = plain_env (m_method q) (m_parameter q)"
proof -
  have "c_str (''METHOD='' @ ''GET'') = ''METHOD=GET''" "c_str (''METHOD='' @ ''POST'') = ''METHOD=POST''"
    "c_str (''PARAMETER='' @ m_parameter q) = ''PARAMETER='' @ m_parameter q"
    by (subst c_str_id; use assms(2) in \<open>simp add: cgi_request_def\<close>)+
  then show ?thesis using assms
    by (auto simp: cgi_env_def plain_env_def cgi_request_def show_nat.simps [of 0])
qed

lemma cgi_write_loop_Nil: "cgi_write_loop os fd [] w = ([], snd (sys_write os fd [] w))"
  using clip_le [of "os_write os (trace w) fd []" "[]"]
  by (simp add: cgi_write_loop.simps [of os fd "[]"] sys_write_def Let_def)

text \<open>Both processes started: the parent with an empty standard input for the child.\<close>

lemma CgiProcess_starts:
  assumes ready: "can_run os (c_str (m_path (m_http_request ep))) x" and req: "cgi_request (m_http_request ep)"
  obtains pid pin pout w3 w1 w4 where "0 < pid" "CgiProcess os ep w = cgi_parent os ep pid pin pout w3"
    "trace w3 = trace w @ [EvPipe (Some pin), EvPipe (Some pout), EvFork pid]"
    "cgi_child os (m_http_request ep) w3 =
      ((plain_env (m_method (m_http_request ep)) (m_parameter (m_http_request ep)), program_of x), w1)"
    "(if m_method (m_http_request ep) = ''POST''
      then cgi_write_loop os (snd pin) (m_request_body (m_http_request ep)) (sys_close (snd pout) (sys_close (fst pin) w1))
      else ([], sys_close (snd pout) (sys_close (fst pin) w1))) = ([], w4)"
proof -
  let ?q = "m_http_request ep"
  have env: "cgi_env os h ?q = plain_env (m_method ?q) (m_parameter ?q)"
    and exec: "os_exec os h (c_str (m_path ?q)) = x" for h
    using cgi_env_plain [OF _ req] ready by (simp_all add: can_run_def)
  obtain pin pout where pipes: "os_pipe os (trace w) = Some pin"
    "os_pipe os (trace w @ [EvPipe (Some pin)]) = Some pout"
    using ready by (meson can_run_def)
  let ?w2 = "w\<lparr>trace := trace w @ [EvPipe (Some pin), EvPipe (Some pout)]\<rparr>"
  let ?pid = "os_fork os (trace ?w2)"
  let ?w3 = "emit (EvFork ?pid) ?w2"
  have pid: "0 < ?pid" using ready by (simp add: can_run_def)
  have eq: "CgiProcess os ep w = cgi_parent os ep ?pid pin pout ?w3"
    using pipes pid by (simp add: CgiProcess_def os_calls Let_def emit_def)
  obtain w1 where child: "cgi_child os ?q ?w3 = ((plain_env (m_method ?q) (m_parameter ?q), program_of x), w1)"
    by (auto simp: cgi_child_def Let_def env exec)
  have "\<exists>w4. (if m_method ?q = ''POST'' then cgi_write_loop os (snd pin) (m_request_body ?q) u
      else ([], u)) = ([], w4)" for u
    using req by (simp add: cgi_request_def cgi_write_loop_Nil)
  then obtain w4 where w4: "(if m_method ?q = ''POST''
      then cgi_write_loop os (snd pin) (m_request_body ?q) (sys_close (snd pout) (sys_close (fst pin) w1))
      else ([], sys_close (snd pout) (sys_close (fst pin) w1))) = ([], w4)"
    by blast
  show thesis by (rule that [OF pid eq _ child w4]) simp
qed

lemma CgiProcess_runs:
  assumes ready: "can_run os (c_str (m_path (m_http_request ep))) x"
    and req: "cgi_request (m_http_request ep)"
    and prog: "program_of x (plain_env (m_method (m_http_request ep)) (m_parameter (m_http_request ep))) False [] =
      Some (out, status)"
    and law: "sigchld_law os" "EvSignal ''SIGCHLD'' \<in> set (trace w)"
  shows "\<exists>w'. CgiProcess os ep w =
      Inr (OK, on_response (\<lambda>r. r\<lparr>m_response_body := m_response_body r @ out\<rparr>) ep, w') \<and>
    grows build_event w w'"
proof -
  have root: "prefix WWW_ROOT (m_path (m_http_request ep))" using req by (simp add: cgi_request_def)
  obtain pid pin pout w3 w1 w4 where pid: "0 < pid"
    and eq: "CgiProcess os ep w = cgi_parent os ep pid pin pout w3"
    and w3: "trace w3 = trace w @ [EvPipe (Some pin), EvPipe (Some pout), EvFork pid]"
    and child: "cgi_child os (m_http_request ep) w3 =
      ((plain_env (m_method (m_http_request ep)) (m_parameter (m_http_request ep)), program_of x), w1)"
    and w4: "(if m_method (m_http_request ep) = ''POST''
      then cgi_write_loop os (snd pin) (m_request_body (m_http_request ep)) (sys_close (snd pout) (sys_close (fst pin) w1))
      else ([], sys_close (snd pout) (sys_close (fst pin) w1))) = ([], w4)"
    using CgiProcess_starts [OF ready req] by metis
  obtain code ep' w' where run: "cgi_parent os ep pid pin pout w3 = Inr (code, ep', w')"
    unfolding cgi_parent_run Let_def child prod.case fst_conv snd_conv w4 prog option.case
    by (simp add: os_calls Let_def)
  have "code = OK"
    by (rule cgi_parent_code [OF law(1) _ pid run root]) (use law(2) w3 in simp)
  moreover from run have "ep' = on_response (\<lambda>r. r\<lparr>m_response_body := m_response_body r @ out\<rparr>) ep"
    by (rule cgi_parent_cases) (use child prog w4 in auto)
  ultimately show ?thesis
    using eq run CgiProcess_grows [of os ep w code ep' w'] root by auto
qed

lemma CgiProcess_blocks:
  assumes ready: "can_run os (c_str (m_path (m_http_request ep))) x"
    and req: "cgi_request (m_http_request ep)"
    and prog: "program_of x (plain_env (m_method (m_http_request ep)) (m_parameter (m_http_request ep))) False [] = None"
  shows "CgiProcess os ep w = Inl Blocked_forever"
  using ready req
proof (rule CgiProcess_starts [where w = w])
  fix pid pin pout w3 w1 w4
  assume eq: "CgiProcess os ep w = cgi_parent os ep pid pin pout w3"
    and child: "cgi_child os (m_http_request ep) w3 =
      ((plain_env (m_method (m_http_request ep)) (m_parameter (m_http_request ep)), program_of x), w1)"
    and w4: "(if m_method (m_http_request ep) = ''POST''
      then cgi_write_loop os (snd pin) (m_request_body (m_http_request ep)) (sys_close (snd pout) (sys_close (fst pin) w1))
      else ([], sys_close (snd pout) (sys_close (fst pin) w1))) = ([], w4)"
  show ?thesis
    unfolding eq cgi_parent_run Let_def child prod.case fst_conv snd_conv w4 prog option.case ..
qed

lemma serve_resource_cgi:
  assumes "m_cgi (m_http_request ep)"
    and "CgiProcess os (on_response (\<lambda>r. r\<lparr>m_file_size := to_int (st_size st),
        m_suffix := path_suffix (m_path (m_http_request ep))\<rparr>) ep)
      (emit (EvOut (''cgi begin...'' @ [LF])) w) = Inr (c, ep3, w3)"
    and "CgiProcess os ep3 w3 = Inr (c', ep4, w4)"
  shows "serve_resource os st ep w =
    Inr (BuildResponseHelper os (on_response (m_status_code_update (\<lambda>_. c')) ep4) w4)"
  using assms by (simp add: serve_resource_def setFileSize_def Let_def)

text \<open>With a program that ends, both runs of it add its output to the body.\<close>

lemma serve_resource_runs:
  assumes cgi: "m_cgi (m_http_request ep)"
    and ready: "can_run os (c_str (m_path (m_http_request ep))) x" and req: "cgi_request (m_http_request ep)"
    and prog: "program_of x (plain_env (m_method (m_http_request ep)) (m_parameter (m_http_request ep))) False [] =
      Some (out, status)"
    and law: "sigchld_law os" "EvSignal ''SIGCHLD'' \<in> set (trace w)"
  shows "\<exists>w'. serve_resource os st ep w = Inr (BuildResponseHelper os
      (on_response (\<lambda>r. r\<lparr>m_file_size := to_int (st_size st), m_suffix := path_suffix (m_path (m_http_request ep)),
         m_response_body := m_response_body r @ out @ out, m_status_code := OK\<rparr>) ep) w') \<and>
    grows build_event w w'"
proof -
  let ?ep2 = "on_response (\<lambda>r. r\<lparr>m_file_size := to_int (st_size st),
      m_suffix := path_suffix (m_path (m_http_request ep))\<rparr>) ep"
  let ?add = "on_response (\<lambda>r. r\<lparr>m_response_body := m_response_body r @ out\<rparr>)"
  let ?w2 = "emit (EvOut (''cgi begin...'' @ [LF])) w"
  have sig: "EvSignal ''SIGCHLD'' \<in> set (trace ?w2)" and g: "grows build_event w ?w2"
    using law(2) by (simp_all add: grows_emit)
  obtain w3 where 1: "CgiProcess os ?ep2 ?w2 = Inr (OK, ?add ?ep2, w3)" and g1: "grows build_event ?w2 w3"
    using CgiProcess_runs [of os ?ep2 x out status ?w2] ready req prog law(1) sig by auto
  obtain w4 where 2: "CgiProcess os (?add ?ep2) w3 = Inr (OK, ?add (?add ?ep2), w4)" and g2: "grows build_event w3 w4"
    using CgiProcess_runs [of os "?add ?ep2" x out status w3] ready req prog law(1) grows_in_trace [OF g1 sig] by auto
  have "grows build_event w w4" using g g1 g2 grows_trans by blast
  then show ?thesis using serve_resource_cgi [OF cgi 1 2] by auto
qed

text \<open>A POST always takes the CGI branch, a GET for an executable file does.\<close>

lemma BuildHttpResponse_executable:
  assumes "os_stat os (trace w @ [EvOut (''path:'' @ p @ [LF])]) (c_str p) = Some st"
    and "p = resource_path (m_path (m_http_request ep))"
    and "m_status_code (m_http_response ep) = OK" "\<not> S_ISDIR (st_mode st)"
    and "executable (st_mode st) \<or> m_cgi (m_http_request ep)"
  shows "BuildHttpResponse os ep w =
    serve_resource os st (on_request (\<lambda>q. q\<lparr>m_path := p, m_cgi := True\<rparr>) ep)
      (emit (EvStat (c_str p)) (emit (EvOut (''path:'' @ p @ [LF])) w))"
proof -
  let ?q = "m_http_request ep"
  have "(if executable (st_mode st) then ?q\<lparr>m_path := p, m_cgi := True\<rparr> else ?q\<lparr>m_path := p\<rparr>) =
      ?q\<lparr>m_path := p, m_cgi := True\<rparr>"
    using assms(5) by (cases ?q) auto
  then show ?thesis using assms(1-4)
    by (simp add: BuildHttpResponse_def os_calls locate_resource_def Let_def status_codes
        split: if_splits)
qed

text \<open>One CGI request, from the socket to the socket.\<close>

lemma HandlerRequest_cgi:
  assumes ok: "request_ok m u v hs" and meth: "map toupper m = M" "M \<in> {''GET'', ''POST''}"
    and inp: "sock_in w = map RByte (request_line m u v) @ RByte CR # RByte LF # header_block hs @ i"
    and nul: "CHR 0x00 \<notin> set u"
    and split: "(path, parameter) = (if M = ''GET'' then query_split u else (u, []))"
    and ready: "cgi_ready os (resource_path path) st x" and exec: "executable (st_mode st) \<or> M = ''POST''"
    and prog: "program_of x (plain_env M parameter) False [] = Some (out, status)"
    and law: "sigchld_law os" "EvSignal ''SIGCHLD'' \<in> set (trace w)" and send: "full_send os"
  shows "\<exists>w'. HandlerRequest os False fd0 size0 sock w = Inr w' \<and>
    wire sock (trace w') = wire sock (trace w) @ status_line_of 200 @ [CR, LF] @ out @ out"
proof -
  let ?p = "resource_path path"
  let ?ep = "\<lparr>m_sock = sock, m_http_request = parsed_request m u v,
    m_http_response = (new_HttpResponse fd0 size0)\<lparr>m_status_code := parsed_status m\<rparr>, m_stop = False\<rparr>"
  let ?w1 = "w\<lparr>sock_in := i, trace := trace w @ parse_events m u v\<rparr>"
  have recv: "RecvHttpRequest (new_EndPoint sock False fd0 size0) w = Inr (?ep, ?w1)"
    by (rule RecvHttpRequest_parses [OF ok inp])
  have pp: "path = (if M = ''GET'' then fst (query_split u) else u)"
      "parameter = (if M = ''GET'' then snd (query_split u) else [])"
    using split by (auto split: if_splits) (metis fst_conv snd_conv)+
  have "set (fst (query_split u)) \<subseteq> set u" "set (snd (query_split u)) \<subseteq> set u"
    by (auto simp: query_split_def cut_of_def split: option.splits dest: in_set_takeD in_set_dropD)
  with nul pp have nul': "CHR 0x00 \<notin> set path" "CHR 0x00 \<notin> set parameter" by auto
  have cp: "c_str ?p = ?p" by (rule resource_path_nonul [OF nul'(1)])
  let ?ep2 = "on_request (\<lambda>q. q\<lparr>m_path := ?p, m_cgi := True\<rparr>) ?ep"
  let ?q = "m_http_request ?ep2"
  let ?w2 = "emit (EvStat (c_str ?p)) (emit (EvOut (''path:'' @ ?p @ [LF])) ?w1)"
  have q: "m_method ?q = M" "m_parameter ?q = parameter" "m_path ?q = ?p" "m_cgi ?q"
    using meth pp by (simp_all add: parsed_request_def Let_def)
  have req: "cgi_request ?q"
    using meth nul' q by (simp add: cgi_request_def parsed_request_def message_defs Let_def)
  have sig: "EvSignal ''SIGCHLD'' \<in> set (trace ?w2)" using law(2) by simp
  have "BuildHttpResponse os ?ep ?w1 = serve_resource os st ?ep2 ?w2"
    by (rule BuildHttpResponse_executable)
       (use ready cp pp meth exec in \<open>auto simp: cgi_ready_def parsed_request_def parsed_status_def Let_def\<close>)
  then obtain w4 where build: "BuildHttpResponse os ?ep ?w1 = Inr (BuildResponseHelper os
      (on_response (\<lambda>r. r\<lparr>m_file_size := to_int (st_size st), m_suffix := path_suffix ?p,
         m_response_body := out @ out, m_status_code := OK\<rparr>) ?ep2) w4)" and g: "grows build_event ?w2 w4"
    using serve_resource_runs [OF q(4) _ req _ law(1) sig, of x out status st]
      cgi_ready_can_run [OF ready] prog q cp by (auto simp: message_defs)
  let ?ep5 = "on_response (\<lambda>r. r\<lparr>m_file_size := to_int (st_size st), m_suffix := path_suffix ?p,
      m_response_body := out @ out, m_status_code := OK, m_status_line := status_line_of 200,
      m_res_blank := [CR, LF]\<rparr>) ?ep2"
  have build: "BuildHttpResponse os ?ep ?w1 = Inr (?ep5, w4)"
    unfolding build by (subst BuildResponseHelper_200) (simp_all add: status_codes)
  have wire4: "wire sock (trace w4) = wire sock (trace w)"
    using grows_build_wire [OF g] meth by (auto simp: parse_events_def)
  have "HandlerRequest os False fd0 size0 sock w = Inr (sys_close sock (SendHttpResponse os ?ep5 w4))"
    using recv build by (simp add: HandlerRequest_def)
  moreover have "wire sock (trace (SendHttpResponse os ?ep5 w4)) =
      wire sock (trace w) @ status_line_of 200 @ [CR, LF] @ out @ out"
    using SendHttpResponse_wire [OF send, of ?ep5 w4] wire4
    by (simp add: response_bytes_def message_defs Let_def)
  ultimately show ?thesis by simp
qed

text \<open>
  With \<open>SIGCHLD\<close> ignored as the
  server sets it up, the reply is status 200, the empty line, and the program's output
  twice: \<open>BuildHttpResponse\<close> runs the program once for a variable it never reads and once
  for the status. The exit status of the program plays no part.
\<close>

theorem HandlerRequest_cgi_twice:
  assumes "request_ok m u v hs" and "map toupper m = ''GET''"
    and "sock_in w = map RByte (request_line m u v) @ RByte CR # RByte LF # header_block hs @ i"
    and "CHR 0x00 \<notin> set u" and "query_split u = (path, parameter)"
    and "cgi_ready os (resource_path path) st (Some prog)" and "executable (st_mode st)"
    and "prog [''METHOD=GET'', ''PARAMETER='' @ parameter] False [] = Some (out, status)"
    and "sigchld_law os" "EvSignal ''SIGCHLD'' \<in> set (trace w)" and "full_send os"
  shows "\<exists>w'. HandlerRequest os False fd0 size0 sock w = Inr w' \<and>
    wire sock (trace w') = wire sock (trace w) @ status_line_of 200 @ [CR, LF] @ out @ out"
  using HandlerRequest_cgi [OF assms(1) refl _ assms(3,4), of path parameter os st "Some prog" out status
      fd0 size0 sock] assms
  by (simp add: program_of_def plain_env_def)

text \<open>
  A POST always takes the CGI branch. For a file
  that cannot be executed the child's message becomes the answer: the client gets status
  200 and the text \<open>execl error\<close> twice, not the file, and the body it sent is left unread.
\<close>

theorem HandlerRequest_post_plain_file:
  assumes "request_ok m u v hs" and "map toupper m = ''POST''"
    and "sock_in w = map RByte (request_line m u v) @ RByte CR # RByte LF # header_block hs @ i"
    and "CHR 0x00 \<notin> set u"
    and "cgi_ready os (resource_path u) st None"
    and "sigchld_law os" "EvSignal ''SIGCHLD'' \<in> set (trace w)" and "full_send os"
  shows "\<exists>w'. HandlerRequest os False fd0 size0 sock w = Inr w' \<and>
    wire sock (trace w') = wire sock (trace w) @ status_line_of 200 @ [CR, LF] @
      ''execl error'' @ [LF] @ ''execl error'' @ [LF]"
  using HandlerRequest_cgi [OF assms(1) refl _ assms(3,4), of u "[]" os st None "''execl error'' @ [LF]" "0x100"
      fd0 size0 sock] assms
  by (simp add: program_of_def)

section \<open>Every run\<close>

fun rooted :: "event \<Rightarrow> bool" where
  "rooted (EvStat p) = prefix WWW_ROOT p"
| "rooted (EvOpen p r) = prefix WWW_ROOT p"
| "rooted (EvExec p env) = prefix WWW_ROOT p"
| "rooted (EvAccept s r) = False"
| "rooted (EvPush s) = False"
| "rooted (EvExit c) = False"
| "rooted _ = True"

lemma build_event_rooted: "build_event e \<Longrightarrow> rooted e"
  by (cases e) auto

text \<open>The sending half sends on the connection's socket only, closes and logs.\<close>

fun sending_event :: "int \<Rightarrow> event \<Rightarrow> bool" where
  "sending_event sock (EvSend s d n) \<longleftrightarrow> s = sock"
| "sending_event sock (EvSendfile s i n d) \<longleftrightarrow> s = sock"
| "sending_event sock (EvClose fd) \<longleftrightarrow> True"
| "sending_event sock (EvLog l m) \<longleftrightarrow> True"
| "sending_event sock _ \<longleftrightarrow> False"

lemma sending_event_rooted: "sending_event sock e \<Longrightarrow> rooted e"
  by (cases e) auto

definition send_event :: "int \<Rightarrow> event \<Rightarrow> bool" where
  "send_event fd e \<longleftrightarrow> (\<exists>s n. e = EvSend fd s n)"

lemma sys_send_grows: "grows (send_event fd) w (snd (sys_send os fd s w))"
  by (simp add: sys_send_def Let_def send_event_def grows_emit)

lemma send_lines_grows: "grows (send_event fd) w (send_lines os fd hs w)"
proof (induction hs arbitrary: w)
  case (Cons h hs)
  have "grows (send_event fd) w (send_lines os fd hs (snd (sys_send os fd h w)))"
    by (rule grows_trans [OF sys_send_grows Cons.IH])
  then show ?case by simp
qed simp

lemma send_loop_grows: "grows (send_event fd) w (send_loop os fd s w)"
proof (induction os fd s w rule: send_loop.induct)
  case (1 os fd rest w)
  obtain n w1 where n: "sys_send os fd rest w = (n, w1)" by fastforce
  then have g: "grows (send_event fd) w w1" using sys_send_grows [of fd w os rest] by simp
  show ?case
  proof (cases "rest \<noteq> [] \<and> 0 < n")
    case True
    then show ?thesis using grows_trans [OF g "1.IH" [OF _ n [symmetric]]] n
      by (simp add: send_loop.simps [of os fd rest w])
  next
    case False
    then show ?thesis using g n by (auto simp: send_loop.simps [of os fd rest w])
  qed
qed

text \<open>The head of the reply: status line, header lines and blank line.\<close>

definition send_head :: "os \<Rightarrow> EndPoint \<Rightarrow> world \<Rightarrow> world" where
  "send_head os ep w = snd (sys_send os (m_sock ep) (m_res_blank (m_http_response ep))
     (send_lines os (m_sock ep) (m_response_header (m_http_response ep))
       (snd (sys_send os (m_sock ep) (m_status_line (m_http_response ep)) w))))"

lemma send_head_grows: "grows (send_event (m_sock ep)) w (send_head os ep w)"
  unfolding send_head_def by (rule grows_trans [OF sys_send_grows grows_trans [OF send_lines_grows sys_send_grows]])

lemma SendHttpResponse_cases:
  obtains (body) w1 where "m_cgi (m_http_request ep)" "grows (send_event (m_sock ep)) w w1"
      "SendHttpResponse os ep w = emit (EvLog INFO ''SendHttpRespone'') w1"
  | (page) w1 n where "\<not> m_cgi (m_http_request ep)" "grows (send_event (m_sock ep)) w w1"
      "SendHttpResponse os ep w = emit (EvLog INFO ''SendHttpRespone'') (sys_close (m_fd (m_http_response ep))
         (sys_sendfile os (m_sock ep) (m_fd (m_http_response ep)) n w1))"
proof (cases "m_cgi (m_http_request ep)")
  case True
  show thesis
    by (rule body [OF True grows_trans [OF send_head_grows send_loop_grows]])
       (use True in \<open>simp add: SendHttpResponse_def send_head_def Let_def\<close>)
next
  case False
  show thesis
    by (rule page [OF False send_head_grows])
       (use False in \<open>simp add: SendHttpResponse_def send_head_def Let_def\<close>)
qed

lemma SendHttpResponse_grows: "grows (sending_event (m_sock ep)) w (SendHttpResponse os ep w)"
proof (cases rule: SendHttpResponse_cases [of ep w os])
  case (body w1)
  have "grows (sending_event (m_sock ep)) w w1" by (rule grows_mono [OF body(2)]) (auto simp: send_event_def)
  then show ?thesis by (simp add: body(3) grows_emit)
next
  case (page w1 n)
  have "grows (sending_event (m_sock ep)) w w1" by (rule grows_mono [OF page(2)]) (auto simp: send_event_def)
  then show ?thesis by (simp add: page(3) sys_close_def sys_sendfile_def grows_emit)
qed

lemma SendHttpResponse_rooted: "grows rooted w (SendHttpResponse os ep w)"
  by (rule grows_mono [OF SendHttpResponse_grows sending_event_rooted])

lemma HandlerRequest_split:
  assumes "HandlerRequest os stop0 fd0 size0 sock w = Inr w'"
  obtains (stopped) ep w1 where "RecvHttpRequest (new_EndPoint sock stop0 fd0 size0) w = Inr (ep, w1)"
      "m_stop ep" "w' = sys_close sock w1"
  | (served) ep w1 ep2 w2 where "RecvHttpRequest (new_EndPoint sock stop0 fd0 size0) w = Inr (ep, w1)"
      "\<not> m_stop ep" "BuildHttpResponse os ep w1 = Inr (ep2, w2)"
      "w' = sys_close sock (SendHttpResponse os ep2 w2)"
  using assms by (auto simp: HandlerRequest_def split: sum.splits if_splits)

text \<open>What a handler may do between the accepted socket and its close.\<close>

definition handler_event :: "int \<Rightarrow> event \<Rightarrow> bool" where
  "handler_event sock e \<longleftrightarrow> build_event e \<or> sending_event sock e"

lemma handler_event_rooted: "handler_event sock e \<Longrightarrow> rooted e"
  using build_event_rooted sending_event_rooted by (auto simp: handler_event_def)

lemma handler_event_wire: "handler_event sock e \<Longrightarrow> fd \<noteq> sock \<Longrightarrow> event_wire fd e = []"
  by (cases e) (auto simp: handler_event_def)

lemma HandlerRequest_grows:
  assumes "HandlerRequest os stop0 fd0 size0 sock w = Inr w'"
  shows "\<exists>w1. grows (handler_event sock) w w1 \<and> w' = sys_close sock w1"
  using assms
proof (cases rule: HandlerRequest_split)
  case (stopped ep w1)
  have "grows (handler_event sock) w w1"
    by (rule grows_mono [OF RecvHttpRequest_grows [OF recv_inv_new stopped(1)]])
       (simp add: handler_event_def recv_event_build)
  then show ?thesis using stopped(3) by blast
next
  case (served ep w1 ep2 w2)
  have "grows (handler_event sock) w w1"
    by (rule grows_mono [OF RecvHttpRequest_grows [OF recv_inv_new served(1)]])
       (simp add: handler_event_def recv_event_build)
  also have "grows (handler_event sock) w1 w2"
    using BuildHttpResponse_props [OF served(3)] RecvHttpRequest_fresh [OF served(1)]
    by (auto intro: grows_mono simp: handler_event_def)
  also have "grows (handler_event sock) w2 (SendHttpResponse os ep2 w2)"
    using SendHttpResponse_grows [of ep2 w2 os] BuildHttpResponse_props [OF served(3)] RecvHttpRequest_fresh [OF served(1)]
    by (auto intro: grows_mono simp: handler_event_def)
  finally show ?thesis using served(4) by blast
qed

text \<open>
  C27 (resource safety). A handler that returns closes the connection's socket as its very
  last action, whatever happened before: one request per connection, no keep-alive. In
  between it touches only paths that start with \<open>wwwroot\<close>, accepts nothing and pushes no
  task.
\<close>

theorem HandlerRequest_closes_and_stays_rooted:
  assumes "HandlerRequest os stop0 fd0 size0 sock w = Inr w'"
  shows "\<exists>es. trace w' = trace w @ es @ [EvClose sock] \<and> list_all rooted es"
proof -
  obtain w1 where w1: "grows (handler_event sock) w w1" "w' = sys_close sock w1"
    using HandlerRequest_grows [OF assms] by blast
  then have "grows rooted w w1" using grows_mono handler_event_rooted by blast
  then show ?thesis using w1(2) by (auto simp: grows_def os_calls)
qed

lemma BuildHttpResponse_stats_path:
  assumes "BuildHttpResponse os ep w = Inr (ep', w')" and "m_status_code (m_http_response ep) = OK"
    and "m_response_header (m_http_response ep) = []"
  shows "EvStat (c_str (resource_path (m_path (m_http_request ep)))) \<in> set (trace w')"
proof -
  let ?p = "resource_path (m_path (m_http_request ep))"
  let ?w2 = "emit (EvStat (c_str ?p)) (emit (EvOut (''path:'' @ ?p @ [LF])) w)"
  let ?ep1 = "on_request (m_path_update (\<lambda>_. ?p)) ep"
  have in2: "EvStat (c_str ?p) \<in> set (trace ?w2)" by simp
  have ok: "m_status_code (m_http_response ep) \<noteq> BAD_REQUEST" using assms(2) by (simp add: status_codes)
  have "grows build_event ?w2 w'"
  proof (cases "os_stat os (trace (emit (EvOut (''path:'' @ ?p @ [LF])) w)) (c_str ?p)")
    case None
    let ?ep2 = "on_response (m_status_code_update (\<lambda>_. NOT_FOUND)) ?ep1"
    let ?w3 = "emit (EvOut (missing_msg @ m_path (m_http_request ep) @ [LF])) ?w2"
    have "BuildResponseHelper os ?ep2 ?w3 = (ep', w')"
      using assms(1) ok None by (simp add: BuildHttpResponse_def os_calls Let_def)
    from BuildResponseHelper_props [OF this] assms(3) have "grows build_event ?w3 w'" by simp
    moreover have "grows build_event ?w2 ?w3" by (rule grows_emit) simp_all
    ultimately show ?thesis using grows_trans by blast
  next
    case (Some st)
    obtain ep2 st' w3 where l: "locate_resource os st ?ep1 ?w2 = (ep2, st', w3)" by (metis surj_pair)
    have s: "serve_resource os st' ep2 w3 = Inr (ep', w')"
      using assms(1) ok Some l by (simp add: BuildHttpResponse_def os_calls Let_def)
    show ?thesis
      using locate_resource_props [OF l] serve_resource_props [OF s] assms(3)
      by (auto intro: grows_trans)
  qed
  then show ?thesis using in2 by (rule grows_in_trace)
qed

text \<open>
  The target is appended to \<open>wwwroot\<close> as it came: for a GET target
  without a question mark and a final slash the handler looks up exactly
  \<open>wwwroot\<close> followed by the target, dots and all, so \<open>/../x\<close> leads out of the directory.
\<close>

theorem HandlerRequest_no_path_check:
  assumes ok: "request_ok m u v hs" and get: "map toupper m = ''GET''"
    and inp: "sock_in w = map RByte (request_line m u v) @ RByte CR # RByte LF # header_block hs @ i"
    and u: "CHR 0x00 \<notin> set u" "CHR ''?'' \<notin> set u" "last u \<noteq> CHR ''/''"
    and run: "HandlerRequest os False fd0 size0 sock w = Inr w'"
  shows "EvStat (''wwwroot'' @ u) \<in> set (trace w')"
proof -
  let ?ep = "\<lparr>m_sock = sock, m_http_request = parsed_request m u v,
    m_http_response = (new_HttpResponse fd0 size0)\<lparr>m_status_code := parsed_status m\<rparr>, m_stop = False\<rparr>"
  let ?w1 = "w\<lparr>sock_in := i, trace := trace w @ parse_events m u v\<rparr>"
  have recv: "RecvHttpRequest (new_EndPoint sock False fd0 size0) w = Inr (?ep, ?w1)"
    by (rule RecvHttpRequest_parses [OF ok inp])
  have "query_split u = (u, [])"
    using u(2) by (simp add: query_split_def cut_of_def find_str_char_None)
  then have path: "m_path (m_http_request ?ep) = u" using get by (simp add: parsed_request_def Let_def)
  have "u \<noteq> []" using ok by (simp add: request_ok_def word_ok_def)
  then have "(WWW_ROOT @ u) ! (length (WWW_ROOT @ u) - 1) = last u"
    by (metis append_is_Nil_conv last_appendR last_conv_nth)
  then have p: "resource_path u = ''wwwroot'' @ u" using u(3)
    by (simp add: resource_path_def Let_def WWW_ROOT_def)
  obtain ep2 w2 where b: "BuildHttpResponse os ?ep ?w1 = Inr (ep2, w2)"
    and w': "w' = sys_close sock (SendHttpResponse os ep2 w2)"
    using run recv by (auto simp: HandlerRequest_def split: sum.splits)
  have "c_str (resource_path u) = resource_path u" by (rule resource_path_nonul [OF u(1)])
  then have "EvStat (resource_path u) \<in> set (trace w2)"
    using BuildHttpResponse_stats_path [OF b] path get
    by (simp add: parsed_status_def message_defs)
  then have "EvStat (resource_path u) \<in> set (trace (SendHttpResponse os ep2 w2))"
    by (rule grows_in_trace [OF SendHttpResponse_rooted])
  then show ?thesis using w' p by (simp add: os_calls)
qed

section \<open>A concrete system\<close>

text \<open>
  The system the witnesses run on: a page and an executable under \<open>wwwroot\<close>, a 404 page,
  calls that succeed in full, and a CGI program that prints \<open>ok\<close>.
\<close>

definition demo_os :: os where
  "demo_os = \<lparr>
     os_stat = (\<lambda>h p.
       if p = ''wwwroot/index.html'' then Some \<lparr>st_mode = 0x81A4, st_size = 5\<rparr>
       else if p = ''wwwroot/big.bin'' then Some \<lparr>st_mode = 0x81A4, st_size = 2 ^ 32 + 7\<rparr>
       else if p = ''wwwroot/test_cgi'' then Some \<lparr>st_mode = 0x81ED, st_size = 9\<rparr>
       else None),
     os_open = (\<lambda>h p. 5),
     os_pipe = (\<lambda>h. Some (6, 7)),
     os_fork = (\<lambda>h. 100),
     os_exec = (\<lambda>h p. if p = ''wwwroot/test_cgi'' then Some (\<lambda>env ended inp. Some (''ok'', 0)) else None),
     os_freed = (\<lambda>h s. s),
     os_write = (\<lambda>h fd s. int (length s)),
     os_waitpid = (\<lambda>h pid. if EvSignal ''SIGCHLD'' \<in> set h then -1 else pid),
     os_send = (\<lambda>h fd s. int (length s)),
     os_sendfile = (\<lambda>h inp n. ''hello''),
     os_socket = (\<lambda>h. 3),
     os_bind = (\<lambda>h fd port. 0),
     os_listen = (\<lambda>h fd. 0),
     os_accept = (\<lambda>h fd. (8, 0))\<rparr>"

definition demo_world :: "string \<Rightarrow> string \<Rightarrow> world" where
  "demo_world m u =
     \<lparr>sock_in = map RByte (request_line m u ''HTTP/1.1'') @ RByte CR # RByte LF # header_block [''Host: h''] @ [],
      trace = [EvSignal ''SIGCHLD'']\<rparr>"

lemma demo_world_in [simp]:
  "sock_in (demo_world m u) =
    map RByte (request_line m u ''HTTP/1.1'') @ RByte CR # RByte LF # header_block [''Host: h''] @ []"
  "trace (demo_world m u) = [EvSignal ''SIGCHLD'']"
  by (simp_all add: demo_world_def)

lemma demo_request_ok:
  "word_ok m \<Longrightarrow> word_ok u \<Longrightarrow> length m + length u < 1000 \<Longrightarrow>
   request_ok m u ''HTTP/1.1'' [''Host: h'']"
  by (simp add: request_ok_def header_ok_def plain_def request_line_def word_ok_def isspace_def)

lemma demo_os_laws: "full_send demo_os" "sigchld_law demo_os"
  by (simp_all add: full_send_def sigchld_law_def demo_os_def)

lemma demo_resource_paths:
  "resource_path ''/index.html'' = ''wwwroot/index.html''" "resource_path ''/'' = ''wwwroot/index.html''"
  "resource_path ''/big.bin'' = ''wwwroot/big.bin''"
  "resource_path ''/test_cgi'' = ''wwwroot/test_cgi''" "resource_path ''/none'' = ''wwwroot/none''"
  by (simp_all add: resource_path_def WWW_ROOT_def HOME_PAGE_def)

lemma demo_words: "word_ok ''GET''" "word_ok ''POST''" "word_ok ''/index.html''" "word_ok ''/big.bin''"
  "word_ok ''/test_cgi?x=1''" "word_ok ''/../x''"
  by (simp_all add: word_ok_def isspace_def)

lemma demo_queries:
  "query_split ''/index.html'' = (''/index.html'', [])" "query_split ''/big.bin'' = (''/big.bin'', [])"
  "query_split ''/test_cgi?x=1'' = (''/test_cgi'', ''x=1'')"
  by (simp_all add: query_split_def cut_of_def)

lemma demo_files:
  "plain_file demo_os ''wwwroot/index.html'' \<lparr>st_mode = 0x81A4, st_size = 5\<rparr>"
  "plain_file demo_os ''wwwroot/big.bin'' \<lparr>st_mode = 0x81A4, st_size = 2 ^ 32 + 7\<rparr>"
  "cgi_ready demo_os ''wwwroot/test_cgi'' \<lparr>st_mode = 0x81ED, st_size = 9\<rparr> (Some (\<lambda>env ended inp. Some (''ok'', 0)))"
  "cgi_ready demo_os ''wwwroot/index.html'' \<lparr>st_mode = 0x81A4, st_size = 5\<rparr> None"
  by (simp_all add: plain_file_def cgi_ready_def demo_os_def S_ISDIR_def executable_def)

lemma toupper_demo: "map toupper ''GET'' = ''GET''" "map toupper ''POST'' = ''POST''"
  by (simp_all add: toupper_def)

lemma HandlerRequest_static_file_witness:
  "\<exists>f1 f2 body. 0 < f1 \<and> 0 < f2 \<and>
    HandlerRequest demo_os False 0 0 8 (demo_world ''GET'' ''/index.html'') =
     Inr ((demo_world ''GET'' ''/index.html'')\<lparr>sock_in := [], trace := trace (demo_world ''GET'' ''/index.html'') @
      [EvLog INFO (request_line ''GET'' ''/index.html'' ''HTTP/1.1''),
       EvOut (''path:'' @ ''wwwroot/index.html'' @ [LF]), EvStat ''wwwroot/index.html'',
       EvOut (''not cgi begining'' @ [LF]), EvOpen ''wwwroot/index.html'' f1, EvOpen ''wwwroot/index.html'' f2,
       EvSend 8 (status_line_of 200) (int (length (status_line_of 200))),
       EvSend 8 [CR, LF] 2, EvSendfile 8 f2 (st_size \<lparr>st_mode = 0x81A4, st_size = 5\<rparr>) body, EvClose f2,
       EvLog INFO ''SendHttpRespone'', EvClose 8]\<rparr>)"
  by (rule HandlerRequest_static_file [OF demo_request_ok toupper_demo(1) demo_world_in(1) _ _ demo_files(1)
        demo_os_laws(1)])
     (simp_all add: demo_words demo_queries demo_resource_paths)

lemma HandlerRequest_large_file_witness:
  "\<exists>w' f2 body. HandlerRequest demo_os False 0 0 8 (demo_world ''GET'' ''/big.bin'') = Inr w' \<and>
    EvSendfile 8 f2 (int 7) body \<in> set (trace w')"
  by (rule HandlerRequest_large_file [OF demo_request_ok toupper_demo(1) demo_world_in(1) _ _ demo_files(2)
        demo_os_laws(1), of _ 1])
     (simp_all add: demo_words demo_queries demo_resource_paths)

lemma HandlerRequest_cgi_twice_witness:
  "\<exists>w'. HandlerRequest demo_os False 0 0 8 (demo_world ''GET'' ''/test_cgi?x=1'') = Inr w' \<and>
    wire 8 (trace w') = wire 8 (trace (demo_world ''GET'' ''/test_cgi?x=1'')) @
      status_line_of 200 @ [CR, LF] @ ''ok'' @ ''ok''"
proof -
  have ready: "cgi_ready demo_os (resource_path ''/test_cgi'') \<lparr>st_mode = 0x81ED, st_size = 9\<rparr>
      (Some (\<lambda>env ended inp. Some (''ok'', 0)))"
    using demo_files(3) by (simp add: demo_resource_paths)
  show ?thesis
    by (rule HandlerRequest_cgi_twice [OF demo_request_ok toupper_demo(1) demo_world_in(1) _ demo_queries(3) ready _ _
          demo_os_laws(2) _ demo_os_laws(1)])
       (simp_all add: demo_words executable_def)
qed

lemma HandlerRequest_post_plain_file_witness:
  "\<exists>w'. HandlerRequest demo_os False 0 0 8 (demo_world ''POST'' ''/index.html'') = Inr w' \<and>
    wire 8 (trace w') = wire 8 (trace (demo_world ''POST'' ''/index.html'')) @
      status_line_of 200 @ [CR, LF] @ ''execl error'' @ [LF] @ ''execl error'' @ [LF]"
  by (rule HandlerRequest_post_plain_file [OF demo_request_ok toupper_demo(2) demo_world_in(1) _ _
        demo_os_laws(2) _ demo_os_laws(1)])
     (use demo_files(4) in \<open>simp_all add: demo_words demo_resource_paths\<close>)

text \<open>One concrete run of the handler, for the theorems about every run.\<close>

lemma demo_run:
  "\<exists>w'. HandlerRequest demo_os False 0 0 8 (demo_world ''GET'' ''/../x'') = Inr w'"
proof -
  let ?w = "demo_world ''GET'' ''/../x''"
  let ?ep = "\<lparr>m_sock = 8, m_http_request = parsed_request ''GET'' ''/../x'' ''HTTP/1.1'',
    m_http_response = (new_HttpResponse 0 0)\<lparr>m_status_code := parsed_status ''GET''\<rparr>, m_stop = False\<rparr>"
  have r: "RecvHttpRequest (new_EndPoint 8 False 0 0) ?w =
    Inr (?ep, ?w\<lparr>sock_in := [], trace := trace ?w @ parse_events ''GET'' ''/../x'' ''HTTP/1.1''\<rparr>)"
    by (rule RecvHttpRequest_parses [OF demo_request_ok demo_world_in(1)]) (simp_all add: demo_words)
  have p: "m_path (parsed_request ''GET'' ''/../x'' ''HTTP/1.1'') = ''/../x''"
    by (simp add: parsed_request_def toupper_def query_split_def cut_of_def Let_def)
  have "\<exists>x. BuildHttpResponse demo_os ?ep w = Inr x" for w
    by (simp add: BuildHttpResponse_def os_calls Let_def demo_os_def parsed_status_def toupper_demo
        status_codes p resource_path_def WWW_ROOT_def HOME_PAGE_def c_str_def)
  then obtain ep w1 where
    "BuildHttpResponse demo_os ?ep (?w\<lparr>sock_in := [],
       trace := trace ?w @ parse_events ''GET'' ''/../x'' ''HTTP/1.1''\<rparr>) = Inr (ep, w1)"
    by (metis surj_pair)
  then show ?thesis using r by (simp add: HandlerRequest_def parsed_status_def)
qed

lemma HandlerRequest_reply_witness:
  "\<exists>w'. HandlerRequest demo_os False 0 0 8 (demo_world ''GET'' ''/../x'') = Inr w' \<and>
    (wire 8 (trace w') = wire 8 (trace (demo_world ''GET'' ''/../x'')) \<or>
     (\<exists>s. wire 8 (trace w') = wire 8 (trace (demo_world ''GET'' ''/../x'')) @ s \<and> reply s))"
  using demo_run HandlerRequest_reply [OF demo_os_laws(1)] by blast

lemma HandlerRequest_closes_and_stays_rooted_witness:
  "\<exists>w' es. HandlerRequest demo_os False 0 0 8 (demo_world ''GET'' ''/../x'') = Inr w' \<and>
    trace w' = trace (demo_world ''GET'' ''/../x'') @ es @ [EvClose 8] \<and> list_all rooted es"
  using demo_run HandlerRequest_closes_and_stays_rooted by blast

lemma HandlerRequest_no_path_check_witness:
  "\<exists>w'. HandlerRequest demo_os False 0 0 8 (demo_world ''GET'' ''/../x'') = Inr w' \<and>
    EvStat (''wwwroot'' @ ''/../x'') \<in> set (trace w')"
proof -
  obtain w' where r: "HandlerRequest demo_os False 0 0 8 (demo_world ''GET'' ''/../x'') = Inr w'"
    using demo_run by blast
  have "EvStat (''wwwroot'' @ ''/../x'') \<in> set (trace w')"
    by (rule HandlerRequest_no_path_check [OF demo_request_ok toupper_demo(1) demo_world_in(1) _ _ _ r])
       (simp_all add: demo_words)
  with r show ?thesis by blast
qed

definition demo_ep :: "string \<Rightarrow> string \<Rightarrow> EndPoint" where
  "demo_ep m p = (new_EndPoint 8 False 0 0)
     \<lparr>m_http_request := new_HttpRequest\<lparr>m_method := m, m_path := p\<rparr>\<rparr>"

lemma BuildHttpResponse_missing_file_witness:
  "\<exists>ep' w' es f404 f500. BuildHttpResponse demo_os (demo_ep ''GET'' ''/none'') (demo_world [] []) = Inr (ep', w') \<and>
    trace w' = trace (demo_world [] []) @ es \<and> m_status_code (m_http_response ep') = NOT_FOUND \<and>
    opens es = [(PAGE_404, f404), (PAGE_500, f500)] \<and> closed_in es = [] \<and>
    m_fd (m_http_response ep') = f500"
  by (rule BuildHttpResponse_missing_file)
     (simp_all add: demo_ep_def message_defs demo_resource_paths demo_os_def c_str_def)

lemma demo_CgiProcess:
  "\<exists>w'. CgiProcess demo_os (demo_ep ''GET'' ''wwwroot/test_cgi'') (demo_world [] []) =
     Inr (OK, on_response (\<lambda>r. r\<lparr>m_response_body := m_response_body r @ ''ok''\<rparr>)
       (demo_ep ''GET'' ''wwwroot/test_cgi''), w')"
proof -
  have c: "c_str ''wwwroot/test_cgi'' = ''wwwroot/test_cgi''" by (simp add: c_str_def)
  show ?thesis
    using CgiProcess_runs [of demo_os "demo_ep ''GET'' ''wwwroot/test_cgi''" _ "''ok''" 0 "demo_world [] []"]
      cgi_ready_can_run [OF demo_files(3)] demo_os_laws(2)
    by (fastforce simp: demo_ep_def message_defs cgi_request_def program_of_def c WWW_ROOT_def)
qed

lemma CgiProcess_ignores_child_status_witness:
  "\<exists>ep' w' code. CgiProcess demo_os (demo_ep ''GET'' ''wwwroot/test_cgi'') (demo_world [] []) = Inr (code, ep', w') \<and>
    (code = OK \<or> (\<exists>es. trace w' = trace (demo_world [] []) @ es \<and> (\<forall>p env. EvExec p env \<notin> set es) \<and>
       ep' = demo_ep ''GET'' ''wwwroot/test_cgi''))"
proof -
  obtain ep' w' where r: "CgiProcess demo_os (demo_ep ''GET'' ''wwwroot/test_cgi'') (demo_world [] []) = Inr (OK, ep', w')"
    using demo_CgiProcess by blast
  have "prefix WWW_ROOT (m_path (m_http_request (demo_ep ''GET'' ''wwwroot/test_cgi'')))"
    by (simp add: demo_ep_def message_defs WWW_ROOT_def)
  from CgiProcess_ignores_child_status [OF demo_os_laws(2) _ this r] r show ?thesis by auto
qed

lemma CgiProcess_descriptors_witness:
  "\<exists>code ep' w' es. CgiProcess demo_os (demo_ep ''GET'' ''wwwroot/test_cgi'') (demo_world [] []) = Inr (code, ep', w') \<and>
    trace w' = trace (demo_world [] []) @ es \<and>
    (if \<exists>pid. 0 < pid \<and> EvFork pid \<in> set es
     then mset (closed_in es) = mset (opened_in es) \<and> length (opened_in es) = 4
     else closed_in es = [] \<and> length (opened_in es) \<in> {0, 2, 4})"
proof -
  obtain ep' w' where r: "CgiProcess demo_os (demo_ep ''GET'' ''wwwroot/test_cgi'') (demo_world [] []) = Inr (OK, ep', w')"
    using demo_CgiProcess by blast
  from CgiProcess_descriptors [OF r] r show ?thesis by blast
qed

end
