(* ===== verification/Http_Partial.thy ===== *)
theory Http_Partial
  imports Http_Send
begin

text \<open>
  \<open>SendHttpResponse\<close> (src/protocal.cc) on systems whose \<open>send\<close> takes only a part of what it is
  given.
\<close>

section \<open>Sends that take a part\<close>

text \<open>A system whose \<open>send\<close> takes at most \<open>k\<close> bytes at a time.\<close>

definition short_send :: "os \<Rightarrow> nat \<Rightarrow> bool" where
  "short_send os k \<longleftrightarrow> (\<forall>h fd s. os_send os h fd s = int (min k (length s)))"

lemma sys_send_short: "short_send os k \<Longrightarrow>
    sys_send os fd s w = (int (min k (length s)), emit (EvSend fd s (int (min k (length s)))) w)"
  by (simp add: sys_send_def short_send_def clip_def Let_def)

lemma send_lines_short:
  "short_send os k \<Longrightarrow> wire fd (trace (send_lines os fd hs w)) = wire fd (trace w) @ concat (map (take k) hs)"
  by (induction hs arbitrary: w) (simp_all add: sys_send_short min_def)

text \<open>Only the socket it is given sees the loop.\<close>

lemma send_loop_other: "fd' \<noteq> fd \<Longrightarrow> wire fd' (trace (send_loop os fd s w)) = wire fd' (trace w)"
proof (induction os fd s w rule: send_loop.induct)
  case (1 os fd rest w)
  obtain n w1 where n: "sys_send os fd rest w = (n, w1)" by fastforce
  then have w1: "w1 = emit (EvSend fd rest n) w" by (auto simp: sys_send_def Let_def)
  then have "rest \<noteq> [] \<Longrightarrow> 0 < n \<Longrightarrow> wire fd' (trace (send_loop os fd (drop (nat n) rest) w1)) = wire fd' (trace w1)"
    using "1.IH" [OF _ n [symmetric]] "1.prems" by simp
  then show ?case using n w1 "1.prems" by (simp add: send_loop.simps [of os fd rest w])
qed

text \<open>
  C30 (equivalence). The loop that sends a body is as good as one \<open>send\<close> that takes everything: on
  a system whose \<open>send\<close> takes at least one byte of what it is given, however it cuts the
  data, the bytes that reach the socket are all of the body, in order and once, and no other socket gets any:
  what every socket has got is what one call of a \<open>send\<close> that always takes everything would have left.
\<close>

theorem send_loop_sends_all:
  assumes "\<And>h t. t \<noteq> [] \<Longrightarrow> 0 < os_send os h fd t \<and> os_send os h fd t \<le> int (length t)"
    and "full_send os'"
  shows "wire fd (trace (send_loop os fd s w)) = wire fd (trace w) @ s \<and>
    (\<forall>fd'. wire fd' (trace (send_loop os fd s w)) = wire fd' (trace (snd (sys_send os' fd s w))))"
proof -
  have all: "wire fd (trace (send_loop os fd s w)) = wire fd (trace w) @ s" by (rule send_loop_complete [OF assms(1)])
  moreover have "wire fd' (trace (send_loop os fd s w)) = wire fd' (trace (snd (sys_send os' fd s w)))" for fd'
    using all send_loop_other [of fd' fd os s w] by (cases "fd' = fd") (simp_all add: sys_send_full [OF assms(2)])
  ultimately show ?thesis by blast
qed

text \<open>
  C31 (functional, negative). Only the output of a program has such a loop. Where \<open>send\<close> and \<open>sendfile\<close> take
  at most \<open>k\<close> bytes at a time, of the status line, of every header and of the blank line only the first \<open>k\<close>
  bytes arrive; after them the whole output of a program, but of a file only the first \<open>k\<close> bytes again, since
  the answer of the one \<open>sendfile\<close> is ignored.
\<close>

theorem short_sends_cut_the_reply:
  assumes "short_send os k" and "0 < k" and "\<And>h i n. os_sendfile os h i n = take (min k (nat n)) (file i)"
  shows "wire (m_sock ep) (trace (SendHttpResponse os ep w)) = wire (m_sock ep) (trace w) @
    take k (m_status_line (m_http_response ep)) @
    concat (map (take k) (m_response_header (m_http_response ep))) @
    take k (m_res_blank (m_http_response ep)) @
    (if m_cgi (m_http_request ep) then m_response_body (m_http_response ep)
     else take (min k (to_size (m_file_size (m_http_response ep)))) (file (m_fd (m_http_response ep))))"
proof -
  have "wire fd (trace (send_loop os fd s v)) = wire fd (trace v) @ s" for fd s v
    by (rule send_loop_complete) (use assms(1,2) in \<open>auto simp: short_send_def\<close>)
  then show ?thesis using send_lines_short [OF assms(1)] assms(3)
    by (simp add: SendHttpResponse_def Let_def sys_send_short [OF assms(1)] sys_sendfile_def sys_close_def min_def)
qed

text \<open>A \<open>send\<close> that takes one byte at a time, and one of four.\<close>

lemma send_loop_sends_all_witness:
  "wire 8 (trace (send_loop (demo_os\<lparr>os_send := \<lambda>h fd s. 1\<rparr>) 8 ''page'' \<lparr>sock_in = [], trace = []\<rparr>)) = ''page''"
proof -
  have "full_send (demo_os\<lparr>os_send := \<lambda>h fd s. int (length s)\<rparr>)" by (simp add: full_send_def)
  then have "wire 8 (trace (send_loop (demo_os\<lparr>os_send := \<lambda>h fd s. 1\<rparr>) 8 ''page'' \<lparr>sock_in = [], trace = []\<rparr>)) =
    wire 8 (trace \<lparr>sock_in = [], trace = []\<rparr>) @ ''page''"
    by (intro send_loop_sends_all [THEN conjunct1]) (simp_all add: Suc_le_eq)
  then show ?thesis by simp
qed

definition demo_reply :: "bool \<Rightarrow> EndPoint" where
  "demo_reply cgi = \<lparr>m_sock = 8, m_http_request = new_HttpRequest\<lparr>m_cgi := cgi\<rparr>,
     m_http_response = (new_HttpResponse 5 6)\<lparr>m_status_line := ''HTTP/1.1 200 OK'', m_res_blank := [CR, LF],
       m_response_body := ''a page''\<rparr>,
     m_stop = False\<rparr>"

lemma short_sends_cut_the_reply_witness:
  "wire 8 (trace (SendHttpResponse (demo_os\<lparr>os_send := \<lambda>h fd s. int (min 4 (length s)),
       os_sendfile := \<lambda>h i n. take (min 4 (nat n)) ''a file''\<rparr>) (demo_reply True) \<lparr>sock_in = [], trace = []\<rparr>)) =
     ''HTTP'' @ [CR, LF] @ ''a page'' \<and>
   wire 8 (trace (SendHttpResponse (demo_os\<lparr>os_send := \<lambda>h fd s. int (min 4 (length s)),
       os_sendfile := \<lambda>h i n. take (min 4 (nat n)) ''a file''\<rparr>) (demo_reply False) \<lparr>sock_in = [], trace = []\<rparr>)) =
     ''HTTP'' @ [CR, LF] @ ''a fi''"
proof -
  let ?os = "demo_os\<lparr>os_send := \<lambda>h fd s. int (min 4 (length s)), os_sendfile := \<lambda>h i n. take (min 4 (nat n)) ''a file''\<rparr>"
  have "short_send ?os 4" by (simp add: short_send_def)
  from short_sends_cut_the_reply [OF this, of "\<lambda>i. ''a file''"]
  have "wire (m_sock ep) (trace (SendHttpResponse ?os ep w)) = wire (m_sock ep) (trace w) @
    take 4 (m_status_line (m_http_response ep)) @
    concat (map (take 4) (m_response_header (m_http_response ep))) @
    take 4 (m_res_blank (m_http_response ep)) @
    (if m_cgi (m_http_request ep) then m_response_body (m_http_response ep)
     else take (min 4 (to_size (m_file_size (m_http_response ep)))) ''a file'')" for ep w by simp
  from this [of "demo_reply True" "\<lparr>sock_in = [], trace = []\<rparr>"] this [of "demo_reply False" "\<lparr>sock_in = [], trace = []\<rparr>"]
  show ?thesis by (simp add: demo_reply_def new_HttpRequest_def new_HttpResponse_def to_size_def)
qed

end
