(* ===== verification/Tcp_Server.thy ===== *)
theory Tcp_Server
  imports World
begin

text \<open>
  The listening socket (src/tcp_server.cc, include/tcp_server.h). An operation ends with \<open>Inl w\<close>
  when \<open>ERR_EXIT\<close> ended the process in the world \<open>w\<close>, and with \<open>Inr\<close> when it returned.
\<close>

section \<open>Definitions\<close>

record TcpServer =
  m_port :: int
  m_listen_sock :: int

definition BACKLOG :: int where
  "BACKLOG = 5"

definition EMFILE :: int where
  "EMFILE = 24"

definition ERR_EXIT :: "string \<Rightarrow> world \<Rightarrow> world + 'a" where
  "ERR_EXIT m w = Inl (emit (EvExit 1) (emit (EvErr m) w))"

definition sys_socket :: "os \<Rightarrow> world \<Rightarrow> int \<times> world" where
  "sys_socket os w = (let r = os_socket os (trace w) in (r, emit (EvSocket r) w))"

definition sys_bind :: "os \<Rightarrow> int \<Rightarrow> 16 word \<Rightarrow> world \<Rightarrow> int \<times> world" where
  "sys_bind os fd port w = (let r = os_bind os (trace w) fd port in (r, emit (EvBind fd port r) w))"

definition sys_listen :: "os \<Rightarrow> int \<Rightarrow> int \<Rightarrow> world \<Rightarrow> int \<times> world" where
  "sys_listen os fd backlog w = (let r = os_listen os (trace w) fd in (r, emit (EvListen fd backlog r) w))"

definition new_TcpServer :: "int \<Rightarrow> TcpServer" where
  "new_TcpServer port = \<lparr>m_port = port, m_listen_sock = -1\<rparr>"

definition Socket :: "os \<Rightarrow> TcpServer \<Rightarrow> world \<Rightarrow> world + TcpServer \<times> world" where
  "Socket os t w =
     (case sys_socket os w of (r, w1) \<Rightarrow>
        if r < 0 then ERR_EXIT ''socket'' w1
        else Inr (t\<lparr>m_listen_sock := r\<rparr>, emit (EvSetsockopt r) (emit (EvLog INFO ''socket success'') w1)))"

text \<open>\<open>sin_port\<close> has 16 bits: the port is cut to them before its bytes are swapped.\<close>

definition Bind :: "os \<Rightarrow> TcpServer \<Rightarrow> world \<Rightarrow> world + TcpServer \<times> world" where
  "Bind os t w =
     (case sys_bind os (m_listen_sock t) (htons (word_of_int (m_port t))) w of (r, w1) \<Rightarrow>
        if r < 0 then ERR_EXIT ''bind'' w1
        else Inr (t, emit (EvLog INFO ''bind success'') w1))"

definition Listen :: "os \<Rightarrow> TcpServer \<Rightarrow> world \<Rightarrow> world + TcpServer \<times> world" where
  "Listen os t w =
     (case sys_listen os (m_listen_sock t) BACKLOG w of (r, w1) \<Rightarrow>
        if r < 0 then ERR_EXIT ''listen'' w1
        else Inr (t, emit (EvLog INFO ''listen success'') w1))"

definition TcpServer_InitServer :: "os \<Rightarrow> TcpServer \<Rightarrow> world \<Rightarrow> world + TcpServer \<times> world" where
  "TcpServer_InitServer os t w =
     (case Socket os t w of Inl w' \<Rightarrow> Inl w'
      | Inr (t1, w1) \<Rightarrow> (case Bind os t1 w1 of Inl w' \<Rightarrow> Inl w'
          | Inr (t2, w2) \<Rightarrow> (case Listen os t2 w2 of Inl w' \<Rightarrow> Inl w'
              | Inr (t3, w3) \<Rightarrow> Inr (t3, emit (EvLog INFO ''InitServer success..'') w3))))"

text \<open>
  \<open>GetTcpServer\<close> for one thread: \<open>svr\<close> is the static member before the call, and the answer is its
  value afterwards, which is also what is returned.
\<close>

definition GetTcpServer :: "os \<Rightarrow> int \<Rightarrow> TcpServer option \<Rightarrow> world \<Rightarrow> world + TcpServer \<times> world" where
  "GetTcpServer os port svr w =
     (case svr of
        None \<Rightarrow> TcpServer_InitServer os (new_TcpServer port) w
      | Some t \<Rightarrow> Inr (t, w))"

section \<open>Properties\<close>

lemma EMFILE_nonneg [simp]: "0 \<le> EMFILE" by (simp add: EMFILE_def)

lemmas socket_calls [os_calls] = sys_socket_def sys_bind_def sys_listen_def

lemmas socket_operations [server_defs] = TcpServer_InitServer_def Socket_def Bind_def Listen_def ERR_EXIT_def

text \<open>A system on which the three calls answer without error.\<close>

definition socket_calls_ok :: "os \<Rightarrow> bool" where
  "socket_calls_ok os \<longleftrightarrow> (\<forall>h. 0 \<le> os_socket os h) \<and> (\<forall>h fd p. 0 \<le> os_bind os h fd p) \<and> (\<forall>h fd. 0 \<le> os_listen os h fd)"

text \<open>The events of a successful start.\<close>

definition init_events :: "os \<Rightarrow> int \<Rightarrow> event list \<Rightarrow> event list" where
  "init_events os port h =
     (let s = os_socket os h;
          e1 = [EvSocket s, EvLog INFO ''socket success'', EvSetsockopt s];
          p = htons (word_of_int port);
          e2 = e1 @ [EvBind s p (os_bind os (h @ e1) s p), EvLog INFO ''bind success'']
      in e2 @ [EvListen s BACKLOG (os_listen os (h @ e2) s), EvLog INFO ''listen success'',
               EvLog INFO ''InitServer success..''])"

lemma InitServer_ok:
  assumes "socket_calls_ok os"
  shows "TcpServer_InitServer os (new_TcpServer port) w =
    Inr (\<lparr>m_port = port, m_listen_sock = os_socket os (trace w)\<rparr>,
         w\<lparr>trace := trace w @ init_events os port (trace w)\<rparr>)"
proof -
  have "\<not> os_socket os h < 0" "\<not> os_bind os h fd p < 0" "\<not> os_listen os h fd < 0" for h fd p
    using assms by (simp_all add: socket_calls_ok_def not_less)
  then show ?thesis
    by (simp add: server_defs os_calls Let_def emit_def new_TcpServer_def init_events_def)
qed

text \<open>
  A start either ends in a server whose three calls all succeeded, in this
  order on the same socket, or the process exits with status 1 right after the message for
  the first call that failed; nothing is listening then.
\<close>

theorem InitServer_cases:
  "\<exists>es. case TcpServer_InitServer os (new_TcpServer port) w of
     Inl w' \<Rightarrow> trace w' = trace w @ es @ [EvExit 1] \<and>
       (\<exists>m \<in> {''socket'', ''bind'', ''listen''}. last es = EvErr m) \<and> (\<forall>s b r. EvListen s b r \<in> set es \<longrightarrow> r < 0)
   | Inr (t, w') \<Rightarrow> trace w' = trace w @ es \<and> m_port t = port \<and> 0 \<le> m_listen_sock t \<and>
       es = init_events os port (trace w) \<and>
       (\<exists>r. EvListen (m_listen_sock t) BACKLOG r \<in> set es \<and> 0 \<le> r)"
proof -
  show ?thesis
    by (auto simp: server_defs os_calls Let_def emit_def new_TcpServer_def init_events_def not_less split: if_splits)
qed

text \<open>
  The port is cut to 16 bits without a check: two ports that differ by a
  multiple of 65536 bind the same socket address.
\<close>

theorem port_wraps:
  "TcpServer_InitServer os (new_TcpServer (port + k * 65536)) w =
     map_sum id (map_prod (\<lambda>t. t\<lparr>m_port := port + k * 65536\<rparr>) id) (TcpServer_InitServer os (new_TcpServer port) w)"
proof -
  have "(word_of_int (port + k * 65536) :: 16 word) = word_of_int port"
    by (simp only: word_of_int_eq_iff take_bit_eq_mod) simp
  then show ?thesis
    by (simp add: server_defs os_calls Let_def emit_def new_TcpServer_def)
qed

text \<open>
  \<open>GetTcpServer\<close> makes one server: a later call returns the same one whatever
  port it asks for, and does nothing else.
\<close>

theorem GetTcpServer_once:
  assumes "GetTcpServer os port None w = Inr (t, w1)"
  shows "m_port t = port \<and> GetTcpServer os port' (Some t) w' = Inr (t, w')"
  using assms by (auto simp: GetTcpServer_def server_defs os_calls Let_def emit_def new_TcpServer_def split: if_splits)

lemma InitServer_cases_witness:
  "\<exists>os w' es. (\<forall>h. os_socket os h = -1) \<and>
    TcpServer_InitServer os (new_TcpServer 8081) \<lparr>sock_in = [], trace = []\<rparr> = Inl w' \<and>
    trace w' = [] @ es @ [EvExit 1] \<and> (\<exists>m \<in> {''socket'', ''bind'', ''listen''}. last es = EvErr m)"
proof -
  let ?w = "\<lparr>sock_in = [], trace = []\<rparr> :: world"
  obtain os :: os where ok: "\<forall>h. os_socket os h = -1"
  proof
    fix os :: os
    show "\<forall>h. os_socket (os\<lparr>os_socket := \<lambda>h. -1\<rparr>) h = -1" by simp
  qed
  then obtain w' where "TcpServer_InitServer os (new_TcpServer 8081) ?w = Inl w'"
    by (simp add: server_defs os_calls Let_def)
  then show ?thesis using InitServer_cases [where os = os and port = 8081 and w = ?w] ok by fastforce
qed

lemma GetTcpServer_once_witness:
  "\<exists>os t w1. GetTcpServer os 8081 None \<lparr>sock_in = [], trace = []\<rparr> = Inr (t, w1) \<and> m_port t = 8081 \<and>
    GetTcpServer os 80 (Some t) w1 = Inr (t, w1)"
proof -
  let ?w = "\<lparr>sock_in = [], trace = []\<rparr> :: world"
  obtain os :: os where ok: "socket_calls_ok os"
  proof
    fix os :: os
    show "socket_calls_ok (os\<lparr>os_socket := (\<lambda>h. 3), os_bind := (\<lambda>h fd p. 0), os_listen := (\<lambda>h fd. 0)\<rparr>)"
      by (simp add: socket_calls_ok_def)
  qed
  obtain t w1 where g: "GetTcpServer os 8081 None ?w = Inr (t, w1)"
    using InitServer_ok [OF ok, of 8081 ?w] by (auto simp: GetTcpServer_def)
  from GetTcpServer_once [OF g, of 80 w1] g show ?thesis by blast
qed

end
