(* ===== verification/Thread_Pool.thy ===== *)
theory Thread_Pool
  imports Prelude
begin

text \<open>
  The thread pool (src/thread_pool.cc, include/thread_pool.h, include/task.h): one producer,
  the thread that accepts connections, and a fixed number of workers share a queue under a
  mutex and a condition variable. The state holds where every thread is between two of its
  calls; a step is one call of one thread, so every interleaving of the calls is a run.
\<close>

section \<open>State\<close>

text \<open>A task is the socket it serves.\<close>

type_synonym task = int

text \<open>
  A worker: before \<open>ThreadRoutine\<close> enters its loop, at \<open>Lock()\<close>, at the test of \<open>Size()\<close>,
  blocked in \<open>Wait()\<close>, woken and acquiring the mutex again, at \<open>PopTask\<close>, at \<open>UnLock()\<close> with its
  task, and at \<open>HanderTask()\<close>.
\<close>

datatype wpc = WStart | WLock | WTest | WWait | WWake | WPop | WUnlock task | WRun task

text \<open>
  The producer: waiting for a connection, and in \<open>PushTask\<close> at \<open>Lock()\<close>, at the push, at
  \<open>UnLock()\<close>, at the test of \<open>m_q.size()\<close> outside the lock, and at \<open>SignalThread()\<close>.
\<close>

datatype mpc = MIdle | MLock task | MPush task | MUnlock | MCheck | MSignal

datatype thread = Main | Worker nat

text \<open>
  \<open>m_mutex\<close> holds the owner; the waiters of \<open>m_cond\<close> are the workers at \<open>WWait\<close>. The last
  three fields are history: what was pushed, what was popped and who handled what.
\<close>

record pool =
  m_mutex :: "thread option"
  m_q :: "task list"
  workers :: "wpc list"
  main_pc :: mpc
  todo :: "task list"
  crashed :: bool
  pushed :: "task list"
  popped :: "task list"
  handled :: "(nat \<times> task) list"

definition NUM :: nat where
  "NUM = 3"

text \<open>
  The constructor sets the number of threads, \<open>InitThreadPool\<close> starts them. The result of
  \<open>pthread_create\<close> is ignored: \<open>created i\<close> says whether the \<open>i\<close>-th call succeeded.
\<close>

definition InitThreadPool :: "(nat \<Rightarrow> bool) \<Rightarrow> nat \<Rightarrow> wpc list" where
  "InitThreadPool created num = map (\<lambda>_. WStart) (filter created [0..<num])"

definition new_pool :: "wpc list \<Rightarrow> task list \<Rightarrow> pool" where
  "new_pool ws ts = \<lparr>m_mutex = None, m_q = [], workers = ws, main_pc = MIdle, todo = ts,
     crashed = False, pushed = [], popped = [], handled = []\<rparr>"

section \<open>Operations\<close>

definition Size :: "pool \<Rightarrow> nat" where
  "Size s = length (m_q s)"

definition Lock :: "thread \<Rightarrow> pool \<Rightarrow> pool option" where
  "Lock t s = (if m_mutex s = None then Some (s\<lparr>m_mutex := Some t\<rparr>) else None)"

definition UnLock :: "pool \<Rightarrow> pool" where
  "UnLock s = s\<lparr>m_mutex := None\<rparr>"

definition push :: "task \<Rightarrow> pool \<Rightarrow> pool" where
  "push t s = s\<lparr>m_q := m_q s @ [t], pushed := pushed s @ [t]\<rparr>"

text \<open>\<open>front\<close> and \<open>pop\<close> of an empty queue are undefined behaviour: no result.\<close>

definition PopTask :: "pool \<Rightarrow> (task \<times> pool) option" where
  "PopTask s = (case m_q s of [] \<Rightarrow> None
     | t # q \<Rightarrow> Some (t, s\<lparr>m_q := q, popped := popped s @ [t]\<rparr>))"

definition at :: "pool \<Rightarrow> nat \<Rightarrow> wpc \<Rightarrow> bool" where
  "at s i pc \<longleftrightarrow> i < length (workers s) \<and> workers s ! i = pc"

definition goto :: "nat \<Rightarrow> wpc \<Rightarrow> pool \<Rightarrow> pool" where
  "goto i pc s = s\<lparr>workers := (workers s)[i := pc]\<rparr>"

definition main_goto :: "mpc \<Rightarrow> pool \<Rightarrow> pool" where
  "main_goto pc s = s\<lparr>main_pc := pc\<rparr>"

text \<open>\<open>Wait()\<close> gives the mutex up and blocks in one step.\<close>

definition Wait :: "nat \<Rightarrow> pool \<Rightarrow> pool" where
  "Wait i s = goto i WWait (UnLock s)"

text \<open>\<open>HanderTask()\<close>: the connection's handler runs to its end.\<close>

definition HanderTask :: "nat \<Rightarrow> task \<Rightarrow> pool \<Rightarrow> pool" where
  "HanderTask i t s = s\<lparr>handled := handled s @ [(i, t)]\<rparr>"

section \<open>Steps\<close>

text \<open>
  Who acts: worker \<open>i\<close>, the producer, the producer whose signal wakes worker \<open>i\<close>, or
  nobody, when the wait of worker \<open>i\<close> returns on its own.
\<close>

datatype act = AWorker nat | AMain | ASignal nat | ASpurious nat

inductive pool_step :: "pool \<Rightarrow> act \<Rightarrow> pool \<Rightarrow> bool" where
  worker_start: "at s i WStart \<Longrightarrow> pool_step s (AWorker i) (goto i WLock s)"
| worker_lock: "at s i WLock \<Longrightarrow> Lock (Worker i) s = Some s' \<Longrightarrow> pool_step s (AWorker i) (goto i WTest s')"
| worker_wait: "at s i WTest \<Longrightarrow> Size s = 0 \<Longrightarrow> pool_step s (AWorker i) (Wait i s)"
| worker_go: "at s i WTest \<Longrightarrow> Size s \<noteq> 0 \<Longrightarrow> pool_step s (AWorker i) (goto i WPop s)"
| worker_wake: "at s i WWake \<Longrightarrow> Lock (Worker i) s = Some s' \<Longrightarrow> pool_step s (AWorker i) (goto i WTest s')"
| worker_pop: "at s i WPop \<Longrightarrow> PopTask s = Some (t, s') \<Longrightarrow> pool_step s (AWorker i) (goto i (WUnlock t) s')"
| worker_crash: "at s i WPop \<Longrightarrow> PopTask s = None \<Longrightarrow> pool_step s (AWorker i) (s\<lparr>crashed := True\<rparr>)"
| worker_unlock: "at s i (WUnlock t) \<Longrightarrow> pool_step s (AWorker i) (goto i (WRun t) (UnLock s))"
| worker_run: "at s i (WRun t) \<Longrightarrow> pool_step s (AWorker i) (goto i WLock (HanderTask i t s))"
| spurious: "at s i WWait \<Longrightarrow> pool_step s (ASpurious i) (goto i WWake s)"
| main_accept: "main_pc s = MIdle \<Longrightarrow> todo s = t # ts \<Longrightarrow>
    pool_step s AMain (main_goto (MLock t) (s\<lparr>todo := ts\<rparr>))"
| main_lock: "main_pc s = MLock t \<Longrightarrow> Lock Main s = Some s' \<Longrightarrow> pool_step s AMain (main_goto (MPush t) s')"
| main_push: "main_pc s = MPush t \<Longrightarrow> pool_step s AMain (main_goto MUnlock (push t s))"
| main_unlock: "main_pc s = MUnlock \<Longrightarrow> pool_step s AMain (main_goto MCheck (UnLock s))"
| main_check: "main_pc s = MCheck \<Longrightarrow> 0 < Size s \<Longrightarrow> pool_step s AMain (main_goto MSignal s)"
| main_skip: "main_pc s = MCheck \<Longrightarrow> Size s = 0 \<Longrightarrow> pool_step s AMain (main_goto MIdle s)"
| main_signal: "main_pc s = MSignal \<Longrightarrow> at s i WWait \<Longrightarrow>
    pool_step s (ASignal i) (main_goto MIdle (goto i WWake s))"
| main_signal_none: "main_pc s = MSignal \<Longrightarrow> \<forall>i < length (workers s). workers s ! i \<noteq> WWait \<Longrightarrow>
    pool_step s AMain (main_goto MIdle s)"

inductive_cases WorkerE: "pool_step s (AWorker i) s'"
inductive_cases MainE: "pool_step s AMain s'"
inductive_cases SignalE: "pool_step s (ASignal i) s'"
inductive_cases SpuriousE: "pool_step s (ASpurious i) s'"

inductive_simps spurious_iff: "pool_step s (ASpurious i) s'"
inductive_simps signal_iff: "pool_step s (ASignal i) s'"

text \<open>A run: the actions taken and the state reached.\<close>

inductive pool_run :: "pool \<Rightarrow> act list \<Rightarrow> pool \<Rightarrow> bool" where
  run_Nil: "pool_run s [] s"
| run_snoc: "pool_run s as s1 \<Longrightarrow> pool_step s1 a s2 \<Longrightarrow> pool_run s (as @ [a]) s2"

text \<open>The same steps as a function of the action.\<close>

fun exec_step :: "act \<Rightarrow> pool \<Rightarrow> pool option" where
  "exec_step (AWorker i) s =
     (if i < length (workers s) then
        (case workers s ! i of
           WStart \<Rightarrow> Some (goto i WLock s)
         | WLock \<Rightarrow> map_option (goto i WTest) (Lock (Worker i) s)
         | WTest \<Rightarrow> Some (if Size s = 0 then Wait i s else goto i WPop s)
         | WWait \<Rightarrow> None
         | WWake \<Rightarrow> map_option (goto i WTest) (Lock (Worker i) s)
         | WPop \<Rightarrow> (case PopTask s of None \<Rightarrow> Some (s\<lparr>crashed := True\<rparr>)
                   | Some (t, s') \<Rightarrow> Some (goto i (WUnlock t) s'))
         | WUnlock t \<Rightarrow> Some (goto i (WRun t) (UnLock s))
         | WRun t \<Rightarrow> Some (goto i WLock (HanderTask i t s)))
      else None)"
| "exec_step AMain s =
     (case main_pc s of
        MIdle \<Rightarrow> (case todo s of [] \<Rightarrow> None | t # ts \<Rightarrow> Some (main_goto (MLock t) (s\<lparr>todo := ts\<rparr>)))
      | MLock t \<Rightarrow> map_option (main_goto (MPush t)) (Lock Main s)
      | MPush t \<Rightarrow> Some (main_goto MUnlock (push t s))
      | MUnlock \<Rightarrow> Some (main_goto MCheck (UnLock s))
      | MCheck \<Rightarrow> Some (main_goto (if 0 < Size s then MSignal else MIdle) s)
      | MSignal \<Rightarrow> if WWait \<in> set (workers s) then None else Some (main_goto MIdle s))"
| "exec_step (ASignal i) s =
     (if main_pc s = MSignal \<and> i < length (workers s) \<and> workers s ! i = WWait
      then Some (main_goto MIdle (goto i WWake s)) else None)"
| "exec_step (ASpurious i) s =
     (if i < length (workers s) \<and> workers s ! i = WWait then Some (goto i WWake s) else None)"

fun exec_run :: "act list \<Rightarrow> pool \<Rightarrow> pool option" where
  "exec_run [] s = Some s"
| "exec_run (a # as) s = (case exec_step a s of None \<Rightarrow> None | Some s' \<Rightarrow> exec_run as s')"

lemma exec_step_iff: "exec_step a s = Some s' \<longleftrightarrow> pool_step s a s'"
proof
  assume "exec_step a s = Some s'"
  then show "pool_step s a s'"
    by (cases "(a, s)" rule: exec_step.cases)
       (auto simp: at_def in_set_conv_nth intro: pool_step.intros
          split: if_splits wpc.splits mpc.splits list.splits option.splits)
next
  assume "pool_step s a s'"
  then show "exec_step a s = Some s'"
    by (cases rule: pool_step.cases) (auto simp: at_def in_set_conv_nth)
qed

section \<open>The queue of tasks\<close>

text \<open>
  What the pool relies on of its queue: tasks come out in the order they went in. The
  history of a queue is in order when what went in is what came out and then what is there.
\<close>

definition in_order :: "('q \<Rightarrow> 'a list) \<Rightarrow> 'a list \<Rightarrow> 'a list \<Rightarrow> 'q \<Rightarrow> bool" where
  "in_order cont ins outs q \<longleftrightarrow> ins = outs @ cont q"

locale fifo =
  fixes enq :: "'a \<Rightarrow> 'q \<Rightarrow> 'q" and deq :: "'q \<Rightarrow> ('a \<times> 'q) option" and cont :: "'q \<Rightarrow> 'a list"
  assumes cont_enq: "cont (enq x q) = cont q @ [x]"
    and deq_empty: "deq q = None \<longleftrightarrow> cont q = []"
    and deq_cont: "deq q = Some (x, q') \<Longrightarrow> cont q = x # cont q'"
begin

lemma in_order_enq: "in_order cont ins outs q \<Longrightarrow> in_order cont (ins @ [x]) outs (enq x q)"
  by (simp add: in_order_def cont_enq)

lemma in_order_deq: "in_order cont ins outs q \<Longrightarrow> deq q = Some (x, q') \<Longrightarrow> in_order cont ins (outs @ [x]) q'"
  using deq_cont by (simp add: in_order_def)

lemma deq_some: "cont q \<noteq> [] \<Longrightarrow> \<exists>x q'. deq q = Some (x, q')"
  using deq_empty by (cases "deq q") auto

lemma deq_hd: "deq q = Some (x, q') \<Longrightarrow> x \<in> set (cont q) \<and> length (cont q) = Suc (length (cont q'))"
  using deq_cont by simp

end

interpretation task_queue: fifo push PopTask m_q
  by unfold_locales (auto simp: push_def PopTask_def split: list.splits)

section \<open>Invariants\<close>

fun critical :: "wpc \<Rightarrow> bool" where
  "critical WTest = True"
| "critical WPop = True"
| "critical (WUnlock t) = True"
| "critical _ = False"

fun main_critical :: "mpc \<Rightarrow> bool" where
  "main_critical (MPush t) = True"
| "main_critical MUnlock = True"
| "main_critical _ = False"

fun inside :: "pool \<Rightarrow> thread \<Rightarrow> bool" where
  "inside s Main = main_critical (main_pc s)"
| "inside s (Worker i) = (i < length (workers s) \<and> critical (workers s ! i))"

text \<open>The mutex is owned exactly by the thread inside the critical section.\<close>

definition insiders :: "pool \<Rightarrow> thread set" where
  "insiders s = {t. inside s t}"

definition lock_inv :: "pool \<Rightarrow> bool" where
  "lock_inv s \<longleftrightarrow> insiders s = set_option (m_mutex s)"

text \<open>A worker that is about to pop has a task to pop.\<close>

definition pop_inv :: "pool \<Rightarrow> bool" where
  "pop_inv s \<longleftrightarrow> \<not> crashed s \<and> (WPop \<in> set (workers s) \<longrightarrow> m_q s \<noteq> [])"

text \<open>No wakeup is lost: tasks wait while all workers sleep only until the producer signals.\<close>

definition wake_inv :: "pool \<Rightarrow> bool" where
  "wake_inv s \<longleftrightarrow> (m_q s \<noteq> [] \<and> workers s \<noteq> [] \<and> set (workers s) \<subseteq> {WWait} \<longrightarrow>
     main_pc s \<in> {MUnlock, MCheck, MSignal})"

fun in_hand :: "mpc \<Rightarrow> task list" where
  "in_hand (MLock t) = [t]"
| "in_hand (MPush t) = [t]"
| "in_hand _ = []"

fun held :: "wpc \<Rightarrow> task multiset" where
  "held (WUnlock t) = {#t#}"
| "held (WRun t) = {#t#}"
| "held _ = {#}"

text \<open>Every task is at one place: to come, in the producer's hand, queued, held or handled.\<close>

definition task_inv :: "task list \<Rightarrow> pool \<Rightarrow> bool" where
  "task_inv ts s \<longleftrightarrow> in_order m_q (pushed s) (popped s) s \<and>
     ts = pushed s @ in_hand (main_pc s) @ todo s \<and>
     mset (popped s) = mset (map snd (handled s)) + (\<Sum>pc \<in># mset (workers s). held pc)"

lemma pool_simps [simp]:
  "workers (goto i pc s) = (workers s)[i := pc]" "m_q (goto i pc s) = m_q s" "m_mutex (goto i pc s) = m_mutex s"
  "main_pc (goto i pc s) = main_pc s" "todo (goto i pc s) = todo s" "crashed (goto i pc s) = crashed s"
  "pushed (goto i pc s) = pushed s" "popped (goto i pc s) = popped s" "handled (goto i pc s) = handled s"
  "workers (main_goto m s) = workers s" "m_q (main_goto m s) = m_q s" "m_mutex (main_goto m s) = m_mutex s"
  "main_pc (main_goto m s) = m" "todo (main_goto m s) = todo s" "crashed (main_goto m s) = crashed s"
  "pushed (main_goto m s) = pushed s" "popped (main_goto m s) = popped s" "handled (main_goto m s) = handled s"
  by (simp_all add: goto_def main_goto_def)

lemma op_simps [simp]:
  "workers (push t s) = workers s" "m_mutex (push t s) = m_mutex s" "main_pc (push t s) = main_pc s"
  "todo (push t s) = todo s" "crashed (push t s) = crashed s" "pushed (push t s) = pushed s @ [t]"
  "popped (push t s) = popped s" "handled (push t s) = handled s" "m_q (push t s) = m_q s @ [t]"
  "workers (UnLock s) = workers s" "m_q (UnLock s) = m_q s" "m_mutex (UnLock s) = None"
  "main_pc (UnLock s) = main_pc s" "todo (UnLock s) = todo s" "crashed (UnLock s) = crashed s"
  "pushed (UnLock s) = pushed s" "popped (UnLock s) = popped s" "handled (UnLock s) = handled s"
  "workers (HanderTask i t s) = workers s" "m_q (HanderTask i t s) = m_q s"
  "m_mutex (HanderTask i t s) = m_mutex s" "main_pc (HanderTask i t s) = main_pc s"
  "todo (HanderTask i t s) = todo s" "crashed (HanderTask i t s) = crashed s"
  "pushed (HanderTask i t s) = pushed s" "popped (HanderTask i t s) = popped s"
  "handled (HanderTask i t s) = handled s @ [(i, t)]"
  by (simp_all add: push_def UnLock_def HanderTask_def)

lemma Lock_Some: "Lock t s = Some s' \<longleftrightarrow> m_mutex s = None \<and> s' = s\<lparr>m_mutex := Some t\<rparr>"
  by (auto simp: Lock_def)

lemma PopTask_Some: "PopTask s = Some (t, s') \<longleftrightarrow> (\<exists>q. m_q s = t # q \<and> s' = s\<lparr>m_q := q, popped := popped s @ [t]\<rparr>)"
  by (auto simp: PopTask_def split: list.splits)

lemma PopTask_None: "PopTask s = None \<longleftrightarrow> m_q s = []"
  by (rule task_queue.deq_empty)

lemma insiders_goto:
  assumes "i < length (workers s)"
  shows "insiders (goto i pc s) =
    (if critical pc then insert (Worker i) (insiders s) else insiders s - {Worker i})"
proof -
  have "inside (goto i pc s) t = (if t = Worker i then critical pc else inside s t)" for t
    using assms by (cases t) auto
  then show ?thesis by (auto simp: insiders_def)
qed

lemma insiders_main: "insiders (main_goto m s) =
    (if main_critical m then insert Main (insiders s) else insiders s - {Main})"
proof -
  have "inside (main_goto m s) t = (if t = Main then main_critical m else inside s t)" for t
    by (cases t) auto
  then show ?thesis by (auto simp: insiders_def)
qed

lemma insiders_ops [simp]:
  "insiders (UnLock s) = insiders s" "insiders (push x s) = insiders s"
  "insiders (HanderTask i x s) = insiders s" "insiders (s\<lparr>m_mutex := m\<rparr>) = insiders s"
  "insiders (s\<lparr>m_q := q, popped := p\<rparr>) = insiders s" "insiders (s\<lparr>todo := ts\<rparr>) = insiders s"
  "insiders (s\<lparr>crashed := b\<rparr>) = insiders s"
proof -
  have same: "insiders s' = insiders s" if "workers s' = workers s" "main_pc s' = main_pc s" for s' :: pool
  proof -
    have "inside s' t = inside s t" for t using that by (cases t) auto
    then show ?thesis by (simp add: insiders_def)
  qed
  show "insiders (UnLock s) = insiders s" "insiders (push x s) = insiders s"
    "insiders (HanderTask i x s) = insiders s" "insiders (s\<lparr>m_mutex := m\<rparr>) = insiders s"
    "insiders (s\<lparr>m_q := q, popped := p\<rparr>) = insiders s" "insiders (s\<lparr>todo := ts\<rparr>) = insiders s"
    "insiders (s\<lparr>crashed := b\<rparr>) = insiders s"
    by (rule same; simp)+
qed

lemma at_insiders: "at s i pc \<Longrightarrow> Worker i \<in> insiders s \<longleftrightarrow> critical pc"
  by (auto simp: at_def insiders_def)

lemma main_insiders: "Main \<in> insiders s \<longleftrightarrow> main_critical (main_pc s)"
  by (simp add: insiders_def)

lemma at_length: "at s i pc \<Longrightarrow> i < length (workers s)"
  by (simp add: at_def)

text \<open>A thread moves without the lock changing hands, takes the lock, or gives it up.\<close>

lemma insiders_stay: "at s i old \<Longrightarrow> critical pc = critical old \<Longrightarrow> insiders (goto i pc s) = insiders s"
  using insiders_goto [OF at_length] at_insiders by (metis Diff_empty Diff_insert0 insert_absorb)

lemma insiders_enter: "at s i old \<Longrightarrow> critical pc \<Longrightarrow> insiders (goto i pc s) = insert (Worker i) (insiders s)"
  using insiders_goto [OF at_length] by simp

lemma insiders_leave: "at s i old \<Longrightarrow> \<not> critical pc \<Longrightarrow> insiders (goto i pc s) = insiders s - {Worker i}"
  using insiders_goto [OF at_length] by simp

lemma main_stay: "main_critical pc = main_critical (main_pc s) \<Longrightarrow> insiders (main_goto pc s) = insiders s"
  using insiders_main main_insiders by (metis Diff_empty Diff_insert0 insert_absorb)

lemma lock_owner: "lock_inv s \<Longrightarrow> t \<in> insiders s \<Longrightarrow> insiders s = {t} \<and> m_mutex s = Some t"
  by (cases "m_mutex s") (auto simp: lock_inv_def)

lemma at_ops [simp]: "at (push x s) i pc = at s i pc" "at (HanderTask j x s) i pc = at s i pc"
  "at (s\<lparr>m_q := q, popped := p\<rparr>) i pc = at s i pc" "at (UnLock s) i pc = at s i pc"
  "at (s\<lparr>m_mutex := m\<rparr>) i pc = at s i pc"
  by (simp_all add: at_def)

lemma lock_inv_step: "pool_step s a s' \<Longrightarrow> lock_inv s \<Longrightarrow> lock_inv s'"
proof (induction rule: pool_step.induct)
  case (worker_lock s i s')
  then show ?case by (simp add: lock_inv_def Lock_Some insiders_enter [of _ i WLock])
next
  case (worker_wake s i s')
  then show ?case by (simp add: lock_inv_def Lock_Some insiders_enter [of _ i WWake])
next
  case (worker_wait s i)
  then show ?case using lock_owner [of s "Worker i"] at_insiders [of s i WTest]
    by (simp add: lock_inv_def Wait_def insiders_leave [of _ i WTest])
next
  case (worker_unlock s i t)
  then show ?case using lock_owner [of s "Worker i"] at_insiders [of s i "WUnlock t"]
    by (simp add: lock_inv_def insiders_leave [of _ i "WUnlock t"])
next
  case (worker_pop s i t s')
  then show ?case by (auto simp: lock_inv_def PopTask_Some insiders_stay [of _ i WPop])
next
  case (main_unlock s)
  then show ?case using lock_owner [of s Main] main_insiders [of s]
    by (simp add: lock_inv_def insiders_main)
next
  case (main_push s t)
  then show ?case using main_insiders [of s] by (simp add: lock_inv_def insiders_main insert_absorb)
next
  case (main_signal s i)
  then show ?case using main_insiders [of s]
    by (simp add: lock_inv_def insiders_main insiders_stay [of s i WWait])
next
  case (main_lock s t s')
  then show ?case by (simp add: lock_inv_def Lock_Some insiders_main)
qed (simp_all add: lock_inv_def insiders_stay main_stay)

lemma pop_inv_step:
  assumes "pool_step s a s'" "lock_inv s" "pop_inv s"
  shows "pop_inv s'"
  using assms
proof (induction rule: pool_step.induct)
  case (worker_pop s i t s')
  have "insiders s = {Worker i}" using lock_owner worker_pop at_insiders [of s i WPop] by simp
  then have "\<not> at s j WPop" if "j \<noteq> i" for j using at_insiders [of s j WPop] that by auto
  then have "WPop \<notin> set ((workers s)[i := WUnlock t])"
    using worker_pop(1) by (auto simp: in_set_conv_nth nth_list_update at_def split: if_splits)
  then show ?case using worker_pop by (auto simp: pop_inv_def PopTask_Some)
next
  case (worker_go s i)
  then show ?case by (auto simp: pop_inv_def Size_def)
next
  case (worker_crash s i)
  then show ?case by (auto simp: pop_inv_def at_def PopTask_None in_set_conv_nth)
qed (auto simp: pop_inv_def Lock_Some Wait_def dest: set_update_subset_insert [THEN subsetD])

lemma waiting_goto [simp]: "i < length ws \<Longrightarrow> pc \<noteq> WWait \<Longrightarrow> \<not> set (ws[i := pc]) \<subseteq> {WWait}"
  by (meson set_update_memI singletonD subsetD)

lemma all_waiting: "ws \<noteq> [] \<Longrightarrow> set ws \<subseteq> {WWait} \<Longrightarrow> 0 < length ws \<and> ws ! 0 = WWait"
  by (cases ws) auto

lemma wake_inv_step: "pool_step s a s' \<Longrightarrow> wake_inv s \<Longrightarrow> wake_inv s'"
proof (induction rule: pool_step.induct)
  case (main_signal_none s)
  then show ?case using all_waiting [of "workers s"] by (auto simp: wake_inv_def)
next
  case (worker_pop s i t s')
  then show ?case by (auto simp: wake_inv_def PopTask_Some at_length)
qed (simp_all add: wake_inv_def Lock_Some Wait_def Size_def at_length)


section \<open>Where the tasks are\<close>

lemma sum_goto:
  fixes f :: "wpc \<Rightarrow> 'a :: cancel_comm_monoid_add"
  assumes "at s i old"
  shows "(\<Sum>pc \<in># mset (workers (goto i new s)). f pc) + f old = (\<Sum>pc \<in># mset (workers s). f pc) + f new"
proof -
  have i: "i < length (workers s)" "workers s ! i = old" using assms by (simp_all add: at_def)
  then have "mset (workers s) = add_mset old (mset (workers s) - {#old#})"
    by (metis insert_DiffM nth_mem_mset)
  then have "(\<Sum>pc \<in># mset (workers s). f pc) = f old + (\<Sum>pc \<in># mset (workers s) - {#old#}. f pc)"
    by (metis image_mset_add_mset sum_mset.add_mset)
  moreover have "mset (workers (goto i new s)) = add_mset new (mset (workers s) - {#old#})"
    using i mset_update [of i "workers s" new] by simp
  ultimately show ?thesis by (simp add: ac_simps)
qed

lemma task_inv_goto:
  assumes "at s i old" "held new = held old" "task_inv ts s"
  shows "task_inv ts (goto i new s)"
  using sum_goto [OF assms(1), of held new] assms(2,3) by (simp add: task_inv_def in_order_def)

lemma task_inv_step: "pool_step s a s' \<Longrightarrow> task_inv ts s \<Longrightarrow> task_inv ts s'"
proof (induction rule: pool_step.induct)
  case (worker_pop s i t s')
  have "task_inv ts s" by fact
  moreover have "in_order m_q (pushed s) (popped s @ [t]) s'"
    by (rule task_queue.in_order_deq [OF _ worker_pop(2)]) (use worker_pop(3) in \<open>simp add: task_inv_def\<close>)
  moreover obtain q where "m_q s = t # q" "s' = s\<lparr>m_q := q, popped := popped s @ [t]\<rparr>"
    using worker_pop(2) by (auto simp: PopTask_Some)
  ultimately show ?case using sum_goto [OF worker_pop(1), of held "WUnlock t"]
    by (simp add: task_inv_def in_order_def)
next
  case (worker_run s i t)
  have "mset (map snd (handled s)) + (\<Sum>pc \<in># mset (workers s). held pc) =
      add_mset t (mset (map snd (handled s))) + (\<Sum>pc \<in># mset (workers (goto i WLock s)). held pc)"
    using sum_goto [OF worker_run(1), of held WLock] by (simp add: ac_simps)
  then show ?case using worker_run by (simp add: task_inv_def in_order_def)
next
  case (main_push s t)
  then show ?case using task_queue.in_order_enq by (simp add: task_inv_def in_order_def)
next
  case (main_signal s i)
  then show ?case using task_inv_goto [of s i WWait WWake ts] by (simp add: task_inv_def in_order_def)
next
  case (worker_unlock s i t)
  then show ?case using task_inv_goto [of "UnLock s" i "WUnlock t" "WRun t" ts]
    by (simp add: task_inv_def in_order_def)
next
  case (worker_wait s i)
  then show ?case using task_inv_goto [of "UnLock s" i WTest WWait ts]
    by (simp add: task_inv_def in_order_def Wait_def)
next
  case (worker_lock s i s')
  then show ?case using task_inv_goto [of s' i WLock WTest ts]
    by (auto simp: task_inv_def in_order_def Lock_Some)
next
  case (worker_wake s i s')
  then show ?case using task_inv_goto [of s' i WWake WTest ts]
    by (auto simp: task_inv_def in_order_def Lock_Some)
next
  case (worker_start s i)
  then show ?case using task_inv_goto [of s i WStart WLock ts] by simp
next
  case (worker_go s i)
  then show ?case using task_inv_goto [of s i WTest WPop ts] by simp
next
  case (spurious s i)
  then show ?case using task_inv_goto [of s i WWait WWake ts] by simp
qed (auto simp: task_inv_def in_order_def Lock_Some)

text \<open>Everything at once, over runs.\<close>

definition pool_inv :: "task list \<Rightarrow> pool \<Rightarrow> bool" where
  "pool_inv ts s \<longleftrightarrow> lock_inv s \<and> pop_inv s \<and> wake_inv s \<and> task_inv ts s"

lemma pool_inv_step: "pool_step s a s' \<Longrightarrow> pool_inv ts s \<Longrightarrow> pool_inv ts s'"
  unfolding pool_inv_def using lock_inv_step pop_inv_step wake_inv_step task_inv_step by blast

lemma workers_length: "pool_step s a s' \<Longrightarrow> length (workers s') = length (workers s)"
  by (induction rule: pool_step.induct) (auto simp: Lock_Some PopTask_Some Wait_def)

lemma InitThreadPool_start: "pc \<in> set (InitThreadPool created num) \<Longrightarrow> pc = WStart"
  by (auto simp: InitThreadPool_def)

lemma pool_inv_init: "pool_inv ts (new_pool (InitThreadPool created num) ts)"
proof -
  let ?s = "new_pool (InitThreadPool created num) ts"
  have "InitThreadPool created num ! i = WStart" if "i < length (InitThreadPool created num)" for i
    by (rule InitThreadPool_start [OF nth_mem [OF that]])
  then have "\<not> inside ?s t" for t by (cases t) (auto simp: new_pool_def)
  then have "lock_inv ?s" by (simp add: lock_inv_def insiders_def new_pool_def)
  moreover have "pop_inv ?s" using InitThreadPool_start [of WPop] by (auto simp: pop_inv_def new_pool_def)
  moreover have "(\<Sum>pc \<in># mset (InitThreadPool created num). held pc) = {#}"
    using InitThreadPool_start by (fastforce simp: sum_mset_0_iff)
  then have "task_inv ts ?s" by (simp add: task_inv_def in_order_def new_pool_def)
  ultimately show ?thesis by (simp add: pool_inv_def wake_inv_def new_pool_def)
qed

lemma pool_run_inv:
  assumes "pool_run (new_pool (InitThreadPool created num) ts) as s"
  shows "pool_inv ts s \<and> length (workers s) = length (InitThreadPool created num)"
  using assms
proof (induction "new_pool (InitThreadPool created num) ts" as s rule: pool_run.induct)
  case run_Nil
  then show ?case using pool_inv_init by (simp add: new_pool_def)
next
  case (run_snoc as s1 a s2)
  then show ?case using pool_inv_step workers_length by metis
qed

section \<open>Termination and progress\<close>

text \<open>How many steps a thread can still take before it sleeps, at most.\<close>

fun wcost :: "wpc \<Rightarrow> nat" where
  "wcost WStart = 4" | "wcost WLock = 3" | "wcost WTest = 2" | "wcost WWait = 0" | "wcost WWake = 3"
| "wcost WPop = 1" | "wcost (WUnlock t) = 5" | "wcost (WRun t) = 4"

fun mcost :: "mpc \<Rightarrow> nat" where
  "mcost MIdle = 0" | "mcost (MLock t) = 15" | "mcost (MPush t) = 14" | "mcost MUnlock = 7"
| "mcost MCheck = 6" | "mcost MSignal = 5"

definition pool_cost :: "pool \<Rightarrow> nat" where
  "pool_cost s = 20 * length (todo s) + mcost (main_pc s) + 6 * length (m_q s) +
     (\<Sum>pc \<in># mset (workers s). wcost pc)"

fun is_spurious :: "act \<Rightarrow> bool" where
  "is_spurious (ASpurious i) = True"
| "is_spurious _ = False"

lemma cost_goto: "at s i old \<Longrightarrow> pool_cost (goto i new s) + wcost old = pool_cost s + wcost new"
  using sum_goto [of s i old wcost new] by (simp add: pool_cost_def)

lemma cost_ops [simp]:
  "pool_cost (UnLock s) = pool_cost s" "pool_cost (HanderTask i x s) = pool_cost s"
  "pool_cost (s\<lparr>m_mutex := m\<rparr>) = pool_cost s" "pool_cost (push x s) = pool_cost s + 6"
  "pool_cost (main_goto pc s) + mcost (main_pc s) = pool_cost s + mcost pc"
  by (simp_all add: pool_cost_def)

lemma cost_step:
  "pool_step s a s' \<Longrightarrow> pop_inv s \<Longrightarrow> Suc (pool_cost s') \<le> pool_cost s + (if is_spurious a then 4 else 0)"
proof (induction rule: pool_step.induct)
  case (worker_pop s i t s')
  then obtain q where "m_q s = t # q" "s' = s\<lparr>m_q := q, popped := popped s @ [t]\<rparr>" by (auto simp: PopTask_Some)
  moreover from this have "at s' i WPop" using worker_pop by simp
  ultimately show ?case using cost_goto [of s' i WPop "WUnlock t"] by (simp add: pool_cost_def)
next
  case (worker_crash s i)
  then show ?case by (auto simp: PopTask_None pop_inv_def at_def in_set_conv_nth)
next
  case (main_accept s t ts)
  then show ?case by (simp add: pool_cost_def)
next
  case (main_signal s i)
  then show ?case using cost_goto [of s i WWait WWake] cost_ops(5) [of MIdle "goto i WWake s"] by simp
next
  case (main_push s t)
  then show ?case using cost_ops(5) [of MUnlock "push t s"] by simp
next
  case (worker_wait s i)
  then show ?case using cost_goto [of "UnLock s" i WTest WWait] by (simp add: Wait_def)
next
  case (worker_unlock s i t)
  then show ?case using cost_goto [of "UnLock s" i "WUnlock t" "WRun t"] by simp
next
  case (worker_run s i t)
  then show ?case using cost_goto [of "HanderTask i t s" i "WRun t" WLock] by simp
next
  case (main_unlock s)
  then show ?case using cost_ops(5) [of MCheck "UnLock s"] by simp
next
  case (worker_lock s i s')
  then show ?case using cost_goto [of s' i WLock WTest] by (auto simp: Lock_Some)
next
  case (worker_wake s i s')
  then show ?case using cost_goto [of s' i WWake WTest] by (auto simp: Lock_Some)
next
  case (main_lock s t s')
  then show ?case using cost_ops(5) [of "MPush t" s'] by (auto simp: Lock_Some)
next
  case (main_check s)
  then show ?case using cost_ops(5) [of MSignal s] by simp
next
  case (main_skip s)
  then show ?case using cost_ops(5) [of MIdle s] by simp
next
  case (main_signal_none s)
  then show ?case using cost_ops(5) [of MIdle s] by simp
next
  case (worker_start s i)
  then show ?case using cost_goto [of s i WStart WLock] by simp
next
  case (worker_go s i)
  then show ?case using cost_goto [of s i WTest WPop] by simp
next
  case (spurious s i)
  then show ?case using cost_goto [of s i WWait WWake] by simp
qed


lemma run_cost:
  assumes "pool_run (new_pool (InitThreadPool created num) ts) as s"
  shows "length as + pool_cost s \<le>
    20 * length ts + 4 * length (InitThreadPool created num) + 4 * length (filter is_spurious as)"
  using assms
proof (induction "new_pool (InitThreadPool created num) ts" as s rule: pool_run.induct)
  case run_Nil
  have "(\<Sum>pc \<in># mset (InitThreadPool created num). wcost pc) = 4 * length (InitThreadPool created num)"
    by (simp only: InitThreadPool_def map_replicate_const) simp
  then show ?case by (simp add: pool_cost_def new_pool_def)
next
  case (run_snoc as s1 a s2)
  have "pop_inv s1" using pool_run_inv run_snoc(1) by (simp add: pool_inv_def)
  from cost_step [OF run_snoc(3) this] run_snoc(2) show ?case by (simp split: if_splits)
qed

text \<open>What a pool looks like in which nothing moves on its own.\<close>

lemma stuck_mutex:
  assumes "lock_inv s" and stuck: "\<And>a s'. pool_step s a s' \<Longrightarrow> is_spurious a"
  shows "m_mutex s = None"
proof (rule ccontr)
  assume "m_mutex s \<noteq> None"
  then obtain t where t: "t \<in> insiders s" using assms(1) by (auto simp: lock_inv_def)
  show False
  proof (cases t)
    case Main
    then have "main_critical (main_pc s)" using t main_insiders by simp
    then show False using main_push main_unlock stuck by (cases "main_pc s") fastforce+
  next
    case (Worker i)
    then have i: "at s i (workers s ! i)" "critical (workers s ! i)"
      using t by (auto simp: insiders_def at_def)
    have "\<exists>s'. pool_step s (AWorker i) s'"
    proof (cases "workers s ! i")
      case WTest
      then show ?thesis using i(1) worker_wait worker_go by metis
    next
      case WPop
      then show ?thesis using i(1) worker_pop worker_crash by (metis option.exhaust surj_pair)
    next
      case (WUnlock t)
      then show ?thesis using i(1) worker_unlock by metis
    qed (use i(2) in auto)
    then show False using stuck by fastforce
  qed
qed

lemma stuck_final:
  assumes inv: "pool_inv ts s" and ne: "workers s \<noteq> []"
    and stuck: "\<And>a s'. pool_step s a s' \<Longrightarrow> is_spurious a"
  shows "todo s = [] \<and> m_q s = [] \<and> set (workers s) \<subseteq> {WWait} \<and> mset (map snd (handled s)) = mset ts"
proof -
  have mx: "m_mutex s = None" by (rule stuck_mutex [OF _ stuck]) (use inv in \<open>simp add: pool_inv_def\<close>)
  have stuck': "\<not> pool_step s AMain s'" "\<not> pool_step s (AWorker i) s'" "\<not> pool_step s (ASignal i) s'" for i s'
    using stuck by fastforce+
  have main: "main_pc s = MIdle"
  proof (cases "main_pc s")
    case (MLock t)
    then show ?thesis using stuck'(1) main_lock [OF MLock, of "s\<lparr>m_mutex := Some Main\<rparr>"] mx by (simp add: Lock_def)
  next
    case MCheck
    then show ?thesis using stuck'(1) main_check main_skip by (metis gr0I)
  next
    case MSignal
    then show ?thesis using stuck'(1,3) main_signal [OF MSignal] main_signal_none [OF MSignal] by (metis at_def)
  qed (use stuck'(1) main_push main_unlock in \<open>metis+\<close>)
  have td: "todo s = []"
  proof (cases "todo s")
    case (Cons t r)
    then show ?thesis using stuck'(1) main_accept [OF main Cons] by blast
  qed
  have wait: "workers s ! i = WWait" if "i < length (workers s)" for i
  proof -
    have at: "at s i (workers s ! i)" using that by (simp add: at_def)
    have lk: "Lock (Worker i) s = Some (s\<lparr>m_mutex := Some (Worker i)\<rparr>)" using mx by (simp add: Lock_def)
    have "Worker i \<notin> insiders s" using inv mx by (simp add: pool_inv_def lock_inv_def)
    then have nc: "\<not> critical (workers s ! i)" using at at_insiders by blast
    show ?thesis
    proof (cases "workers s ! i")
      case WStart
      then show ?thesis using worker_start at stuck'(2) by metis
    next
      case WLock
      then show ?thesis using worker_lock [OF _ lk] at stuck'(2) by metis
    next
      case WWake
      then show ?thesis using worker_wake [OF _ lk] at stuck'(2) by metis
    next
      case (WRun t)
      then show ?thesis using worker_run at stuck'(2) by metis
    qed (use nc in auto)
  qed
  then have ws: "set (workers s) \<subseteq> {WWait}" by (auto simp: in_set_conv_nth)
  then have q: "m_q s = []" using inv ne main by (auto simp: pool_inv_def wake_inv_def)
  have "(\<Sum>pc \<in># mset (workers s). held pc) = {#}" using ws by (fastforce simp: sum_mset_0_iff)
  then have "mset (map snd (handled s)) = mset ts"
    using inv main td q by (simp add: pool_inv_def task_inv_def in_order_def)
  then show ?thesis using td q ws by simp
qed


section \<open>Properties\<close>

text \<open>
  C25 (safety, every interleaving). At most one thread is inside the critical section, it
  owns the mutex, and no worker ever pops from an empty queue.
\<close>

theorem pool_mutual_exclusion:
  assumes "pool_run (new_pool (InitThreadPool created num) ts) as s"
  shows "\<not> crashed s \<and> (\<forall>t u. inside s t \<and> inside s u \<longrightarrow> t = u) \<and> (\<forall>t. inside s t \<longrightarrow> m_mutex s = Some t) \<and>
    (\<forall>i < length (workers s). workers s ! i = WPop \<longrightarrow> m_q s \<noteq> [])"
proof -
  have inv: "lock_inv s" "pop_inv s" using pool_run_inv [OF assms] by (simp_all add: pool_inv_def)
  have "inside s t \<Longrightarrow> m_mutex s = Some t" for t
    using lock_owner [OF inv(1), of t] by (simp add: insiders_def)
  then have own: "\<forall>t. inside s t \<longrightarrow> m_mutex s = Some t" by blast
  then have "\<forall>t u. inside s t \<and> inside s u \<longrightarrow> t = u" by (metis option.inject)
  then show ?thesis using own inv(2) by (auto simp: pop_inv_def in_set_conv_nth)
qed

text \<open>
  C17 (safety, every interleaving). Connections are taken from the queue in the order they
  were accepted, and none is lost or handled twice: the accepted ones are, in this order,
  those popped, those queued, the one in the producer's hand and those still to come, and
  those popped are handled or held by exactly one worker.
\<close>

theorem pool_fifo_exactly_once:
  assumes "pool_run (new_pool (InitThreadPool created num) ts) as s"
  shows "ts = popped s @ m_q s @ in_hand (main_pc s) @ todo s \<and>
    mset (popped s) = mset (map snd (handled s)) + (\<Sum>pc \<in># mset (workers s). held pc)"
  using pool_run_inv [OF assms] by (simp add: pool_inv_def task_inv_def in_order_def)

text \<open>
  C9 (liveness). The signal is sent outside the lock and only when a second, unprotected
  look at the queue finds it non-empty, but no wakeup is lost: when at least one thread was
  created and nothing but a spurious wakeup can happen any more, every connection was handled.
\<close>

theorem pool_no_lost_wakeup:
  assumes "pool_run (new_pool (InitThreadPool created num) ts) as s" and "\<exists>i < num. created i"
    and "\<And>a s'. pool_step s a s' \<Longrightarrow> is_spurious a"
  shows "todo s = [] \<and> m_q s = [] \<and> set (workers s) \<subseteq> {WWait} \<and> mset (map snd (handled s)) = mset ts"
proof (rule stuck_final [OF _ _ assms(3)])
  show "pool_inv ts s" using pool_run_inv [OF assms(1)] by simp
  have "0 < length (InitThreadPool created num)"
    using assms(2) by (auto simp: InitThreadPool_def filter_empty_conv)
  then show "workers s \<noteq> []" using pool_run_inv [OF assms(1)] by fastforce
qed

text \<open>
  C26 (termination). The pool does a bounded amount of work: for \<open>n\<close> connections and \<open>k\<close>
  threads a run has at most \<open>20 n + 4 k\<close> steps, plus four for each spurious wakeup.
\<close>

theorem pool_run_bounded:
  assumes "pool_run (new_pool (InitThreadPool created num) ts) as s"
  shows "length as \<le> 20 * length ts + 4 * num + 4 * length (filter is_spurious as)"
proof -
  have "length (InitThreadPool created num) \<le> num"
    using length_filter_le [of created "[0..<num]"] by (simp add: InitThreadPool_def)
  then show ?thesis using run_cost [OF assms] by linarith
qed

text \<open>
  The results of \<open>pthread_create\<close> are ignored: when every call fails the pool has
  no worker and no connection is ever handled, whatever is pushed.
\<close>

theorem pool_without_workers:
  assumes "\<forall>i < num. \<not> created i" and "pool_run (new_pool (InitThreadPool created num) ts) as s"
  shows "handled s = [] \<and> popped s = []"
proof -
  have "InitThreadPool created num = []" using assms(1) by (auto simp: InitThreadPool_def filter_empty_conv)
  then have ws: "workers s = []" using pool_run_inv [OF assms(2)] by simp
  have "popped s = [] \<and> handled s = []" using assms(2)
  proof (induction "new_pool (InitThreadPool created num) ts" as s rule: pool_run.induct)
    case (run_snoc as s1 a s2)
    have "workers s1 = []"
      using pool_run_inv [OF run_snoc(1)] \<open>InitThreadPool created num = []\<close> by simp
    with run_snoc(3,2) show ?case by (cases rule: pool_step.cases) (auto simp: at_def Lock_Some)
  qed (simp add: new_pool_def)
  then show ?thesis by simp
qed

section \<open>A concrete run\<close>

lemma exec_run_pool_run: "exec_run as s = Some s' \<Longrightarrow> pool_run s0 bs s \<Longrightarrow> pool_run s0 (bs @ as) s'"
proof (induction as arbitrary: s bs)
  case (Cons a as)
  then obtain s1 where "pool_step s a s1" "exec_run as s1 = Some s'"
    by (auto simp: exec_step_iff split: option.splits)
  then show ?case using Cons.IH [of s1 "bs @ [a]"] run_snoc [OF Cons.prems(2)] by simp
qed simp

text \<open>
  Two workers and one connection: the first worker sleeps, is signalled, takes the socket 8
  and handles it, and both sleep in the end.
\<close>

definition demo_acts :: "act list" where
  "demo_acts = [AWorker 0, AWorker 0, AWorker 0, AMain, AMain, AMain, AMain, AMain, ASignal 0,
     AWorker 0, AWorker 0, AWorker 0, AWorker 0, AWorker 0, AWorker 0, AWorker 0,
     AWorker 1, AWorker 1, AWorker 1]"

definition demo_end :: pool where
  "demo_end = \<lparr>m_mutex = None, m_q = [], workers = [WWait, WWait], main_pc = MIdle, todo = [],
     crashed = False, pushed = [8], popped = [8], handled = [(0, 8)]\<rparr>"

lemma demo_pool_run: "pool_run (new_pool (InitThreadPool (\<lambda>i. True) 2) [8]) demo_acts demo_end"
proof -
  have "exec_run demo_acts (new_pool (InitThreadPool (\<lambda>i. True) 2) [8]) = Some demo_end"
    by (simp add: demo_acts_def demo_end_def new_pool_def InitThreadPool_def numeral_2_eq_2 goto_def main_goto_def
        Lock_def UnLock_def Wait_def push_def PopTask_def Size_def HanderTask_def)
  from exec_run_pool_run [OF this run_Nil] show ?thesis by simp
qed

lemma demo_stuck: "pool_step demo_end a s' \<Longrightarrow> is_spurious a"
  by (cases a) (auto simp: demo_end_def less_Suc_eq numeral_2_eq_2 simp flip: exec_step_iff split: if_splits)

text \<open>After two steps the first worker is inside, and it is the owner.\<close>

lemma pool_mutual_exclusion_witness:
  "\<exists>s. pool_run (new_pool (InitThreadPool (\<lambda>i. True) 2) [8]) [AWorker 0, AWorker 0] s \<and>
    inside s (Worker 0) \<and> \<not> inside s (Worker 1) \<and> m_mutex s = Some (Worker 0) \<and> \<not> crashed s"
proof -
  let ?s = "new_pool (InitThreadPool (\<lambda>i. True) 2) [8]"
  obtain s where e: "exec_run [AWorker 0, AWorker 0] ?s = Some s" and i: "inside s (Worker 0)"
    by (simp add: new_pool_def InitThreadPool_def numeral_2_eq_2 goto_def Lock_def)
  have r: "pool_run ?s [AWorker 0, AWorker 0] s" using exec_run_pool_run [OF e run_Nil] by simp
  have "Worker 1 \<noteq> Worker 0" by simp
  then show ?thesis using pool_mutual_exclusion [OF r] i r by blast
qed

lemma pool_fifo_exactly_once_witness:
  "[8] = popped demo_end @ m_q demo_end @ in_hand (main_pc demo_end) @ todo demo_end \<and>
    mset (popped demo_end) = mset (map snd (handled demo_end)) + (\<Sum>pc \<in># mset (workers demo_end). held pc)"
  by (rule pool_fifo_exactly_once [OF demo_pool_run])

lemma pool_no_lost_wakeup_witness:
  "todo demo_end = [] \<and> m_q demo_end = [] \<and> set (workers demo_end) \<subseteq> {WWait} \<and>
    mset (map snd (handled demo_end)) = mset [8]"
  by (rule pool_no_lost_wakeup [OF demo_pool_run _ demo_stuck]) (simp_all add: exI [of _ 0])

lemma pool_run_bounded_witness: "length demo_acts \<le> 20 * length [8 :: task] + 4 * 2 + 4 * length (filter is_spurious demo_acts)"
  by (rule pool_run_bounded [OF demo_pool_run])

lemma pool_without_workers_witness:
  "\<exists>s. pool_run (new_pool (InitThreadPool (\<lambda>i. False) 3) [8]) [AMain, AMain, AMain] s \<and> handled s = [] \<and> popped s = []"
proof -
  let ?s = "new_pool (InitThreadPool (\<lambda>i. False) 3) [8]"
  obtain s where "exec_run [AMain, AMain, AMain] ?s = Some s"
    by (simp add: new_pool_def InitThreadPool_def main_goto_def Lock_def push_def)
  then have r: "pool_run ?s [AMain, AMain, AMain] s" using exec_run_pool_run [OF _ run_Nil] by fastforce
  have "handled s = [] \<and> popped s = []" by (rule pool_without_workers [OF _ r]) simp
  then show ?thesis using r by blast
qed

end
