(* ===== verification/Http_Server.thy ===== *)
theory Http_Server
  imports Tcp_Server Thread_Pool
begin

text \<open>
  The server object, its accept loop and \<open>main\<close> (src/http_server.cc, include/http_server.h,
  src/main.cc). An accepted socket that is handed to the pool is an \<open>EvPush\<close> event; what the
  pool does with it is the theory of the pool, and what a worker does is the handler's.
\<close>

section \<open>Definitions\<close>

text \<open>The pool is known here by the workers it was started with.\<close>

record HttpServer =
  h_port :: int
  m_tcp_server :: "TcpServer option"
  m_thread_pool :: "wpc list option"
  idlefd :: int

definition sys_accept :: "os \<Rightarrow> int \<Rightarrow> world \<Rightarrow> int \<times> world" where
  "sys_accept os fd w = (let r = fst (os_accept os (trace w) fd) in (r, emit (EvAccept fd r) w))"

text \<open>\<open>accept4\<close> with the \<open>errno\<close> it leaves.\<close>

definition sys_accept4 :: "os \<Rightarrow> int \<Rightarrow> world \<Rightarrow> (int \<times> int) \<times> world" where
  "sys_accept4 os fd w = (let r = os_accept os (trace w) fd in (r, emit (EvAccept4 fd (fst r)) w))"

definition new_HttpServer :: "os \<Rightarrow> int \<Rightarrow> world \<Rightarrow> HttpServer \<times> world" where
  "new_HttpServer os port w =
     (case sys_open os ''/dev/null'' w of
        (fd, w1) \<Rightarrow> (\<lparr>h_port = port, m_tcp_server = None, m_thread_pool = None, idlefd = fd\<rparr>, w1))"

text \<open>\<open>GetThreadPool\<close> for one thread; \<open>pool\<close> is the static member before the call.\<close>

definition GetThreadPool :: "(nat \<Rightarrow> bool) \<Rightarrow> wpc list option \<Rightarrow> world \<Rightarrow> wpc list \<times> world" where
  "GetThreadPool created pool w =
     (let w1 = emit (EvLog INFO ''GetThreadPool'') w
      in case pool of None \<Rightarrow> (InitThreadPool created NUM, w1) | Some p \<Rightarrow> (p, w1))"

definition HttpServer_InitServer :: "os \<Rightarrow> (nat \<Rightarrow> bool) \<Rightarrow> HttpServer \<Rightarrow> world \<Rightarrow> world + HttpServer \<times> world" where
  "HttpServer_InitServer os created hs w =
     (let w1 = emit (EvSignal ''SIGCHLD'') (emit (EvSignal ''SIGPIPE'') w)
      in case GetTcpServer os (h_port hs) None w1 of
           Inl w' \<Rightarrow> Inl w'
         | Inr (t, w2) \<Rightarrow> (case GetThreadPool created None w2 of
             (p, w3) \<Rightarrow> Inr (hs\<lparr>m_tcp_server := Some t, m_thread_pool := Some p\<rparr>, w3)))"

definition limit_msg :: string where
  "limit_msg = ''the number of file descriptors reaches the upper limit, close the client connection''"

text \<open>
  One round of \<open>Loop\<close>. The reserve descriptor is given up to accept and drop one connection
  when no descriptor is left; it is then to be opened again, under a relative path.
\<close>

definition loop_round :: "os \<Rightarrow> int \<Rightarrow> HttpServer \<Rightarrow> world \<Rightarrow> world + HttpServer \<times> world" where
  "loop_round os listen_sock hs w =
     (case sys_accept4 os listen_sock w of ((sock, errno), w1) \<Rightarrow>
        let w2 = emit (EvLog INFO ''accept success!'') w1 in
        if sock < 0 then
          (if errno = EMFILE then
             (case sys_accept os listen_sock (sys_close (idlefd hs) w2) of
                (c, w3) \<Rightarrow> (case sys_open os ''dev/null'' (sys_close c w3) of
                   (fd, w4) \<Rightarrow> Inr (hs\<lparr>idlefd := fd\<rparr>, emit (EvLog ERROR limit_msg) w4)))
           else ERR_EXIT ''accept4'' w2)
        else Inr (hs, emit (EvPush sock) w2))"

text \<open>\<open>while(true)\<close>: the state after \<open>n\<close> rounds, or the world in which a round ended the process.\<close>

fun loop_rounds :: "os \<Rightarrow> int \<Rightarrow> nat \<Rightarrow> HttpServer \<Rightarrow> world \<Rightarrow> world + HttpServer \<times> world" where
  "loop_rounds os listen_sock 0 hs w = Inr (hs, w)"
| "loop_rounds os listen_sock (Suc n) hs w =
     (case loop_round os listen_sock hs w of
        Inl w' \<Rightarrow> Inl w'
      | Inr (hs', w') \<Rightarrow> loop_rounds os listen_sock n hs' w')"

text \<open>\<open>Loop\<close> reads the listening socket once; without a server it dereferences a null pointer.\<close>

definition Loop :: "os \<Rightarrow> nat \<Rightarrow> HttpServer \<Rightarrow> world \<Rightarrow> (world + HttpServer \<times> world) option" where
  "Loop os n hs w = (case m_tcp_server hs of
     None \<Rightarrow> None
   | Some t \<Rightarrow> Some (loop_rounds os (m_listen_sock t) n hs w))"

definition Usage :: "world \<Rightarrow> world" where
  "Usage w = emit (EvOut (''Usage : ./http_server port'' @ [CHR 0x0A])) w"

text \<open>
  \<open>main\<close> up to the end of the \<open>n\<close>-th round of the loop: two servers are made of the port, and the
  second one is run. The arguments include the program's name.
\<close>

definition main_fn :: "os \<Rightarrow> (nat \<Rightarrow> bool) \<Rightarrow> nat \<Rightarrow> string list \<Rightarrow> world \<Rightarrow> (world + HttpServer \<times> world) option" where
  "main_fn os created n argv w =
     (if length argv \<noteq> 2 then Some (Inl (emit (EvExit 0) (Usage w)))
      else
        (let port = atoi (argv ! 1) in
         case new_HttpServer os port w of (http_server, w1) \<Rightarrow>
           (case new_HttpServer os port w1 of (hs, w2) \<Rightarrow>
              (case HttpServer_InitServer os created hs w2 of
                 Inl w' \<Rightarrow> Some (Inl w')
               | Inr (hs', w3) \<Rightarrow> Loop os n hs' w3))))"

section \<open>Runs of the loop\<close>

fun pushes :: "event list \<Rightarrow> int list" where
  "pushes [] = []"
| "pushes (EvPush s # es) = s # pushes es"
| "pushes (_ # es) = pushes es"

fun accepted :: "event list \<Rightarrow> int list" where
  "accepted [] = []"
| "accepted (EvAccept4 l s # es) = (if 0 \<le> s then s # accepted es else accepted es)"
| "accepted (_ # es) = accepted es"

lemma pushes_append [simp]: "pushes (xs @ ys) = pushes xs @ pushes ys"
  by (induction xs rule: pushes.induct) auto

lemma accepted_append [simp]: "accepted (xs @ ys) = accepted xs @ accepted ys"
  by (induction xs rule: accepted.induct) auto

text \<open>The world in which a run stopped, whatever the reason.\<close>

fun final_world :: "world + HttpServer \<times> world \<Rightarrow> world" where
  "final_world (Inl w) = w"
| "final_world (Inr (hs, w)) = w"

lemmas accept_calls [os_calls] = sys_accept_def sys_accept4_def

text \<open>The events of one round, by the answer of \<open>accept4\<close>.\<close>

lemma loop_round_cases:
  obtains (push) s e where "os_accept os (trace w) l = (s, e)" "0 \<le> s"
      "loop_round os l hs w = Inr (hs, w\<lparr>trace := trace w @ [EvAccept4 l s, EvLog INFO ''accept success!'', EvPush s]\<rparr>)"
  | (limit) s c fd where "os_accept os (trace w) l = (s, EMFILE)" "s < 0"
      "loop_round os l hs w = Inr (hs\<lparr>idlefd := fd\<rparr>, w\<lparr>trace := trace w @ [EvAccept4 l s,
        EvLog INFO ''accept success!'', EvClose (idlefd hs), EvAccept l c, EvClose c, EvOpen ''dev/null'' fd,
        EvLog ERROR limit_msg]\<rparr>)"
      "\<exists>h. fd = os_open os h ''dev/null''" "\<exists>h. c = fst (os_accept os h l)"
  | (exit) s e where "os_accept os (trace w) l = (s, e)" "s < 0" "e \<noteq> EMFILE"
      "loop_round os l hs w = Inl (w\<lparr>trace := trace w @ [EvAccept4 l s, EvLog INFO ''accept success!'',
        EvErr ''accept4'', EvExit 1]\<rparr>)"
proof -
  obtain s e where a: "os_accept os (trace w) l = (s, e)" by (cases "os_accept os (trace w) l")
  consider "0 \<le> s" | "s < 0" "e = EMFILE" | "s < 0" "e \<noteq> EMFILE" by linarith
  then show thesis
  proof cases
    case 1
    then show thesis using a by (intro push) (simp_all add: loop_round_def os_calls Let_def emit_def)
  next
    case 2
    show thesis
      by (rule limit) (use 2 a in \<open>auto simp: loop_round_def os_calls Let_def emit_def\<close>)
  next
    case 3
    then show thesis using a by (intro exit) (simp_all add: loop_round_def os_calls ERR_EXIT_def Let_def emit_def)
  qed
qed

text \<open>
  What the calls of \<open>accept4\<close> in a run answered, with the \<open>errno\<close> they left, after the events \<open>h\<close>, and the
  answers after which the loop is to go on.
\<close>

fun accept_answers :: "os \<Rightarrow> event list \<Rightarrow> event list \<Rightarrow> (int \<times> int) list" where
  "accept_answers os h [] = []"
| "accept_answers os h (EvAccept4 l s # es) = os_accept os h l # accept_answers os (h @ [EvAccept4 l s]) es"
| "accept_answers os h (e # es) = accept_answers os (h @ [e]) es"

definition goes_on :: "int \<times> int \<Rightarrow> bool" where
  "goes_on r \<longleftrightarrow> 0 \<le> fst r \<or> snd r = EMFILE"

lemma accept_answers_append [simp]:
  "accept_answers os h (xs @ ys) = accept_answers os h xs @ accept_answers os (h @ xs) ys"
  by (induction os h xs rule: accept_answers.induct) auto

text \<open>How \<open>n\<close> rounds end: the loop still goes on, or the last call of \<open>accept4\<close> made it stop.\<close>

definition rounds_end :: "nat \<Rightarrow> (int \<times> int) list \<Rightarrow> event list \<Rightarrow> world + 'a \<Rightarrow> bool" where
  "rounds_end n calls es r = (case r of
     Inr _ \<Rightarrow> length calls = n \<and> list_all goes_on calls
   | Inl _ \<Rightarrow> calls \<noteq> [] \<and> length calls \<le> n \<and> list_all goes_on (butlast calls) \<and> \<not> goes_on (last calls) \<and>
       (\<exists>pre. es = pre @ [EvErr ''accept4'', EvExit 1]))"

lemma rounds_end_Suc:
  "rounds_end n calls es r \<Longrightarrow> goes_on c \<Longrightarrow> rounds_end (Suc n) (c # calls) (ev @ es) r"
  by (auto simp: rounds_end_def split: sum.splits)

lemma loop_rounds_run:
  "\<exists>es. trace (final_world (loop_rounds os l n hs w)) = trace w @ es \<and> pushes es = accepted es \<and>
     rounds_end n (accept_answers os (trace w) es) es (loop_rounds os l n hs w)"
proof (induction n arbitrary: hs w)
  case 0
  show ?case by (simp add: rounds_end_def)
next
  case (Suc n)
  show ?case
  proof (cases rule: loop_round_cases [of os w l hs])
    case (push s e)
    let ?ev = "[EvAccept4 l s, EvLog INFO ''accept success!'', EvPush s]"
    obtain es where es: "trace (final_world (loop_rounds os l n hs (w\<lparr>trace := trace w @ ?ev\<rparr>))) = trace w @ ?ev @ es"
      "pushes es = accepted es" "rounds_end n (accept_answers os (trace w @ ?ev) es) es
        (loop_rounds os l n hs (w\<lparr>trace := trace w @ ?ev\<rparr>))"
      using Suc.IH [of hs "w\<lparr>trace := trace w @ ?ev\<rparr>"] by auto
    show ?thesis using es(1,2) push rounds_end_Suc [OF es(3), of "(s, e)" ?ev]
      by (intro exI [of _ "?ev @ es"]) (simp add: goes_on_def)
  next
    case (limit s c fd)
    let ?ev = "[EvAccept4 l s, EvLog INFO ''accept success!'', EvClose (idlefd hs), EvAccept l c, EvClose c,
      EvOpen ''dev/null'' fd, EvLog ERROR limit_msg]"
    let ?r = "loop_rounds os l n (hs\<lparr>idlefd := fd\<rparr>) (w\<lparr>trace := trace w @ ?ev\<rparr>)"
    obtain es where es: "trace (final_world ?r) = trace w @ ?ev @ es"
      "pushes es = accepted es" "rounds_end n (accept_answers os (trace w @ ?ev) es) es ?r"
      using Suc.IH [of "hs\<lparr>idlefd := fd\<rparr>" "w\<lparr>trace := trace w @ ?ev\<rparr>"] by auto
    show ?thesis using es(1,2) limit(1-3) rounds_end_Suc [OF es(3), of "(s, EMFILE)" ?ev]
      by (intro exI [of _ "?ev @ es"]) (simp add: goes_on_def)
  next
    case (exit s e)
    then show ?thesis by (simp add: rounds_end_def goes_on_def)
  qed
qed

lemma loop_rounds_events:
  "\<exists>es. trace (final_world (loop_rounds os l n hs w)) = trace w @ es \<and> pushes es = accepted es \<and>
     (\<forall>w'. loop_rounds os l n hs w = Inl w' \<longrightarrow> (\<exists>pre. es = pre @ [EvErr ''accept4'', EvExit 1]))"
proof -
  obtain es where "trace (final_world (loop_rounds os l n hs w)) = trace w @ es" "pushes es = accepted es"
    "rounds_end n (accept_answers os (trace w) es) es (loop_rounds os l n hs w)"
    using loop_rounds_run [of os l n hs w] by blast
  then show ?thesis by (intro exI [of _ es]) (auto simp: rounds_end_def)
qed

text \<open>Descriptors closed while every \<open>accept\<close> hits the limit and the reserve cannot be opened again.\<close>

lemma loop_limit:
  assumes "\<And>h. os_accept os h l = (-1, EMFILE)" and "\<And>h. os_open os h ''dev/null'' = -1"
  shows "\<exists>hs' w' es. loop_rounds os l n hs w = Inr (hs', w') \<and> trace w' = trace w @ es \<and> accepted es = [] \<and>
    set (closed_in es) \<subseteq> {-1, idlefd hs} \<and>
    length (filter (\<lambda>fd. 0 \<le> fd) (closed_in es)) = (if 0 < n \<and> 0 \<le> idlefd hs then 1 else 0)"
proof (induction n arbitrary: hs w)
  case (Suc n)
  show ?case
  proof (cases rule: loop_round_cases [of os w l hs])
    case (limit s c fd)
    then have neg: "c = -1" "fd = -1" "s = -1" using assms by auto
    let ?ev = "[EvAccept4 l s, EvLog INFO ''accept success!'', EvClose (idlefd hs), EvAccept l c, EvClose c,
      EvOpen ''dev/null'' fd, EvLog ERROR limit_msg]"
    obtain hs' w' es where IH: "loop_rounds os l n (hs\<lparr>idlefd := fd\<rparr>) (w\<lparr>trace := trace w @ ?ev\<rparr>) = Inr (hs', w')"
      "trace w' = trace w @ ?ev @ es" "accepted es = []" "set (closed_in es) \<subseteq> {-1, fd}"
      "length (filter (\<lambda>fd. 0 \<le> fd) (closed_in es)) = (if 0 < n \<and> 0 \<le> fd then 1 else 0)"
      using Suc.IH [of "hs\<lparr>idlefd := fd\<rparr>" "w\<lparr>trace := trace w @ ?ev\<rparr>"] by auto
    then show ?thesis using limit(3) neg
      by (intro exI [of _ hs'] exI [of _ w'] exI [of _ "?ev @ es"]) auto
  qed (use assms in auto)
qed simp

section \<open>Starting\<close>

text \<open>Everything \<open>main\<close> does before the loop, on a system that lets it.\<close>

definition start_events :: "os \<Rightarrow> int \<Rightarrow> event list \<Rightarrow> event list" where
  "start_events os port h =
     (let a = os_open os h ''/dev/null'';
          b = os_open os (h @ [EvOpen ''/dev/null'' a]) ''/dev/null'';
          e = [EvOpen ''/dev/null'' a, EvOpen ''/dev/null'' b, EvSignal ''SIGPIPE'', EvSignal ''SIGCHLD'']
      in e @ init_events os port (h @ e) @ [EvLog INFO ''GetThreadPool''])"

lemma main_start:
  assumes "socket_calls_ok os" and "length argv = 2"
  shows "\<exists>hs l. main_fn os created n argv w =
      Some (loop_rounds os l n hs (w\<lparr>trace := trace w @ start_events os (atoi (argv ! 1)) (trace w)\<rparr>)) \<and>
    m_thread_pool hs = Some (InitThreadPool created NUM)"
proof -
  let ?port = "atoi (argv ! 1)"
  let ?a = "os_open os (trace w) ''/dev/null''"
  let ?b = "os_open os (trace w @ [EvOpen ''/dev/null'' ?a]) ''/dev/null''"
  let ?e = "[EvOpen ''/dev/null'' ?a, EvOpen ''/dev/null'' ?b, EvSignal ''SIGPIPE'', EvSignal ''SIGCHLD'']"
  let ?w = "w\<lparr>trace := trace w @ ?e\<rparr>"
  let ?hs = "\<lparr>h_port = ?port, m_tcp_server = Some \<lparr>m_port = ?port, m_listen_sock = os_socket os (trace ?w)\<rparr>,
    m_thread_pool = Some (InitThreadPool created NUM), idlefd = ?b\<rparr>"
  have "GetTcpServer os ?port None ?w = Inr (\<lparr>m_port = ?port, m_listen_sock = os_socket os (trace ?w)\<rparr>,
      ?w\<lparr>trace := trace ?w @ init_events os ?port (trace ?w)\<rparr>)"
    unfolding GetTcpServer_def option.case by (rule InitServer_ok [OF assms(1)])
  then have "main_fn os created n argv w = Some (loop_rounds os (os_socket os (trace ?w)) n ?hs
        (w\<lparr>trace := trace w @ start_events os ?port (trace w)\<rparr>))"
    using assms(2)
    by (simp add: main_fn_def new_HttpServer_def os_calls HttpServer_InitServer_def GetThreadPool_def Loop_def
        emit_def start_events_def Let_def)
  moreover have "m_thread_pool ?hs = Some (InitThreadPool created NUM)" by simp
  ultimately show ?thesis by blast
qed


section \<open>Properties\<close>

text \<open>
  C37 (functional). Whatever the system answers, the loop hands to the pool exactly the
  sockets \<open>accept4\<close> gave it, in this order. It goes on after every call that gave a socket or
  failed for want of a descriptor, one call in each round, and the first call that fails for another
  reason ends it, with the message and status 1.
\<close>

theorem loop_pushes_accepted:
  "\<exists>es. trace (final_world (loop_rounds os l n hs w)) = trace w @ es \<and> pushes es = accepted es \<and>
     (let calls = accept_answers os (trace w) es in
      case loop_rounds os l n hs w of
        Inr _ \<Rightarrow> length calls = n \<and> list_all goes_on calls
      | Inl _ \<Rightarrow> calls \<noteq> [] \<and> length calls \<le> n \<and> list_all goes_on (butlast calls) \<and> \<not> goes_on (last calls) \<and>
          (\<exists>pre. es = pre @ [EvErr ''accept4'', EvExit 1]))"
  using loop_rounds_run [of os l n hs w] by (simp add: rounds_end_def Let_def)

text \<open>
  The reserve descriptor is opened again as \<open>dev/null\<close>, without the leading slash.
  Where this path does not exist the trick works once: while the limit lasts, any number
  of rounds closes one real descriptor in all, the first reserve, and then the loop spins
  without accepting or closing anything.
\<close>

theorem reserve_descriptor_lost:
  assumes "\<And>h. os_accept os h l = (-1, EMFILE)" and "\<And>h. os_open os h ''dev/null'' = -1"
  shows "\<exists>hs' w' es. loop_rounds os l n hs w = Inr (hs', w') \<and> trace w' = trace w @ es \<and> accepted es = [] \<and>
    set (closed_in es) \<subseteq> {-1, idlefd hs} \<and>
    length (filter (\<lambda>fd. 0 \<le> fd) (closed_in es)) = (if 0 < n \<and> 0 \<le> idlefd hs then 1 else 0)"
  by (rule loop_limit [OF assms])

text \<open>
  A start with one argument on a system whose socket calls succeed makes
  exactly these calls before the loop: \<open>/dev/null\<close> is opened twice, once for each of the two
  servers \<open>main\<close> makes, the signals are ignored, the socket is set up on the port the
  argument says, and the pool is started with the three workers whose creation succeeds.
\<close>

theorem main_starts:
  assumes "socket_calls_ok os" and "length argv = 2"
  shows "\<exists>hs l. main_fn os created n argv w =
      Some (loop_rounds os l n hs (w\<lparr>trace := trace w @ start_events os (atoi (argv ! 1)) (trace w)\<rparr>)) \<and>
    m_thread_pool hs = Some (InitThreadPool created NUM) \<and>
    (\<exists>a b. start_events os (atoi (argv ! 1)) (trace w) =
      [EvOpen ''/dev/null'' a, EvOpen ''/dev/null'' b, EvSignal ''SIGPIPE'', EvSignal ''SIGCHLD''] @
      init_events os (atoi (argv ! 1)) (trace w @
        [EvOpen ''/dev/null'' a, EvOpen ''/dev/null'' b, EvSignal ''SIGPIPE'', EvSignal ''SIGCHLD'']) @
      [EvLog INFO ''GetThreadPool''])"
proof -
  obtain hs l where "main_fn os created n argv w =
      Some (loop_rounds os l n hs (w\<lparr>trace := trace w @ start_events os (atoi (argv ! 1)) (trace w)\<rparr>))"
    "m_thread_pool hs = Some (InitThreadPool created NUM)"
    using main_start [OF assms] by blast
  then show ?thesis unfolding start_events_def Let_def by blast
qed

text \<open>
  With any other number of arguments the program prints its usage and ends
  with status 0, without touching the network.
\<close>

theorem main_usage:
  assumes "length argv \<noteq> 2"
  shows "\<exists>w'. main_fn os created n argv w = Some (Inl w') \<and>
    trace w' = trace w @ [EvOut (''Usage : ./http_server port'' @ [CHR 0x0A]), EvExit 0]"
  using assms by (simp add: main_fn_def Usage_def)

text \<open>A system that opens, listens and has one client, then reaches its descriptor limit.\<close>

definition net_os :: os where
  "net_os = \<lparr>os_stat = (\<lambda>h p. None), os_open = (\<lambda>h p. if p = ''/dev/null'' then 4 else -1), os_pipe = (\<lambda>h. None),
     os_fork = (\<lambda>h. -1), os_exec = (\<lambda>h p. None), os_freed = (\<lambda>h s. s), os_write = (\<lambda>h fd s. -1),
     os_waitpid = (\<lambda>h pid. -1), os_send = (\<lambda>h fd s. -1), os_sendfile = (\<lambda>h i n. []), os_socket = (\<lambda>h. 3),
     os_bind = (\<lambda>h fd p. 0), os_listen = (\<lambda>h fd. 0), os_accept = (\<lambda>h fd. (-1, EMFILE))\<rparr>"

text \<open>The first call is refused for want of a descriptor, the second for another reason.\<close>

lemma loop_pushes_accepted_witness:
  "\<exists>es calls. trace (final_world (loop_rounds (net_os\<lparr>os_accept := \<lambda>h fd. (-1, if h = [] then EMFILE else 9)\<rparr>) 3 5
      \<lparr>h_port = 80, m_tcp_server = None, m_thread_pool = None, idlefd = 4\<rparr> \<lparr>sock_in = [], trace = []\<rparr>)) = es \<and>
    calls = accept_answers (net_os\<lparr>os_accept := \<lambda>h fd. (-1, if h = [] then EMFILE else 9)\<rparr>) [] es \<and>
    length calls \<le> 5 \<and> list_all goes_on (butlast calls) \<and> \<not> goes_on (last calls)"
proof -
  let ?os = "net_os\<lparr>os_accept := \<lambda>h fd. (-1, if h = [] then EMFILE else 9)\<rparr>"
  let ?hs = "\<lparr>h_port = 80, m_tcp_server = None, m_thread_pool = None, idlefd = 4\<rparr>"
  obtain w' where w': "loop_rounds ?os 3 5 ?hs \<lparr>sock_in = [], trace = []\<rparr> = Inl w'"
    by (simp add: loop_round_def os_calls server_defs Let_def EMFILE_def eval_nat_numeral)
  show ?thesis using loop_pushes_accepted [of ?os 3 5 ?hs "\<lparr>sock_in = [], trace = []\<rparr>"]
    unfolding w' by (auto simp: Let_def)
qed

lemma reserve_descriptor_lost_witness:
  "\<exists>hs' w' es. loop_rounds net_os 3 5 \<lparr>h_port = 80, m_tcp_server = None, m_thread_pool = None, idlefd = 4\<rparr>
      \<lparr>sock_in = [], trace = []\<rparr> = Inr (hs', w') \<and> trace w' = [] @ es \<and> accepted es = [] \<and>
    set (closed_in es) \<subseteq> {-1, 4} \<and> length (filter (\<lambda>fd. 0 \<le> fd) (closed_in es)) = 1"
  using reserve_descriptor_lost [of net_os 3 5 "\<lparr>h_port = 80, m_tcp_server = None, m_thread_pool = None, idlefd = 4\<rparr>"
      "\<lparr>sock_in = [], trace = []\<rparr>"] by (simp add: net_os_def)

lemma main_starts_witness:
  "\<exists>hs l. main_fn net_os (\<lambda>i. True) 2 [''./http_server'', ''8081''] \<lparr>sock_in = [], trace = []\<rparr> =
      Some (loop_rounds net_os l 2 hs \<lparr>sock_in = [], trace = start_events net_os (atoi ''8081'') []\<rparr>) \<and>
    m_thread_pool hs = Some (InitThreadPool (\<lambda>i. True) NUM)"
  using main_starts [of net_os "[''./http_server'', ''8081'']" "\<lambda>i. True" 2 "\<lparr>sock_in = [], trace = []\<rparr>"]
  by (auto simp: net_os_def socket_calls_ok_def)

lemma main_usage_witness:
  "\<exists>w'. main_fn net_os (\<lambda>i. True) 0 [''./http_server''] \<lparr>sock_in = [], trace = []\<rparr> = Some (Inl w') \<and>
    trace w' = trace \<lparr>sock_in = [], trace = []\<rparr> @ [EvOut (''Usage : ./http_server port'' @ [CHR 0x0A]), EvExit 0]"
  by (rule main_usage) simp

end
