(* ===== verification/Http_Spec.thy ===== *)
theory Http_Spec
  imports Http_Send
begin

text \<open>
  What the handler is meant to compute (src/protocal.cc as a whole): the reply to a request is
  a function of the file system under wwwroot, the method and the target. \<open>http_spec\<close> is
  this function, and the handler refines it on every system that serves a fixed file system.
\<close>

section \<open>A file system and the reply it gives\<close>

text \<open>
  What a path names: a directory, or a file with its executable bit, its contents and what \<open>execl\<close>
  makes of it. Paths are looked up as the strings the server builds.
\<close>

datatype node = Dir | File bool string "cgi_program option"

type_synonym fs = "string \<Rightarrow> node option"

definition contents :: "fs \<Rightarrow> string \<Rightarrow> string" where
  "contents fs p = (case fs p of Some (File x c prog) \<Rightarrow> c | _ \<Rightarrow> [])"

definition program_at :: "fs \<Rightarrow> string \<Rightarrow> cgi_program option" where
  "program_at fs p = (case fs p of Some (File x c prog) \<Rightarrow> prog | _ \<Rightarrow> None)"

record http_reply =
  r_code :: int
  r_headers :: "string list"
  r_body :: string

definition reply_bytes :: "http_reply \<Rightarrow> string" where
  "reply_bytes r = status_line_of (r_code r) @ concat (r_headers r) @ [CR, LF] @ r_body r"

text \<open>The two header lines of an error page, when it can be opened.\<close>

definition page_headers :: "fs \<Rightarrow> string \<Rightarrow> string list" where
  "page_headers fs p = (case fs p of
     None \<Rightarrow> []
   | Some nd \<Rightarrow> [''Content-Type: text/html'' @ [CR, LF],
       ''Content-Length: '' @ show_int (int (length (contents fs p))) @ [CR, LF]])"

text \<open>
  The reply. \<open>None\<close> is a CGI program that never ends on an empty input pipe that stays open. A missing file is answered with the headers
  of both error pages and the body of the second; a POST never sends a file, so it gets none.
\<close>

definition error_reply :: "fs \<Rightarrow> int \<Rightarrow> string \<Rightarrow> http_reply" where
  "error_reply fs code page = \<lparr>r_code = code, r_headers = page_headers fs page, r_body = contents fs page\<rparr>"

definition missing_reply :: "fs \<Rightarrow> bool \<Rightarrow> http_reply" where
  "missing_reply fs cgi = \<lparr>r_code = 404, r_headers = page_headers fs PAGE_404 @ page_headers fs PAGE_500,
     r_body = (if cgi then [] else contents fs PAGE_500)\<rparr>"

definition cgi_reply :: "fs \<Rightarrow> string \<Rightarrow> string \<Rightarrow> string \<Rightarrow> http_reply option" where
  "cgi_reply fs p M parameter =
     (case program_of (program_at fs p) (plain_env M parameter) False [] of
        None \<Rightarrow> None
      | Some (out, status) \<Rightarrow> Some \<lparr>r_code = 200, r_headers = [], r_body = out @ out\<rparr>)"

definition file_reply :: "fs \<Rightarrow> string \<Rightarrow> http_reply" where
  "file_reply fs p = (if fs p = None then error_reply fs 500 PAGE_500
     else \<lparr>r_code = 200, r_headers = [], r_body = contents fs p\<rparr>)"

definition path_reply :: "fs \<Rightarrow> string \<Rightarrow> string \<Rightarrow> string \<Rightarrow> http_reply option" where
  "path_reply fs p M parameter =
     (case fs p of
        None \<Rightarrow> Some (missing_reply fs (M = ''POST''))
      | Some Dir \<Rightarrow>
          (let q = p @ ''/'' @ HOME_PAGE
           in if M = ''POST'' then cgi_reply fs q M parameter else Some (file_reply fs q))
      | Some (File x c prog) \<Rightarrow>
          if x \<or> M = ''POST'' then cgi_reply fs p M parameter else Some (file_reply fs p))"

text \<open>The path of a target: the home page stands for the target of a directory written with its slash.\<close>

definition target_path :: "string \<Rightarrow> string" where
  "target_path u = ''wwwroot'' @ u @ (if u \<noteq> [] \<and> last u = CHR ''/'' then ''index.html'' else [])"

definition http_spec :: "fs \<Rightarrow> string \<Rightarrow> string \<Rightarrow> http_reply option" where
  "http_spec fs m u =
     (let M = map toupper m in
      if M = ''GET'' then
        (case query_split u of (path, parameter) \<Rightarrow> path_reply fs (target_path path) M parameter)
      else if M = ''POST'' then path_reply fs (target_path u) M []
      else Some (error_reply fs 400 PAGE_400))"

section \<open>Systems that serve a file system\<close>

text \<open>The path a descriptor was opened for last.\<close>

fun open_step :: "int \<Rightarrow> event \<Rightarrow> string option \<Rightarrow> string option" where
  "open_step fd (EvOpen p r) a = (if r = fd then Some p else a)"
| "open_step fd (EvClose r) a = (if r = fd then None else a)"
| "open_step fd _ a = a"

definition opened_path :: "int \<Rightarrow> event list \<Rightarrow> string option" where
  "opened_path fd h = (if 0 < fd then fold (open_step fd) h None else None)"

definition stat_fits :: "node option \<Rightarrow> stat option \<Rightarrow> bool" where
  "stat_fits nd st \<longleftrightarrow> (case nd of
     None \<Rightarrow> st = None
   | Some Dir \<Rightarrow> (\<exists>s. st = Some s \<and> S_ISDIR (st_mode s))
   | Some (File x c prog) \<Rightarrow> (\<exists>s. st = Some s \<and> \<not> S_ISDIR (st_mode s) \<and> executable (st_mode s) = x \<and>
       st_size s = int (length c)))"

text \<open>
  \<open>stat\<close>, \<open>open\<close>, \<open>sendfile\<close> and \<open>execl\<close> answer from \<open>fs\<close>, whatever happened before; \<open>send\<close> takes everything,
  pipes and processes are there, and the children are reaped as POSIX says. Files are smaller than
  2 GiB, and the error pages are no directories. What \<open>sendfile\<close> does with a descriptor that is
  not open is left open, except for the answers of a failing \<open>open\<close>.
\<close>

definition serves :: "os \<Rightarrow> fs \<Rightarrow> bool" where
  "serves os fs \<longleftrightarrow> full_send os \<and> sigchld_law os \<and>
     (\<forall>h p. stat_fits (fs p) (os_stat os h p)) \<and>
     (\<forall>h p. 0 < os_open os h p \<longleftrightarrow> fs p \<noteq> None) \<and>
     (\<forall>h fd n. fd \<le> 0 \<longrightarrow> os_sendfile os h fd n = []) \<and>
     (\<forall>h fd n p. opened_path fd h = Some p \<longrightarrow> os_sendfile os h fd n = take (nat n) (contents fs p)) \<and>
     (\<forall>p. can_run os p (program_at fs p)) \<and>
     (\<forall>p. length (contents fs p) < 2 ^ 31) \<and>
     (\<forall>p \<in> {PAGE_400, PAGE_404, PAGE_500}. fs p \<noteq> Some Dir)"

lemma serves_laws:
  assumes "serves os fs"
  shows "full_send os" "sigchld_law os" "stat_fits (fs p) (os_stat os h p)" "0 < os_open os h p \<longleftrightarrow> fs p \<noteq> None"
    "fd \<le> 0 \<Longrightarrow> os_sendfile os h fd n = []"
    "opened_path fd h = Some q \<Longrightarrow> os_sendfile os h fd n = take (nat n) (contents fs q)"
    "can_run os p (program_at fs p)" "length (contents fs p) < 2 ^ 31"
    "p \<in> {PAGE_400, PAGE_404, PAGE_500} \<Longrightarrow> fs p \<noteq> Some Dir"
  using assms unfolding serves_def by blast+

lemma fold_open_sends [simp]: "fold (open_step fd) (map (\<lambda>l. EvSend s l (f l)) hs) a = a"
  by (induction hs) simp_all

lemma opened_path_append:
  "opened_path fd (h @ es) = (if 0 < fd then fold (open_step fd) es (opened_path fd h) else None)"
  by (simp add: opened_path_def)

lemma opened_path_pos: "opened_path fd h = Some p \<Longrightarrow> 0 < fd"
  by (simp add: opened_path_def split: if_splits)

section \<open>Sending\<close>

text \<open>What \<open>sendfile\<close> will transfer, and an end point about to send a reply.\<close>

definition will_send :: "fs \<Rightarrow> EndPoint \<Rightarrow> world \<Rightarrow> string \<Rightarrow> bool" where
  "will_send fs ep w s \<longleftrightarrow> (m_fd (m_http_response ep) \<le> 0 \<and> s = []) \<or>
     (\<exists>p. opened_path (m_fd (m_http_response ep)) (trace w) = Some p \<and>
       s = take (to_size (m_file_size (m_http_response ep))) (contents fs p))"

definition carries :: "fs \<Rightarrow> EndPoint \<Rightarrow> world \<Rightarrow> http_reply \<Rightarrow> bool" where
  "carries fs ep w r \<longleftrightarrow> m_status_line (m_http_response ep) = status_line_of (r_code r) \<and>
     m_response_header (m_http_response ep) = r_headers r \<and> m_res_blank (m_http_response ep) = [CR, LF] \<and>
     (if m_cgi (m_http_request ep) then m_response_body (m_http_response ep) = r_body r
      else will_send fs ep w (r_body r))"

lemma sendfile_sends:
  assumes "serves os fs" and "will_send fs ep w s" and "fd = m_fd (m_http_response ep)"
    and "h = trace w @ map (\<lambda>l. EvSend k l (f l)) hs"
  shows "os_sendfile os h fd (int (to_size (m_file_size (m_http_response ep)))) = s"
  using assms(2) unfolding will_send_def
proof (elim disjE exE conjE)
  fix p assume o: "opened_path (m_fd (m_http_response ep)) (trace w) = Some p"
    and s: "s = take (to_size (m_file_size (m_http_response ep))) (contents fs p)"
  have "opened_path fd h = Some p" using o opened_path_pos [OF o] by (simp add: assms(3,4) opened_path_append)
  from serves_laws(6) [OF assms(1) this] show ?thesis using s by simp
qed (use serves_laws(5) [OF assms(1)] assms(3) in simp)

lemma send_carried:
  assumes "serves os fs" and "carries fs ep w r"
  shows "wire (m_sock ep) (trace (SendHttpResponse os ep w)) = wire (m_sock ep) (trace w) @ reply_bytes r"
proof (cases "m_cgi (m_http_request ep)")
  case True
  with assms(2) serves_laws(1) [OF assms(1)] show ?thesis
    by (simp add: SendHttpResponse_def Let_def carries_def reply_bytes_def sys_send_full
        send_lines_full wire_sends send_loop_full)
next
  case False
  let ?ls = "m_status_line (m_http_response ep) # m_response_header (m_http_response ep) @ [m_res_blank (m_http_response ep)]"
  have "os_sendfile os (trace w @ map (\<lambda>l. EvSend (m_sock ep) l (int (length l))) ?ls) (m_fd (m_http_response ep))
      (int (to_size (m_file_size (m_http_response ep)))) = r_body r"
    by (rule sendfile_sends [OF assms(1) _ refl refl]) (use assms(2) False in \<open>simp add: carries_def\<close>)
  with False assms(2) serves_laws(1) [OF assms(1)] show ?thesis
    by (simp add: SendHttpResponse_def Let_def carries_def reply_bytes_def sys_send_full
        send_lines_full wire_sends sys_close_def sys_sendfile_def)
qed

section \<open>Building\<close>

text \<open>An error page adds its headers, and is the file that will be sent.\<close>

lemma page_nodes:
  assumes "serves os fs" and "P \<in> {PAGE_400, PAGE_404, PAGE_500}"
  obtains "fs P = None" "\<And>h. \<not> 0 < os_open os h P"
  | x c prog where "fs P = Some (File x c prog)" "\<And>h. 0 < os_open os h P"
      "\<And>h. \<exists>s. os_stat os h P = Some s \<and> st_size s = int (length c)" "length c < 2 ^ 31"
proof (cases "fs P")
  case None
  with that(1) serves_laws(4) [OF assms(1), of _ P] show thesis by blast
next
  case (Some nd)
  with serves_laws(9) [OF assms] obtain x c prog where f: "fs P = Some (File x c prog)"
    by (cases nd) auto
  have st: "\<exists>s. os_stat os h P = Some s \<and> st_size s = int (length c)" for h
    using serves_laws(3) [OF assms(1), of P h] f by (auto simp: stat_fits_def)
  show thesis
    by (rule that(2) [OF f _ st]) (use f serves_laws(4,8) [OF assms(1), where p = P] in \<open>auto simp: contents_def\<close>)
qed

lemma BuildErrorHeader_serves:
  assumes srv: "serves os fs" and P: "P \<in> {PAGE_400, PAGE_404, PAGE_500}"
    and run: "BuildErrorHeader os P ep w = (ep', w')"
  shows "m_response_header (m_http_response ep') = m_response_header (m_http_response ep) @ page_headers fs P"
    and "will_send fs ep' w' (contents fs P)"
proof -
  have c: "c_str P = P" using P c_str_pages by auto
  show "m_response_header (m_http_response ep') = m_response_header (m_http_response ep) @ page_headers fs P"
    using srv P
  proof (cases rule: page_nodes)
    case 1
    with run c show ?thesis by (auto simp: BuildErrorHeader_def os_calls Let_def page_headers_def)
  next
    case (2 x ct prog)
    let ?h = "trace (emit (EvOpen P (os_open os (trace w) P)) w)"
    obtain s where "os_stat os ?h P = Some s" "st_size s = int (length ct)" using 2(3) by blast
    with run c 2 show ?thesis
      by (auto simp: BuildErrorHeader_def os_calls Let_def page_headers_def addToResponseHeader_def
          setFileSize_def LINE_END_def contents_def)
  qed
  show "will_send fs ep' w' (contents fs P)"
    using srv P
  proof (cases rule: page_nodes)
    case 1
    with run c show ?thesis
      by (auto simp: BuildErrorHeader_def os_calls Let_def will_send_def contents_def not_less)
  next
    case (2 x ct prog)
    let ?h = "trace (emit (EvOpen P (os_open os (trace w) P)) w)"
    obtain s where "os_stat os ?h P = Some s" "st_size s = int (length ct)" using 2(3) by blast
    with run c 2 show ?thesis
      by (auto simp: BuildErrorHeader_def os_calls Let_def addToResponseHeader_def opened_path_append
          setFileSize_def will_send_def contents_def)
  qed
qed

text \<open>What \<open>BuildResponseHelper\<close> prepares for each of the four codes.\<close>

lemma response_helper_error:
  assumes "m_status_code (m_http_response ep) = code" and "code \<in> {400, 500}"
  shows "BuildResponseHelper os ep w = BuildErrorHeader os (if code = 400 then PAGE_400 else PAGE_500)
     (on_response (\<lambda>r. r\<lparr>m_status_line := status_line_of code, m_res_blank := [CR, LF]\<rparr>) ep) w"
  using assms unfolding BuildResponseHelper_def Let_def reply_line unfolding LINE_END_def by auto

lemma response_helper_missing:
  assumes "m_status_code (m_http_response ep) = 404"
  shows "BuildResponseHelper os ep w =
     (let (ep2, w2) = BuildErrorHeader os PAGE_404
        (on_response (\<lambda>r. r\<lparr>m_status_line := status_line_of 404, m_res_blank := [CR, LF]\<rparr>) ep) w
      in BuildErrorHeader os PAGE_500 ep2 w2)"
  using assms unfolding BuildResponseHelper_def Let_def reply_line unfolding LINE_END_def by simp

lemma helper_carries:
  assumes srv: "serves os fs" and hdr: "m_response_header (m_http_response ep) = []"
    and run: "BuildResponseHelper os ep w = (ep', w')"
  shows "m_status_code (m_http_response ep) = 200 \<Longrightarrow>
      (if m_cgi (m_http_request ep) then m_response_body (m_http_response ep) = b else will_send fs ep w b) \<Longrightarrow>
      carries fs ep' w' \<lparr>r_code = 200, r_headers = [], r_body = b\<rparr>"
    and "m_status_code (m_http_response ep) = 400 \<Longrightarrow> \<not> m_cgi (m_http_request ep) \<Longrightarrow>
      carries fs ep' w' (error_reply fs 400 PAGE_400)"
    and "m_status_code (m_http_response ep) = 500 \<Longrightarrow> \<not> m_cgi (m_http_request ep) \<Longrightarrow>
      carries fs ep' w' (error_reply fs 500 PAGE_500)"
    and "m_status_code (m_http_response ep) = 404 \<Longrightarrow> m_response_body (m_http_response ep) = [] \<Longrightarrow>
      carries fs ep' w' (missing_reply fs (m_cgi (m_http_request ep)))"
proof -
  show "m_status_code (m_http_response ep) = 200 \<Longrightarrow>
      (if m_cgi (m_http_request ep) then m_response_body (m_http_response ep) = b else will_send fs ep w b) \<Longrightarrow>
      carries fs ep' w' \<lparr>r_code = 200, r_headers = [], r_body = b\<rparr>"
    using run hdr by (auto simp: BuildResponseHelper_200 carries_def will_send_def split: if_splits)
next
  assume "m_status_code (m_http_response ep) = 400" "\<not> m_cgi (m_http_request ep)"
  with run hdr BuildErrorHeader_props(1-3) [of os PAGE_400] BuildErrorHeader_serves [OF srv, of PAGE_400]
  show "carries fs ep' w' (error_reply fs 400 PAGE_400)"
    by (auto simp: response_helper_error carries_def error_reply_def same_but_response_def)
next
  assume "m_status_code (m_http_response ep) = 500" "\<not> m_cgi (m_http_request ep)"
  with run hdr BuildErrorHeader_props(1-3) [of os PAGE_500] BuildErrorHeader_serves [OF srv, of PAGE_500]
  show "carries fs ep' w' (error_reply fs 500 PAGE_500)"
    by (auto simp: response_helper_error carries_def error_reply_def same_but_response_def)
next
  assume 4: "m_status_code (m_http_response ep) = 404" "m_response_body (m_http_response ep) = []"
  let ?ep1 = "on_response (\<lambda>r. r\<lparr>m_status_line := status_line_of 404, m_res_blank := [CR, LF]\<rparr>) ep"
  obtain ep2 w2 where 1: "BuildErrorHeader os PAGE_404 ?ep1 w = (ep2, w2)" by fastforce
  have 2: "BuildErrorHeader os PAGE_500 ep2 w2 = (ep', w')" using run 1 by (simp add: response_helper_missing 4)
  show "carries fs ep' w' (missing_reply fs (m_cgi (m_http_request ep)))"
    using BuildErrorHeader_props(1-3) [OF 1] BuildErrorHeader_props(1-3) [OF 2] hdr 4
      BuildErrorHeader_serves [OF srv _ 1] BuildErrorHeader_serves [OF srv _ 2]
    by (auto simp: carries_def missing_reply_def same_but_response_def)
qed

section \<open>Serving a located resource\<close>

lemma serve_file_carries:
  assumes srv: "serves os fs" and ep: "\<not> m_cgi (m_http_request ep)" "m_response_header (m_http_response ep) = []"
    "c_str (m_path (m_http_request ep)) = m_path (m_http_request ep)"
    and size: "\<And>x c prog. fs (m_path (m_http_request ep)) = Some (File x c prog) \<Longrightarrow> st_size st = int (length c)"
  shows "\<exists>ep' w'. serve_resource os st ep w = Inr (ep', w') \<and>
    carries fs ep' w' (file_reply fs (m_path (m_http_request ep)))"
proof -
  let ?p = "m_path (m_http_request ep)"
  let ?ep2 = "on_response (m_suffix_update (\<lambda>_. path_suffix ?p)) (on_response (setFileSize (st_size st)) ep)"
  let ?w1 = "emit (EvOut (''not cgi begining'' @ [LF])) w"
  let ?f1 = "os_open os (trace ?w1) ?p"
  let ?w3 = "emit (EvOpen ?p ?f1) ?w1"
  let ?f2 = "os_open os (trace ?w3) ?p"
  let ?w4 = "emit (EvOpen ?p ?f2) ?w3"
  let ?ep5 = "on_response (m_status_code_update (\<lambda>_. if 0 < ?f2 then OK else SERVER_ERROR))
    (on_response (m_fd_update (\<lambda>_. ?f2)) (on_response (m_fd_update (\<lambda>_. ?f1)) ?ep2))"
  obtain ep' w' where h: "BuildResponseHelper os ?ep5 ?w4 = (ep', w')" by fastforce
  have run: "serve_resource os st ep w = Inr (ep', w')"
    using h ep by (simp add: serve_resource_def Let_def NotCgiProcess_eq)
  have hdr: "m_response_header (m_http_response ?ep5) = []" using ep by (simp add: setFileSize_def)
  have "carries fs ep' w' (file_reply fs ?p)"
  proof (cases "fs ?p")
    case None
    then have "\<not> 0 < ?f2" using serves_laws(4) [OF srv, where p = ?p] by blast
    then show ?thesis using helper_carries(3) [OF srv hdr h] None ep
      by (simp add: file_reply_def status_codes)
  next
    case (Some nd)
    then have f: "0 < ?f2" using serves_laws(4) [OF srv, where p = ?p] by blast
    have "will_send fs ?ep5 ?w4 (contents fs ?p)"
    proof (cases nd)
      case (File x c prog)
      then have "st_size st = int (length c)" "contents fs ?p = c" using Some size by (auto simp: contents_def)
      then show ?thesis using f serves_laws(8) [OF srv, of ?p]
        by (simp add: will_send_def opened_path_append setFileSize_def)
    qed (use Some f in \<open>simp add: will_send_def opened_path_append contents_def\<close>)
    then show ?thesis using helper_carries(1) [OF srv hdr h] Some f ep
      by (simp add: file_reply_def status_codes setFileSize_def)
  qed
  with run show ?thesis by blast
qed

lemma serve_cgi_carries:
  assumes srv: "serves os fs" and ep: "m_cgi (m_http_request ep)" "m_response_header (m_http_response ep) = []"
    "m_response_body (m_http_response ep) = []"
    "c_str (m_path (m_http_request ep)) = m_path (m_http_request ep)" and req: "cgi_request (m_http_request ep)"
    and sig: "EvSignal ''SIGCHLD'' \<in> set (trace w)"
  shows "case cgi_reply fs (m_path (m_http_request ep)) (m_method (m_http_request ep)) (m_parameter (m_http_request ep)) of
      None \<Rightarrow> serve_resource os st ep w = Inl Blocked_forever
    | Some r \<Rightarrow> \<exists>ep' w'. serve_resource os st ep w = Inr (ep', w') \<and> carries fs ep' w' r"
proof -
  let ?q = "m_http_request ep"
  let ?p = "m_path ?q"
  let ?prog = "program_of (program_at fs ?p) (plain_env (m_method ?q) (m_parameter ?q)) False []"
  let ?ep2 = "on_response (\<lambda>r. r\<lparr>m_file_size := to_int (st_size st), m_suffix := path_suffix ?p\<rparr>) ep"
  let ?w2 = "emit (EvOut (''cgi begin...'' @ [LF])) w"
  have ready: "can_run os (c_str ?p) (program_at fs ?p)" using serves_laws(7) [OF srv, of ?p] ep by simp
  show ?thesis
  proof (cases ?prog)
    case None
    then have "CgiProcess os ?ep2 ?w2 = Inl Blocked_forever"
      using CgiProcess_blocks [of os ?ep2] ready req by simp
    then have "serve_resource os st ep w = Inl Blocked_forever"
      using ep by (simp add: serve_resource_def setFileSize_def Let_def)
    then show ?thesis using None by (simp add: cgi_reply_def)
  next
    case (Some os1)
    obtain out status where os1: "os1 = (out, status)" by fastforce
    let ?ep5 = "on_response (\<lambda>r. r\<lparr>m_file_size := to_int (st_size st), m_suffix := path_suffix ?p,
      m_response_body := m_response_body r @ out @ out, m_status_code := OK\<rparr>) ep"
    obtain w4 where s: "serve_resource os st ep w = Inr (BuildResponseHelper os ?ep5 w4)"
      using serve_resource_runs [OF ep(1) ready req _ serves_laws(2) [OF srv] sig] Some os1 by blast
    obtain ep' w' where h: "BuildResponseHelper os ?ep5 w4 = (ep', w')" by fastforce
    then have "serve_resource os st ep w = Inr (ep', w')" using s by simp
    moreover have "carries fs ep' w' \<lparr>r_code = 200, r_headers = [], r_body = out @ out\<rparr>"
      using helper_carries(1) [OF srv _ h] ep by (simp add: status_codes)
    ultimately show ?thesis using Some os1 by (simp add: cgi_reply_def)
  qed
qed

text \<open>An end point right after a GET or a POST was parsed.\<close>

definition asks :: "EndPoint \<Rightarrow> string \<Rightarrow> bool" where
  "asks ep M \<longleftrightarrow> M \<in> {''GET'', ''POST''} \<and> m_method (m_http_request ep) = M \<and>
     (m_cgi (m_http_request ep) \<longleftrightarrow> M = ''POST'') \<and> m_request_body (m_http_request ep) = [] \<and>
     m_content_length (m_http_request ep) = 0 \<and> CHR 0x00 \<notin> set (m_parameter (m_http_request ep)) \<and>
     m_status_code (m_http_response ep) = OK \<and> m_response_header (m_http_response ep) = [] \<and>
     m_response_body (m_http_response ep) = []"

lemma serve_asked:
  assumes srv: "serves os fs" and sig: "EvSignal ''SIGCHLD'' \<in> set (trace w)" and asks: "asks ep0 M"
    and ep: "m_http_request ep = (m_http_request ep0)\<lparr>m_path := p, m_cgi := (x \<or> M = ''POST'')\<rparr>"
      "m_response_header (m_http_response ep) = []" "m_response_body (m_http_response ep) = []"
    and p: "prefix WWW_ROOT p" "c_str p = p"
    and size: "\<And>x c prog. fs p = Some (File x c prog) \<Longrightarrow> st_size st = int (length c)"
  shows "case if x \<or> M = ''POST'' then cgi_reply fs p M (m_parameter (m_http_request ep0)) else Some (file_reply fs p) of
      None \<Rightarrow> serve_resource os st ep w = Inl Blocked_forever
    | Some r \<Rightarrow> \<exists>ep' w'. serve_resource os st ep w = Inr (ep', w') \<and> carries fs ep' w' r"
proof (cases "x \<or> M = ''POST''")
  case True
  have "cgi_request (m_http_request ep)" using asks p(1) ep(1) by (simp add: asks_def cgi_request_def)
  with serve_cgi_carries [OF srv, of ep w st] True ep p sig asks show ?thesis by (simp add: asks_def)
next
  case False
  with serve_file_carries [OF srv, of ep st w] ep p size show ?thesis by simp
qed

lemma build_carries:
  assumes srv: "serves os fs" and sig: "EvSignal ''SIGCHLD'' \<in> set (trace w)" and asks: "asks ep M"
    and nul: "CHR 0x00 \<notin> set (m_path (m_http_request ep))"
  shows "case path_reply fs (resource_path (m_path (m_http_request ep))) M (m_parameter (m_http_request ep)) of
      None \<Rightarrow> BuildHttpResponse os ep w = Inl Blocked_forever
    | Some r \<Rightarrow> \<exists>ep' w'. BuildHttpResponse os ep w = Inr (ep', w') \<and> carries fs ep' w' r"
proof -
  let ?p = "resource_path (m_path (m_http_request ep))"
  let ?q = "?p @ ''/'' @ HOME_PAGE"
  have c: "c_str ?p = ?p" by (rule resource_path_nonul [OF nul])
  have cq: "c_str ?q = ?q"
    by (rule c_str_id) (use nul in \<open>auto simp: resource_path_def WWW_ROOT_def HOME_PAGE_def Let_def\<close>)
  let ?w1 = "emit (EvOut (''path:'' @ ?p @ [LF])) w"
  let ?w2 = "emit (EvStat ?p) ?w1"
  let ?ep1 = "on_request (m_path_update (\<lambda>_. ?p)) ep"
  note stat = serves_laws(3) [OF srv, of ?p "trace ?w1"]
  have nb: "m_status_code (m_http_response ep) \<noteq> BAD_REQUEST" using asks by (simp add: asks_def status_codes)
  show ?thesis
  proof (cases "fs ?p")
    case None
    let ?ep2 = "on_response (m_status_code_update (\<lambda>_. NOT_FOUND)) ?ep1"
    obtain ep' w' where h: "BuildResponseHelper os ?ep2 (emit (EvOut (missing_msg @ m_path (m_http_request ep) @ [LF])) ?w2) = (ep', w')"
      by fastforce
    then have "BuildHttpResponse os ep w = Inr (ep', w')"
      using nb None stat c by (simp add: BuildHttpResponse_def os_calls stat_fits_def Let_def)
    moreover have "carries fs ep' w' (missing_reply fs (M = ''POST''))"
      using helper_carries(4) [OF srv _ h] asks by (simp add: asks_def status_codes)
    ultimately show ?thesis using None by (simp add: path_reply_def)
  next
    case (Some nd)
    obtain s where s: "os_stat os (trace ?w1) ?p = Some s" using stat Some by (auto simp: stat_fits_def split: node.splits)
    show ?thesis
    proof (cases nd)
      case Dir
      let ?ep2 = "on_response (m_suffix_update (\<lambda>_. ''.html''))
        (on_request (addToPath HOME_PAGE) (on_request (addToPath ''/'') ?ep1))"
      let ?st = "case os_stat os (trace ?w2) ?q of Some s \<Rightarrow> s | None \<Rightarrow> s"
      have run: "BuildHttpResponse os ep w = serve_resource os ?st ?ep2 (emit (EvStat ?q) ?w2)"
        using nb Some Dir stat c cq s
        by (simp add: BuildHttpResponse_def locate_resource_def os_calls stat_fits_def addToPath_def Let_def)
      have eq: "path_reply fs ?p M (m_parameter (m_http_request ep)) =
        (if False \<or> M = ''POST'' then cgi_reply fs ?q M (m_parameter (m_http_request ep)) else Some (file_reply fs ?q))"
        using Some Dir by (simp add: path_reply_def)
      have size: "st_size ?st = int (length ct)" if "fs ?q = Some (File x ct prog)" for x ct prog
        using serves_laws(3) [OF srv, of ?q "trace ?w2"] that by (auto simp: stat_fits_def)
      show ?thesis unfolding run eq
        by (rule serve_asked [OF srv _ asks _ _ _ _ cq size])
           (use sig asks in \<open>simp_all add: asks_def addToPath_def\<close>)
    next
      case (File x ct prog)
      let ?ep2 = "on_request (m_cgi_update (\<lambda>_. x \<or> M = ''POST'')) ?ep1"
      have "locate_resource os s ?ep1 ?w2 = (?ep2, s, ?w2)"
        by (cases ep; cases "m_http_request ep")
           (use Some File stat s asks in \<open>auto simp: locate_resource_def stat_fits_def asks_def\<close>)
      then have run: "BuildHttpResponse os ep w = serve_resource os s ?ep2 ?w2"
        using nb c s by (simp add: BuildHttpResponse_def os_calls Let_def)
      have eq: "path_reply fs ?p M (m_parameter (m_http_request ep)) =
        (if x \<or> M = ''POST'' then cgi_reply fs ?p M (m_parameter (m_http_request ep)) else Some (file_reply fs ?p))"
        using Some File by (simp add: path_reply_def)
      show ?thesis unfolding run eq
        by (rule serve_asked [OF srv _ asks _ _ _ _ c])
           (use sig asks Some File stat s in \<open>auto simp: asks_def stat_fits_def\<close>)
    qed
  qed
qed

section \<open>The handler implements the specification\<close>

lemma target_path_eq: "target_path u = resource_path u"
proof (cases u rule: rev_cases)
  case Nil
  then show ?thesis by (simp add: target_path_def resource_path_def WWW_ROOT_def)
next
  case (snoc v c)
  have "(WWW_ROOT @ v @ [c]) ! (length (WWW_ROOT @ v @ [c]) - 1) = c"
    by (metis append.assoc append_is_Nil_conv last_conv_nth last_snoc not_Cons_self2)
  then show ?thesis unfolding target_path_def resource_path_def Let_def snoc by (simp add: WWW_ROOT_def HOME_PAGE_def)
qed

lemma build_requested:
  assumes srv: "serves os fs" and sig: "EvSignal ''SIGCHLD'' \<in> set (trace w)" and nul: "CHR 0x00 \<notin> set u"
    and ep: "m_http_request ep = parsed_request m u v"
      "m_http_response ep = (new_HttpResponse fd0 size0)\<lparr>m_status_code := parsed_status m\<rparr>"
  shows "case http_spec fs m u of
      None \<Rightarrow> BuildHttpResponse os ep w = Inl Blocked_forever
    | Some r \<Rightarrow> \<exists>ep' w'. BuildHttpResponse os ep w = Inr (ep', w') \<and> carries fs ep' w' r"
proof -
  let ?M = "map toupper m"
  have set: "set (fst (query_split u)) \<subseteq> set u" "set (snd (query_split u)) \<subseteq> set u"
    by (auto simp: query_split_def cut_of_def split: option.splits dest: in_set_takeD in_set_dropD)
  show ?thesis
  proof (cases "?M \<in> {''GET'', ''POST''}")
    case True
    let ?path = "if ?M = ''GET'' then fst (query_split u) else u"
    let ?par = "if ?M = ''GET'' then snd (query_split u) else []"
    have q: "m_path (m_http_request ep) = ?path" "m_parameter (m_http_request ep) = ?par"
      using ep(1) True by (auto simp: parsed_request_def Let_def)
    have n: "CHR 0x00 \<notin> set ?path" "CHR 0x00 \<notin> set ?par" using set nul by auto
    have asks: "asks ep ?M" using True ep q(2) n(2)
      by (auto simp: asks_def parsed_request_def parsed_status_def message_defs Let_def)
    have spec: "http_spec fs m u = path_reply fs (resource_path ?path) ?M ?par"
      using True by (auto simp: http_spec_def target_path_eq Let_def split: prod.split)
    show ?thesis using build_carries [OF srv sig asks] n(1) unfolding spec q by blast
  next
    case False
    obtain ep' w' where h: "BuildResponseHelper os ep w = (ep', w')" by fastforce
    have "BuildHttpResponse os ep w = Inr (ep', w')"
      using False ep(2) h by (simp add: BuildHttpResponse_def parsed_status_def)
    moreover have "carries fs ep' w' (error_reply fs 400 PAGE_400)"
      using helper_carries(2) [OF srv _ h] False ep
      by (simp add: parsed_status_def parsed_request_def message_defs status_codes Let_def)
    ultimately show ?thesis using False by (simp add: http_spec_def Let_def)
  qed
qed

lemma handler_refines_spec:
  assumes "serves os fs" and "request_ok m u v hs" and "CHR 0x00 \<notin> set u"
    and "sock_in w = map RByte (request_line m u v) @ RByte CR # RByte LF # header_block hs @ i"
    and "EvSignal ''SIGCHLD'' \<in> set (trace w)"
  shows "case http_spec fs m u of
      None \<Rightarrow> HandlerRequest os False fd0 size0 sock w = Inl Blocked_forever
    | Some r \<Rightarrow> \<exists>w'. HandlerRequest os False fd0 size0 sock w = Inr w' \<and>
        wire sock (trace w') = wire sock (trace w) @ reply_bytes r"
proof -
  let ?ep = "\<lparr>m_sock = sock, m_http_request = parsed_request m u v,
    m_http_response = (new_HttpResponse fd0 size0)\<lparr>m_status_code := parsed_status m\<rparr>, m_stop = False\<rparr>"
  let ?w1 = "w\<lparr>sock_in := i, trace := trace w @ parse_events m u v\<rparr>"
  have recv: "RecvHttpRequest (new_EndPoint sock False fd0 size0) w = Inr (?ep, ?w1)"
    by (rule RecvHttpRequest_parses [OF assms(2,4)])
  have wire1: "wire sock (trace ?w1) = wire sock (trace w)" by (simp add: parse_events_def)
  have sig: "EvSignal ''SIGCHLD'' \<in> set (trace ?w1)" using assms(5) by simp
  note build = build_requested [OF assms(1) sig assms(3), of ?ep m v fd0 size0]
  show ?thesis
  proof (cases "http_spec fs m u")
    case None
    then show ?thesis using build recv by (simp add: HandlerRequest_def)
  next
    case (Some r)
    then obtain ep' w' where b: "BuildHttpResponse os ?ep ?w1 = Inr (ep', w')" and c: "carries fs ep' w' r"
      using build by auto
    have "m_sock ep' = sock" "grows build_event ?w1 w'"
      using BuildHttpResponse_props [OF b RecvHttpRequest_fresh(1) [OF recv]] by simp_all
    moreover have "HandlerRequest os False fd0 size0 sock w = Inr (sys_close sock (SendHttpResponse os ep' w'))"
      using recv b by (simp add: HandlerRequest_def)
    ultimately show ?thesis
      using send_carried [OF assms(1) c] grows_build_wire [of ?w1 w' sock] wire1 Some by simp
  qed
qed

text \<open>
  C1 (refinement, the protocol half as a whole). On a system that serves the file system \<open>fs\<close>
  the handler computes \<open>http_spec\<close>: for every well-formed request, whatever its method, target, version
  and headers, the bytes that go out on its socket are exactly the reply the
  specification gives for the file system, and the handler waits for ever exactly when the target
  names a CGI program that never ends on an empty input pipe that stays open.
\<close>

theorem HandlerRequest_refines_spec:
  assumes "serves os fs" and "request_ok m u v hs" and "CHR 0x00 \<notin> set u"
    and "sock_in w = map RByte (request_line m u v) @ RByte CR # RByte LF # header_block hs @ i"
    and "EvSignal ''SIGCHLD'' \<in> set (trace w)"
  shows "case http_spec fs m u of
      None \<Rightarrow> HandlerRequest os False fd0 size0 sock w = Inl Blocked_forever
    | Some r \<Rightarrow> \<exists>w'. HandlerRequest os False fd0 size0 sock w = Inr w' \<and>
        wire sock (trace w') = wire sock (trace w) @ reply_bytes r"
  using assms by (rule handler_refines_spec)

section \<open>A system for every file system\<close>

definition fs_os :: "fs \<Rightarrow> os" where
  "fs_os fs = \<lparr>
     os_stat = (\<lambda>h p. case fs p of
         None \<Rightarrow> None
       | Some Dir \<Rightarrow> Some \<lparr>st_mode = 0x41ED, st_size = 4096\<rparr>
       | Some (File x c prog) \<Rightarrow> Some \<lparr>st_mode = (if x then 0x81ED else 0x81A4), st_size = int (length c)\<rparr>),
     os_open = (\<lambda>h p. if fs p = None then -1 else 5),
     os_pipe = (\<lambda>h. Some (6, 7)),
     os_fork = (\<lambda>h. 100),
     os_exec = (\<lambda>h p. program_at fs p),
     os_freed = (\<lambda>h s. s),
     os_write = (\<lambda>h fd s. int (length s)),
     os_waitpid = (\<lambda>h pid. if EvSignal ''SIGCHLD'' \<in> set h then -1 else pid),
     os_send = (\<lambda>h fd s. int (length s)),
     os_sendfile = (\<lambda>h fd n. case opened_path fd h of None \<Rightarrow> [] | Some p \<Rightarrow> take (nat n) (contents fs p)),
     os_socket = (\<lambda>h. 3),
     os_bind = (\<lambda>h fd port. 0),
     os_listen = (\<lambda>h fd. 0),
     os_accept = (\<lambda>h fd. (8, 0))\<rparr>"

lemma fs_os_serves:
  assumes "\<And>p. length (contents fs p) < 2 ^ 31"
    and "\<And>p. p \<in> {PAGE_400, PAGE_404, PAGE_500} \<Longrightarrow> fs p \<noteq> Some Dir"
  shows "serves (fs_os fs) fs"
proof -
  have "stat_fits (fs p) (os_stat (fs_os fs) h p)" for h p
    by (auto simp: stat_fits_def fs_os_def S_ISDIR_def executable_def split: node.splits option.splits)
  moreover have "full_send (fs_os fs)" "sigchld_law (fs_os fs)" "can_run (fs_os fs) p (program_at fs p)" for p
    by (simp_all add: full_send_def sigchld_law_def can_run_def fs_os_def)
  moreover have "0 < os_open (fs_os fs) h p \<longleftrightarrow> fs p \<noteq> None" for h p by (simp add: fs_os_def)
  moreover have "fd \<le> 0 \<Longrightarrow> os_sendfile (fs_os fs) h fd n = []"
    "opened_path fd h = Some q \<Longrightarrow> os_sendfile (fs_os fs) h fd n = take (nat n) (contents fs q)" for h fd n q
    by (simp_all add: fs_os_def opened_path_def)
  ultimately show ?thesis using assms unfolding serves_def by blast
qed

text \<open>The files the witnesses use: a page, an error page, a program and one that never ends.\<close>

definition demo_fs :: fs where
  "demo_fs p =
     (if p = ''wwwroot/index.html'' then Some (File False ''hello'' None)
      else if p = ''wwwroot/404.html'' then Some (File False ''missing'' None)
      else if p = ''wwwroot/500.html'' then Some (File False ''oops!'' None)
      else if p = ''wwwroot/test_cgi'' then Some (File True ''#!'' (Some (\<lambda>env ended inp. Some (concat env, 0))))
      else if p = ''wwwroot/loop_cgi'' then Some (File True ''#!'' (Some (\<lambda>env ended inp. None)))
      else if p = ''wwwroot/sub'' then Some Dir
      else if p = ''wwwroot/sub/index.html'' then Some (File False ''sub page'' None)
      else None)"

lemma demo_fs_serves: "serves (fs_os demo_fs) demo_fs"
  by (rule fs_os_serves) (auto simp: demo_fs_def contents_def PAGE_400_def PAGE_404_def PAGE_500_def)

lemma demo_fs_replies:
  "http_spec demo_fs ''get'' ''/'' = Some \<lparr>r_code = 200, r_headers = [], r_body = ''hello''\<rparr>"
  "http_spec demo_fs ''GET'' ''/sub'' = Some \<lparr>r_code = 200, r_headers = [], r_body = ''sub page''\<rparr>"
  "http_spec demo_fs ''GET'' ''/test_cgi?a=1'' =
     Some \<lparr>r_code = 200, r_headers = [], r_body = ''METHOD=GETPARAMETER=a=1METHOD=GETPARAMETER=a=1''\<rparr>"
  "http_spec demo_fs ''GET'' ''/loop_cgi'' = None"
  "http_spec demo_fs ''PUT'' ''/'' = Some \<lparr>r_code = 400, r_headers = [], r_body = []\<rparr>"
  "http_spec demo_fs ''GET'' ''/none'' = Some \<lparr>r_code = 404,
     r_headers = [''Content-Type: text/html'' @ [CR, LF], ''Content-Length: 7'' @ [CR, LF],
       ''Content-Type: text/html'' @ [CR, LF], ''Content-Length: 5'' @ [CR, LF]], r_body = ''oops!''\<rparr>"
  by code_simp+

text \<open>A missing file, and a program that never ends.\<close>

lemma HandlerRequest_refines_spec_witness:
  "(\<exists>w'. HandlerRequest (fs_os demo_fs) False 0 0 8 (demo_world ''GET'' ''/none'') = Inr w' \<and>
      wire 8 (trace w') = wire 8 (trace (demo_world ''GET'' ''/none'')) @ reply_bytes \<lparr>r_code = 404,
        r_headers = [''Content-Type: text/html'' @ [CR, LF], ''Content-Length: 7'' @ [CR, LF],
          ''Content-Type: text/html'' @ [CR, LF], ''Content-Length: 5'' @ [CR, LF]], r_body = ''oops!''\<rparr>) \<and>
   HandlerRequest (fs_os demo_fs) False 0 0 8 (demo_world ''GET'' ''/loop_cgi'') = Inl Blocked_forever"
proof -
  have ok: "request_ok ''GET'' u ''HTTP/1.1'' [''Host: h'']" "CHR 0x00 \<notin> set u" if "u \<in> {''/none'', ''/loop_cgi''}" for u
    using that by (auto intro!: demo_request_ok simp: word_ok_def isspace_def)
  have sig: "EvSignal ''SIGCHLD'' \<in> set (trace (demo_world ''GET'' u))" for u by simp
  show ?thesis
    using HandlerRequest_refines_spec [OF demo_fs_serves ok(1) ok(2) demo_world_in(1) sig, of "''/none''" 0 0 8]
      HandlerRequest_refines_spec [OF demo_fs_serves ok(1) ok(2) demo_world_in(1) sig, of "''/loop_cgi''" 0 0 8]
    unfolding demo_fs_replies option.case by simp
qed

end
