(* ===== verification/Http_Total.thy ===== *)
theory Http_Total
  imports Http_Spec
begin

text \<open>
  The handler comes to an end (src/protocal.cc): on inputs below 2 GiB no exception leaves it, and
  it returns unless a CGI program does not end.
\<close>

section \<open>No exception leaves the handler\<close>

lemma reads_line_short: "reads_line i n out i' \<Longrightarrow> 0 < n \<Longrightarrow> length out \<le> length i"
  by (auto simp: reads_line_def suffix_def split: if_splits)

lemma next_word_short: "next_word s = (w, s') \<Longrightarrow> length w + length s' \<le> length s"
proof -
  assume "next_word s = (w, s')"
  then have "w @ s' = dropWhile isspace s" by (auto simp: next_word_def Let_def)
  then have "length w + length s' = length (dropWhile isspace s)" by (metis length_append)
  then show ?thesis using length_dropWhile_le [of isspace s] by simp
qed

text \<open>The request line, and with it the target, is no longer than what was read.\<close>

lemma line_short:
  assumes "RecvHttpRequestLine ep w = (False, ep', w')" and "m_request_line (m_http_request ep) = []"
    and "length (sock_in w) < 2 ^ 31"
  shows "length (m_request_line (m_http_request ep')) < length (sock_in w)"
proof -
  obtain n l i where r: "ReaLine (sock_in w) [] = (n, l, i)" by (metis surj_pair)
  have n: "0 < n" using assms(1,2) r by (auto simp: RecvHttpRequestLine_def Let_def split: if_splits)
  have rl: "reads_line (sock_in w) n l i" by (rule ReaLine_reads_line [OF r])
  then have len: "length l \<le> length (sock_in w)" using n by (rule reads_line_short)
  then have "n = int (length l)" using rl n assms(3)
    by (auto simp: reads_line_def size_int_small split: if_splits)
  then have "to_size (n - 1) = length l - 1" "0 < length l"
    using n len assms(3) by (simp_all add: to_size_nonneg)
  moreover have "m_request_line (m_http_request ep') = resize l (to_size (n - 1))"
    using assms(1,2) r n by (auto simp: RecvHttpRequestLine_def Let_def)
  ultimately have "length (m_request_line (m_http_request ep')) = length l - 1" by (simp add: resize_def)
  with \<open>0 < length l\<close> len show ?thesis by linarith
qed

lemma url_short:
  "length (m_url (m_http_request (ParseHttpRequestLine ep))) \<le> length (m_request_line (m_http_request ep))"
proof -
  let ?l = "m_request_line (m_http_request ep)"
  obtain w1 s1 where 1: "next_word ?l = (w1, s1)" by fastforce
  obtain w2 s2 where 2: "next_word s1 = (w2, s2)" by fastforce
  show ?thesis using next_word_short [OF 1] next_word_short [OF 2] 1 2
    by (simp add: ParseHttpRequestLine_def transformMethod_def Let_def split: prod.split)
qed

lemma ParseURL_total:
  assumes "length (m_url (m_http_request ep)) < 2 ^ 31"
  shows "\<exists>x. ParseURL ep w = Inr x"
proof -
  obtain p where "Cutstring (m_url (m_http_request ep)) [] [] ''?'' = Inr p"
    using Cutstring_cut_of [of "m_url (m_http_request ep)" "''?''"] assms by (simp add: small_def)
  then show ?thesis by (cases p) (simp add: ParseURL_def Let_def)
qed

lemma RecvHttpRequest_total:
  assumes "length (sock_in w) < 2 ^ 31"
  shows "\<exists>x. RecvHttpRequest (new_EndPoint s b fd n) w = Inr x"
proof -
  let ?ep = "new_EndPoint s b fd n"
  obtain b1 ep1 w1 where 1: "RecvHttpRequestLine ?ep w = (b1, ep1, w1)" by (metis surj_pair)
  obtain b2 ep2 w2 where 2: "RecvHttpRequestHeader ep1 w1 = (b2, ep2, w2)" by (metis surj_pair)
  have inv: "recv_inv ?ep (ParseHttpRequestLine ep2)"
    by (rule recv_inv_parse [OF recv_inv_header [OF recv_inv_line [OF recv_inv_new 1] 2]])
  show ?thesis
  proof (cases "b1 \<or> b2")
    case True
    with 1 2 show ?thesis by (auto simp: RecvHttpRequest_def)
  next
    case False
    then have "length (m_request_line (m_http_request ep1)) < 2 ^ 31"
      using line_short [of ?ep w ep1 w1] 1 assms by (simp add: message_defs)
    moreover have "m_request_line (m_http_request ep2) = m_request_line (m_http_request ep1)"
      using 2 header_loop_only_stop [of ep1 w1] by (auto simp: RecvHttpRequestHeader_def split: if_splits)
    ultimately obtain ep4 w4 where 4: "ParseURL (ParseHttpRequestLine ep2) w2 = Inr (ep4, w4)"
      using ParseURL_total url_short le_less_trans by (metis surj_pair)
    then have "ParseHttpRequestHeader ep4 = Inr ep4" using recv_inv_url [OF inv 4]
      by (simp add: ParseHttpRequestHeader_def recv_inv_def no_headers_def)
    with False 1 2 4 show ?thesis by (simp add: RecvHttpRequest_def Let_def)
  qed
qed

text \<open>Building fails only in a program that does not end.\<close>

definition endless :: "os \<Rightarrow> bool" where
  "endless os \<longleftrightarrow> (\<exists>h p env inp. program_of (os_exec os h p) env False inp = None)"

lemma cgi_parent_fails:
  assumes "cgi_parent os ep pid pin pout w = Inl e"
  shows "e = Blocked_forever \<and> endless os"
proof -
  let ?q = "m_http_request ep"
  obtain env prog w1 where 1: "cgi_child os ?q w = ((env, prog), w1)" by (metis surj_pair)
  then obtain h p where prog: "prog = program_of (os_exec os h p)" by (auto simp: cgi_child_def Let_def)
  obtain inp w3 where 3: "(if m_method ?q = ''POST''
      then cgi_write_loop os (snd pin) (m_request_body ?q) (sys_close (snd pout) (sys_close (fst pin) w1))
      else ([], sys_close (snd pout) (sys_close (fst pin) w1))) = (inp, w3)"
    by fastforce
  have "prog env False inp = None \<and> e = Blocked_forever"
    using assms unfolding cgi_parent_run Let_def 1 prod.case fst_conv snd_conv 3
    by (auto simp: os_calls Let_def split: option.splits)
  with prog show ?thesis by (auto simp: endless_def)
qed

lemma CgiProcess_fails: "CgiProcess os ep w = Inl e \<Longrightarrow> e = Blocked_forever \<and> endless os"
  using cgi_parent_fails by (auto simp: CgiProcess_def split: prod.splits option.splits if_splits)

lemma serve_resource_fails: "serve_resource os st ep w = Inl e \<Longrightarrow> e = Blocked_forever \<and> endless os"
  using CgiProcess_fails by (auto simp: serve_resource_def Let_def split: if_splits sum.splits prod.splits)

lemma BuildHttpResponse_fails: "BuildHttpResponse os ep w = Inl e \<Longrightarrow> e = Blocked_forever \<and> endless os"
  using serve_resource_fails
  by (auto simp: BuildHttpResponse_def Let_def split: if_splits option.splits prod.splits)

text \<open>
  C4 (termination). Whatever a client sends, as long as it is less than 2 GiB, and whatever the
  system answers: the handler never throws and always comes to an end and returns, except that it waits for ever
  for a CGI program that does not end on an input that stays open; where every program does, the handler always returns.
\<close>

theorem HandlerRequest_returns:
  assumes "length (sock_in w) < 2 ^ 31"
  shows "(\<exists>w'. HandlerRequest os stop0 fd0 size0 sock w = Inr w') \<or>
    (HandlerRequest os stop0 fd0 size0 sock w = Inl Blocked_forever \<and>
     (\<exists>h p env inp. program_of (os_exec os h p) env False inp = None))"
proof -
  obtain ep w1 where r: "RecvHttpRequest (new_EndPoint sock stop0 fd0 size0) w = Inr (ep, w1)"
    using RecvHttpRequest_total [OF assms] by (metis surj_pair)
  show ?thesis
    using r BuildHttpResponse_fails [of os ep w1]
    by (cases "BuildHttpResponse os ep w1") (auto simp: HandlerRequest_def endless_def)
qed

text \<open>A POST without a header block: nothing is answered, but the handler returns.\<close>

lemma HandlerRequest_returns_witness:
  "(\<exists>w'. HandlerRequest demo_os True 3 4 8 \<lparr>sock_in = map RByte ''POST /x'', trace = []\<rparr> = Inr w') \<or>
    (HandlerRequest demo_os True 3 4 8 \<lparr>sock_in = map RByte ''POST /x'', trace = []\<rparr> = Inl Blocked_forever \<and>
     (\<exists>h p env inp. program_of (os_exec demo_os h p) env False inp = None))"
  by (rule HandlerRequest_returns) simp

end
