(* ===== verification/Server_Run.thy ===== *)
theory Server_Run
  imports Http_Server Http_Total
begin

text \<open>
  The running server: the pool of src/thread_pool.cc with the handler of src/protocal.cc in its
  workers. A state is the pool and the events so far; when a worker carries out a task, the
  handler runs on what the client of that socket sent.
\<close>

section \<open>Pool and handlers together\<close>

text \<open>
  One step: a call of a thread that handles nothing, a worker that runs the handler to its end, or an event
  of another part of the process that sends nothing (the accept loop goes on meanwhile). \<open>fd0\<close> and
  \<open>size0\<close> are whatever the memory of the new end point holds.
\<close>

inductive server_step :: "os \<Rightarrow> (task \<Rightarrow> rx list) \<Rightarrow> pool \<times> event list \<Rightarrow> act option \<Rightarrow> pool \<times> event list \<Rightarrow> bool"
  for os client where
  quiet: "pool_step s a s' \<Longrightarrow> handled s' = handled s \<Longrightarrow> server_step os client (s, h) (Some a) (s', h)"
| handle: "pool_step s a s' \<Longrightarrow> handled s' = handled s @ [(i, t)] \<Longrightarrow>
    HandlerTask_call os False fd0 size0 t \<lparr>sock_in = client t, trace = h\<rparr> = Inr w \<Longrightarrow>
    server_step os client (s, h) (Some a) (s', trace w)"
| other: "\<forall>fd. event_wire fd e = [] \<Longrightarrow> server_step os client (s, h) None (s, h @ [e])"

inductive_cases ServerE: "server_step os client c (Some a) c'"
inductive_cases OtherE: "server_step os client c None c'"

inductive server_run :: "os \<Rightarrow> (task \<Rightarrow> rx list) \<Rightarrow> pool \<times> event list \<Rightarrow> act list \<Rightarrow> pool \<times> event list \<Rightarrow> bool"
  for os client c0 where
  server_Nil: "server_run os client c0 [] c0"
| server_act: "server_run os client c0 as c1 \<Longrightarrow> server_step os client c1 (Some a) c2 \<Longrightarrow> server_run os client c0 (as @ [a]) c2"
| server_other: "server_run os client c0 as c1 \<Longrightarrow> server_step os client c1 None c2 \<Longrightarrow> server_run os client c0 as c2"

text \<open>A client that sends a request to which the specification has a reply.\<close>

definition asked :: "fs \<Rightarrow> ('a \<Rightarrow> rx list) \<Rightarrow> ('a \<Rightarrow> http_reply) \<Rightarrow> 'a \<Rightarrow> bool" where
  "asked fs client rep t \<longleftrightarrow> (\<exists>m u v hs i. request_ok m u v hs \<and> CHR 0x00 \<notin> set u \<and> http_spec fs m u = Some (rep t) \<and>
     client t = map RByte (request_line m u v) @ RByte CR # RByte LF # header_block hs @ i)"

lemma handler_replies:
  assumes "serves os fs" and "asked fs client rep t" and "EvSignal ''SIGCHLD'' \<in> set h"
  shows "\<exists>w. HandlerTask_call os False fd0 size0 t \<lparr>sock_in = client t, trace = h\<rparr> = Inr w \<and>
    wire t (trace w) = wire t h @ reply_bytes (rep t)"
proof -
  obtain m u v hs i where r: "request_ok m u v hs" "CHR 0x00 \<notin> set u" "http_spec fs m u = Some (rep t)"
    "client t = map RByte (request_line m u v) @ RByte CR # RByte LF # header_block hs @ i"
    using assms(2) by (auto simp: asked_def)
  let ?w = "emit (EvLog INFO ''HandlerTask'') \<lparr>sock_in = client t, trace = h\<rparr>"
  have "sock_in ?w = map RByte (request_line m u v) @ RByte CR # RByte LF # header_block hs @ i"
    "EvSignal ''SIGCHLD'' \<in> set (trace ?w)" using r(4) assms(3) by simp_all
  from handler_refines_spec [OF assms(1) r(1,2) this] r(3) show ?thesis
    by (fastforce simp: HandlerTask_call_def)
qed

lemma handler_elsewhere:
  assumes "HandlerTask_call os stop0 fd0 size0 t \<lparr>sock_in = input, trace = h\<rparr> = Inr w"
  shows "fd \<noteq> t \<Longrightarrow> wire fd (trace w) = wire fd h" and "set h \<subseteq> set (trace w)"
proof -
  let ?w = "emit (EvLog INFO ''HandlerTask'') \<lparr>sock_in = input, trace = h\<rparr>"
  have run: "HandlerRequest os stop0 fd0 size0 t ?w = Inr w" using assms by (simp add: HandlerTask_call_def)
  obtain w1 es where w1: "trace w1 = trace ?w @ es" "list_all (handler_event t) es" "w = sys_close t w1"
    using HandlerRequest_grows [OF run] by (auto simp: grows_def)
  have "list_all (handler_event t) xs \<Longrightarrow> fd \<noteq> t \<Longrightarrow> wire fd xs = []" for xs
    by (induction xs) (auto simp: handler_event_wire)
  then show "fd \<noteq> t \<Longrightarrow> wire fd (trace w) = wire fd h" using w1 by (simp add: os_calls)
  show "set h \<subseteq> set (trace w)" using w1(1,3) by (auto simp: os_calls)
qed

section \<open>The invariant of a run\<close>

text \<open>
  A run of the server is a run of the pool; the signal stays ignored; and every socket
  carries the reply to its client as often as it was handled.
\<close>

definition answered :: "(task \<Rightarrow> http_reply) \<Rightarrow> event list \<Rightarrow> pool \<Rightarrow> event list \<Rightarrow> bool" where
  "answered rep h0 s h \<longleftrightarrow> EvSignal ''SIGCHLD'' \<in> set h \<and>
     (\<forall>t. wire t h = wire t h0 @ concat (replicate (count (mset (map snd (handled s))) t) (reply_bytes (rep t))))"

lemma pool_step_handled: "pool_step s a s' \<Longrightarrow> handled s' = handled s \<or> (\<exists>i t. handled s' = handled s @ [(i, t)])"
  by (cases rule: pool_step.cases)
     (auto simp: goto_def main_goto_def Lock_def UnLock_def Wait_def push_def PopTask_def HanderTask_def
       split: if_splits list.splits)

lemma handled_tasks:
  assumes "pool_inv ts s"
  shows "set (map snd (handled s)) \<subseteq> set ts"
proof -
  have "mset (map snd (handled s)) \<subseteq># mset (popped s)" "set (popped s) \<subseteq> set ts"
    using assms by (auto simp: pool_inv_def task_inv_def in_order_def)
  then show ?thesis by (metis set_mset_mono set_mset_mset subset_trans)
qed

lemma replicate_commute: "x @ concat (replicate n x) = concat (replicate n x) @ x"
  by (induction n) simp_all

lemma server_run_inv:
  assumes "server_run os client (new_pool (InitThreadPool created num) ts, h0) as c"
    and srv: "serves os fs" and asked: "\<And>t. t \<in> set ts \<Longrightarrow> asked fs client rep t" and sig: "EvSignal ''SIGCHLD'' \<in> set h0"
  shows "pool_run (new_pool (InitThreadPool created num) ts) as (fst c) \<and> answered rep h0 (fst c) (snd c)"
  using assms(1)
proof (induction rule: server_run.induct)
  case server_Nil
  then show ?case using sig by (simp add: answered_def new_pool_def run_Nil)
next
  case (server_act as c1 a c2)
  from server_act.hyps(2) show ?case
  proof (cases rule: server_step.cases)
    case (quiet s s' h)
    then show ?thesis using server_act.IH by (auto simp: answered_def intro: run_snoc)
  next
    case (handle s s' i t fd0 size0 h w)
    have run: "pool_run (new_pool (InitThreadPool created num) ts) (as @ [a]) s'"
      using server_act.IH handle by (auto intro: run_snoc)
    then have "t \<in> set ts" using pool_run_inv [OF run] handled_tasks handle(4) by fastforce
    moreover have IH: "answered rep h0 s h" using server_act.IH handle(1) by simp
    ultimately have "wire t (trace w) = wire t h @ reply_bytes (rep t)"
      using handler_replies [OF srv asked, of t h fd0 size0] handle(5) by (auto simp: answered_def)
    then have "answered rep h0 s' (trace w)"
      using IH handler_elsewhere [OF handle(5)] handle(4)
      by (auto simp: answered_def replicate_commute)
    then show ?thesis using run handle(2) by simp
  qed
next
  case (server_other as c1 c2)
  from server_other.hyps(2) show ?case
    by (cases rule: server_step.cases) (use server_other.IH in \<open>auto simp: answered_def\<close>)
qed

text \<open>Where the server cannot go on, the pool cannot: no handler blocks on such clients.\<close>

lemma server_stuck_pool:
  assumes "answered rep h0 s h" and "pool_inv ts s" and srv: "serves os fs"
    and asked: "\<And>t. t \<in> set ts \<Longrightarrow> asked fs client rep t"
    and stuck: "\<And>a c. server_step os client (s, h) (Some a) c \<Longrightarrow> is_spurious a"
    and step: "pool_step s a s'"
  shows "is_spurious a"
proof (cases "handled s' = handled s")
  case True
  then show ?thesis using stuck quiet [OF step] by blast
next
  case False
  then obtain i t where t: "handled s' = handled s @ [(i, t)]" using pool_step_handled [OF step] by blast
  have "t \<in> set ts" using handled_tasks [OF pool_inv_step [OF step assms(2)]] t by simp
  then obtain w where "HandlerTask_call os False 0 0 t \<lparr>sock_in = client t, trace = h\<rparr> = Inr w"
    using handler_replies [OF srv asked] assms(1) by (fastforce simp: answered_def)
  then show ?thesis using stuck handle [OF step t] by blast
qed

text \<open>Every run of the pool is a run of the server: a handler with such a client always gets through.\<close>

lemma server_follows_pool:
  assumes "pool_run (new_pool (InitThreadPool created num) ts) as s"
    and srv: "serves os fs" and asked: "\<And>t. t \<in> set ts \<Longrightarrow> asked fs client rep t" and sig: "EvSignal ''SIGCHLD'' \<in> set h0"
  shows "\<exists>h. server_run os client (new_pool (InitThreadPool created num) ts, h0) as (s, h)"
  using assms(1)
proof (induction "new_pool (InitThreadPool created num) ts" as s rule: pool_run.induct)
  case run_Nil
  then show ?case using server_Nil by blast
next
  case (run_snoc as s1 a s2)
  then obtain h where h: "server_run os client (new_pool (InitThreadPool created num) ts, h0) as (s1, h)" by blast
  have sigh: "EvSignal ''SIGCHLD'' \<in> set h" using server_run_inv [OF h srv asked sig] by (simp add: answered_def)
  show ?case
  proof (cases "handled s2 = handled s1")
    case True
    then show ?thesis using server_act [OF h quiet] run_snoc.hyps(3) by blast
  next
    case False
    then obtain i t where t: "handled s2 = handled s1 @ [(i, t)]" using pool_step_handled run_snoc.hyps(3) by blast
    have "pool_inv ts s2" using pool_run_inv pool_run.run_snoc [OF run_snoc.hyps(1,3)] by blast
    then have "t \<in> set ts" using handled_tasks t by fastforce
    then obtain w where "HandlerTask_call os False 0 0 t \<lparr>sock_in = client t, trace = h\<rparr> = Inr w"
      using handler_replies [OF srv asked sigh] by blast
    then show ?thesis using server_act [OF h handle [OF run_snoc.hyps(3) t]] by blast
  qed
qed

section \<open>The accept loop sends nothing\<close>

lemma start_events_wire: "wire fd (start_events os p h) = []"
  by (simp add: start_events_def init_events_def Let_def)

lemma loop_rounds_wire: "wire fd (trace (final_world (loop_rounds os l n hs w))) = wire fd (trace w)"
proof (induction n arbitrary: hs w)
  case (Suc n)
  show ?case by (cases rule: loop_round_cases [of os w l hs]) (simp_all add: Suc.IH)
qed simp

section \<open>The whole server\<close>

text \<open>
  C2 (liveness, main, loop, pool and handlers together). Whatever connections arrive and in whatever
  order the threads run: when \<open>main\<close> has run any number of rounds on a system that serves a file system, every
  client has sent a well-formed request the specification has a reply for, and the server cannot go on but for
  spurious wakeups, then every socket carries exactly the specified reply, once for each time it was
  accepted, and no other socket carries anything.
\<close>

theorem server_answers_every_connection:
  assumes "socket_calls_ok os" and "length argv = 2" and "main_fn os created n argv w = Some r"
    and "trace (final_world r) = trace w @ es" and "\<exists>i < NUM. created i" and "serves os fs"
    and "\<And>t. t \<in> set (accepted es) \<Longrightarrow> asked fs client rep t"
    and "server_run os client (new_pool (InitThreadPool created NUM) (pushes es), trace (final_world r)) as (s, h)"
    and "\<And>a c. server_step os client (s, h) (Some a) c \<Longrightarrow> is_spurious a"
  shows "wire t h = wire t (trace w) @ concat (replicate (count (mset (accepted es)) t) (reply_bytes (rep t)))"
proof -
  let ?start = "start_events os (atoi (argv ! 1)) (trace w)"
  let ?w = "w\<lparr>trace := trace w @ ?start\<rparr>"
  obtain hs l where "main_fn os created n argv w = Some (loop_rounds os l n hs ?w)"
    using main_start [OF assms(1,2)] by blast
  with assms(3) have r: "r = loop_rounds os l n hs ?w" by simp
  obtain es2 where es2: "trace (final_world r) = trace ?w @ es2" "pushes es2 = accepted es2"
    using loop_rounds_events [of os l n hs ?w] r by blast
  with assms(4) have es: "es = ?start @ es2" by simp
  have quiet_start: "pushes ?start = []" "accepted ?start = []" "EvSignal ''SIGCHLD'' \<in> set ?start"
    by (simp_all add: start_events_def init_events_def Let_def)
  then have p: "pushes es = accepted es" and sig: "EvSignal ''SIGCHLD'' \<in> set (trace (final_world r))"
    using es es2 by simp_all
  have asked: "t \<in> set (pushes es) \<Longrightarrow> asked fs client rep t" for t using assms(7) p by simp
  note inv = server_run_inv [OF assms(8,6) asked sig, simplified]
  have pool: "pool_inv (pushes es) s" "length (workers s) = length (InitThreadPool created NUM)"
    using pool_run_inv [OF conjunct1 [OF inv]] by blast+
  have ne: "workers s \<noteq> []" using pool(2) assms(5) by (auto simp: InitThreadPool_def filter_empty_conv)
  have "is_spurious a" if "pool_step s a s'" for a s'
    by (rule server_stuck_pool [OF conjunct2 [OF inv] pool(1) assms(6) asked assms(9) that])
  then have "mset (map snd (handled s)) = mset (accepted es)"
    using stuck_final [OF pool(1) ne] p by simp
  moreover have "wire t (trace (final_world r)) = wire t (trace w)"
    using loop_rounds_wire [of t os l n hs ?w] r start_events_wire by simp
  ultimately show ?thesis using conjunct2 [OF inv] by (simp add: answered_def)
qed

section \<open>A concrete run\<close>

lemma demo_asked: "asked demo_fs (\<lambda>t. sock_in (demo_world ''GET'' ''/index.html''))
    (\<lambda>t. \<lparr>r_code = 200, r_headers = [], r_body = ''hello''\<rparr>) t"
proof -
  have spec: "http_spec demo_fs ''GET'' ''/index.html'' = Some \<lparr>r_code = 200, r_headers = [], r_body = ''hello''\<rparr>"
    by code_simp
  show ?thesis unfolding asked_def
    by (rule exI [of _ "''GET''"], rule exI [of _ "''/index.html''"], rule exI [of _ "''HTTP/1.1''"],
        rule exI [of _ "[''Host: h'']"], rule exI [of _ "[]"])
       (simp add: spec demo_request_ok demo_words)
qed

text \<open>One round of the loop accepts the socket 8, and the demonstration run of the pool answers it.\<close>

lemma server_answers_every_connection_witness:
  "\<exists>r h. main_fn (fs_os demo_fs) (\<lambda>i. i < 2) 1 [''./http_server'', ''8081''] \<lparr>sock_in = [], trace = []\<rparr> = Some r \<and>
    server_run (fs_os demo_fs) (\<lambda>t. sock_in (demo_world ''GET'' ''/index.html''))
      (new_pool (InitThreadPool (\<lambda>i. i < 2) NUM) [8], trace (final_world r)) demo_acts (demo_end, h) \<and>
    wire 8 h = ''HTTP/1.1 200 OK'' @ [CR, LF, CR, LF] @ ''hello''"
proof -
  let ?os = "fs_os demo_fs" and ?w = "\<lparr>sock_in = [], trace = []\<rparr>"
  let ?client = "\<lambda>t :: task. sock_in (demo_world ''GET'' ''/index.html'')"
  let ?rep = "\<lambda>t :: task. \<lparr>r_code = 200, r_headers = [], r_body = ''hello''\<rparr>"
  have ok: "socket_calls_ok ?os" by (simp add: socket_calls_ok_def fs_os_def)
  have acc: "os_accept ?os h fd = (8, 0)" for h fd by (simp add: fs_os_def)
  obtain hs l where m: "main_fn ?os (\<lambda>i. i < 2) 1 [''./http_server'', ''8081''] ?w =
      Some (loop_rounds ?os l 1 hs (?w\<lparr>trace := trace ?w @ start_events ?os (atoi ''8081'') []\<rparr>))"
    using main_start [OF ok, of "[''./http_server'', ''8081'']" "\<lambda>i. i < 2" 1 ?w] by auto
  let ?r = "loop_rounds ?os l 1 hs (?w\<lparr>trace := trace ?w @ start_events ?os (atoi ''8081'') []\<rparr>)"
  let ?es = "start_events ?os (atoi ''8081'') [] @ [EvAccept4 l 8, EvLog INFO ''accept success!'', EvPush 8]"
  have tr: "trace (final_world ?r) = trace ?w @ ?es"
    by (simp add: loop_round_def os_calls emit_def Let_def acc)
  have es: "pushes ?es = [8]" "accepted ?es = [8]" "EvSignal ''SIGCHLD'' \<in> set ?es"
    by (simp_all add: start_events_def init_events_def Let_def)
  have pool: "new_pool (InitThreadPool (\<lambda>i. i < 2) NUM) [8] = new_pool (InitThreadPool (\<lambda>i. True) 2) [8]"
    by (simp add: InitThreadPool_def NUM_def numeral_2_eq_2 numeral_3_eq_3)
  have run: "pool_run (new_pool (InitThreadPool (\<lambda>i. i < 2) NUM) [8]) demo_acts demo_end"
    using demo_pool_run pool by simp
  have sig: "EvSignal ''SIGCHLD'' \<in> set (trace (final_world ?r))" using es(3) tr by simp
  obtain h where h: "server_run ?os ?client (new_pool (InitThreadPool (\<lambda>i. i < 2) NUM) [8], trace (final_world ?r))
      demo_acts (demo_end, h)"
    using server_follows_pool [OF run demo_fs_serves demo_asked sig] by blast
  have stuck: "is_spurious a" if "server_step ?os ?client (demo_end, h) (Some a) c" for a c
    using that by (cases rule: server_step.cases) (auto intro: demo_stuck)
  have "wire 8 h = wire 8 (trace ?w) @ concat (replicate (count (mset (accepted ?es)) 8) (reply_bytes (?rep 8)))"
    by (rule server_answers_every_connection [OF ok _ m tr _ demo_fs_serves demo_asked _ stuck])
       (use es(1) h in \<open>auto intro!: exI [of _ 0] simp: NUM_def\<close>)
  also have "\<dots> = reply_bytes (?rep 8)" unfolding es(2) by simp
  also have "\<dots> = ''HTTP/1.1 200 OK'' @ [CR, LF, CR, LF] @ ''hello''" by code_simp
  finally show ?thesis using m h by blast
qed

end
