(* ===== verification/Lazy_Singleton.thy ===== *)
theory Lazy_Singleton
  imports Prelude
begin

text \<open>
  The double-checked creation of the two singletons when several threads ask for one
  (\<open>ThreadPool::GetThreadPool\<close> in src/thread_pool.cc; \<open>TcpServer::GetTcpServer\<close> in
  src/tcp_server.cc has the same steps). The static pointer is read without the lock first,
  and is set before the object is initialised.
\<close>

section \<open>Steps\<close>

text \<open>
  Where a thread is: before the first test, at the lock, at the second test, at \<open>new\<close>, at the
  initialisation, at the unlock, at the return, and back with the pointer it got.
\<close>

datatype gpc = GTest1 | GLock | GTest2 | GNew | GInit | GUnlock | GReturn | GDone "nat option"

text \<open>Objects are numbered in the order of their creation; \<open>ready\<close> lists the initialised ones.\<close>

record gstate =
  instance_ptr :: "nat option"
  holder :: "nat option"
  made :: nat
  ready :: "nat list"
  pcs :: "gpc list"

definition get_start :: "nat \<Rightarrow> gstate" where
  "get_start n = \<lparr>instance_ptr = None, holder = None, made = 0, ready = [], pcs = replicate n GTest1\<rparr>"

definition set_pc :: "nat \<Rightarrow> gpc \<Rightarrow> gstate \<Rightarrow> gstate" where
  "set_pc i pc s = s\<lparr>pcs := (pcs s)[i := pc]\<rparr>"

text \<open>One step of thread \<open>i\<close>; \<open>None\<close> when it cannot move.\<close>

definition get_step :: "nat \<Rightarrow> gstate \<Rightarrow> gstate option" where
  "get_step i s =
     (if i < length (pcs s) then
        (case pcs s ! i of
           GTest1 \<Rightarrow> Some (set_pc i (if instance_ptr s = None then GLock else GReturn) s)
         | GLock \<Rightarrow> if holder s = None then Some (set_pc i GTest2 (s\<lparr>holder := Some i\<rparr>)) else None
         | GTest2 \<Rightarrow> Some (set_pc i (if instance_ptr s = None then GNew else GUnlock) s)
         | GNew \<Rightarrow> Some (set_pc i GInit (s\<lparr>instance_ptr := Some (made s), made := made s + 1\<rparr>))
         | GInit \<Rightarrow> Some (set_pc i GUnlock (s\<lparr>ready := ready s @ [the (instance_ptr s)]\<rparr>))
         | GUnlock \<Rightarrow> Some (set_pc i GReturn (s\<lparr>holder := None\<rparr>))
         | GReturn \<Rightarrow> Some (set_pc i (GDone (instance_ptr s)) s)
         | GDone p \<Rightarrow> None)
      else None)"

fun get_run :: "nat list \<Rightarrow> gstate \<Rightarrow> gstate option" where
  "get_run [] s = Some s"
| "get_run (i # is) s = (case get_step i s of None \<Rightarrow> None | Some s' \<Rightarrow> get_run is s')"

inductive_set reachable :: "nat \<Rightarrow> gstate set" for n where
  start: "get_start n \<in> reachable n"
| step: "s \<in> reachable n \<Longrightarrow> get_step i s = Some s' \<Longrightarrow> s' \<in> reachable n"

section \<open>The invariant\<close>

fun locked :: "gpc \<Rightarrow> bool" where
  "locked GTest2 = True" | "locked GNew = True" | "locked GInit = True" | "locked GUnlock = True"
| "locked _ = False"

text \<open>The lock is held exactly by the thread past it.\<close>

definition lockers :: "gstate \<Rightarrow> nat set" where
  "lockers s = {i. i < length (pcs s) \<and> locked (pcs s ! i)}"

text \<open>What a thread's place says about the number of objects made.\<close>

fun pc_ok :: "nat \<Rightarrow> gpc \<Rightarrow> bool" where
  "pc_ok m GNew = (m = 0)"
| "pc_ok m GInit = (m = 1)" | "pc_ok m GUnlock = (m = 1)" | "pc_ok m GReturn = (m = 1)"
| "pc_ok m (GDone p) = (p = Some 0 \<and> m = 1)"
| "pc_ok m _ = True"

definition initialising :: "gstate \<Rightarrow> bool" where
  "initialising s \<longleftrightarrow> (\<exists>i < length (pcs s). pcs s ! i = GInit)"

definition get_inv :: "gstate \<Rightarrow> bool" where
  "get_inv s \<longleftrightarrow> lockers s = set_option (holder s) \<and>
     instance_ptr s = (if made s = 0 then None else Some 0) \<and> made s \<le> 1 \<and>
     (\<forall>i < length (pcs s). pc_ok (made s) (pcs s ! i)) \<and>
     ready s = (if made s = 1 \<and> \<not> initialising s then [0] else [])"

lemma lockers_set_pc: "i < length (pcs s) \<Longrightarrow>
  lockers (set_pc i pc s) = (if locked pc then insert i (lockers s) else lockers s - {i})"
  by (auto simp: lockers_def set_pc_def nth_list_update)

lemma set_pc_simps [simp]:
  "holder (set_pc i pc s) = holder s" "made (set_pc i pc s) = made s" "ready (set_pc i pc s) = ready s"
  "instance_ptr (set_pc i pc s) = instance_ptr s" "pcs (set_pc i pc s) = (pcs s)[i := pc]"
  by (simp_all add: set_pc_def)

lemma lockers_ops [simp]:
  "lockers (s\<lparr>holder := h\<rparr>) = lockers s" "lockers (s\<lparr>ready := r\<rparr>) = lockers s"
  "lockers (s\<lparr>instance_ptr := p, made := m\<rparr>) = lockers s"
  by (simp_all add: lockers_def)

text \<open>A thread past the lock is the only one.\<close>

lemma alone: "get_inv s \<Longrightarrow> i < length (pcs s) \<Longrightarrow> locked (pcs s ! i) \<Longrightarrow>
  lockers s = {i} \<and> holder s = Some i \<and> (\<forall>j < length (pcs s). locked (pcs s ! j) \<longrightarrow> j = i)"
proof -
  assume inv: "get_inv s" and i: "i < length (pcs s)" "locked (pcs s ! i)"
  have "i \<in> set_option (holder s)" using inv i by (auto simp: get_inv_def lockers_def)
  then have h: "holder s = Some i" by simp
  then have "lockers s = {i}" using inv by (simp add: get_inv_def)
  moreover from this have "\<forall>j < length (pcs s). locked (pcs s ! j) \<longrightarrow> j = i" unfolding lockers_def by blast
  ultimately show ?thesis using h by blast
qed

lemma all_upd: "\<forall>j < length xs. P (xs ! j) \<Longrightarrow> P x \<Longrightarrow> \<forall>j < length (xs[i := x]). P (xs[i := x] ! j)"
  by (metis length_list_update nth_list_update_eq nth_list_update_neq)

lemma initialising_upd: "i < length (pcs s) \<Longrightarrow> pcs s ! i \<noteq> GInit \<Longrightarrow> pc \<noteq> GInit \<Longrightarrow>
  (\<exists>j < length (pcs s). (pcs s)[i := pc] ! j = GInit) = (\<exists>j < length (pcs s). pcs s ! j = GInit)"
  by (metis nth_list_update_eq nth_list_update_neq)

lemma get_inv_step:
  assumes "get_inv s" "get_step i s = Some s'"
  shows "get_inv s'"
proof -
  have i: "i < length (pcs s)" using assms(2) by (simp add: get_step_def split: if_splits)
  have oks: "\<forall>j < length (pcs s). pc_ok (made s) (pcs s ! j)" using assms(1) by (simp add: get_inv_def)
  have ok: "pc_ok (made s) (pcs s ! i)" using oks i by blast
  have made: "instance_ptr s = (if made s = 0 then None else Some 0)" "made s = 0 \<or> made s = 1"
    using assms(1) by (auto simp: get_inv_def)
  have stay: "get_inv (set_pc i pc s)"
    if "locked pc = locked (pcs s ! i)" "pc_ok (made s) pc" "pcs s ! i \<noteq> GInit" "pc \<noteq> GInit" for pc
  proof -
    have "lockers (set_pc i pc s) = lockers s"
      unfolding lockers_set_pc [OF i] using that(1) i by (auto simp: lockers_def)
    then show ?thesis using assms(1) that all_upd [OF oks, of pc i] initialising_upd [OF i that(3,4)]
      by (simp add: get_inv_def initialising_def)
  qed
  show ?thesis
  proof (cases "pcs s ! i")
    case GTest1
    then have "s' = set_pc i (if made s = 0 then GLock else GReturn) s"
      using assms(2) i made by (auto simp: get_step_def split: if_splits)
    then show ?thesis using stay [of GLock] stay [of GReturn] GTest1 made(2) by auto
  next
    case GTest2
    then have "s' = set_pc i (if made s = 0 then GNew else GUnlock) s"
      using assms(2) i made by (auto simp: get_step_def split: if_splits)
    then show ?thesis using stay [of GNew] stay [of GUnlock] GTest2 made(2) by auto
  next
    case GReturn
    then have "s' = set_pc i (GDone (Some 0)) s" "made s = 1"
      using assms(2) i made ok by (simp_all add: get_step_def)
    then show ?thesis using stay [of "GDone (Some 0)"] GReturn by simp
  next
    case GLock
    then have s': "s' = set_pc i GTest2 (s\<lparr>holder := Some i\<rparr>)" "holder s = None"
      using assms(2) i by (simp_all add: get_step_def split: if_splits)
    then show ?thesis using assms(1) i all_upd [OF oks, of GTest2 i] initialising_upd [OF i, of GTest2] GLock
      by (simp add: get_inv_def lockers_set_pc initialising_def)
  next
    case GUnlock
    then have s': "s' = set_pc i GReturn (s\<lparr>holder := None\<rparr>)" using assms(2) i by (simp add: get_step_def)
    have "lockers s = {i}" using alone [OF assms(1) i] GUnlock by simp
    then show ?thesis using s' assms(1) i all_upd [OF oks, of GReturn i] initialising_upd [OF i, of GReturn] GUnlock ok
      by (simp add: get_inv_def lockers_set_pc initialising_def)
  next
    case GNew
    then have s': "s' = set_pc i GInit (s\<lparr>instance_ptr := Some (made s), made := made s + 1\<rparr>)"
      using assms(2) i by (simp add: get_step_def)
    have al: "lockers s = {i}" "\<forall>j < length (pcs s). locked (pcs s ! j) \<longrightarrow> j = i" "holder s = Some i"
      using alone [OF assms(1) i] GNew by auto
    have "pc_ok 1 ((pcs s)[i := GInit] ! j)" if "j < length (pcs s)" for j
    proof (cases "j = i")
      case False
      have "\<not> locked (pcs s ! j)" using al(2) that False by blast
      moreover have "pc_ok 0 (pcs s ! j)" using oks that ok GNew by (metis pc_ok.simps(1))
      ultimately show ?thesis using False by (cases "pcs s ! j") simp_all
    qed (use i in simp)
    then have "\<forall>j < length (pcs s'). pc_ok (made s') (pcs s' ! j)" using s' ok GNew by simp
    moreover have "initialising s'" using i s' by (auto simp: initialising_def intro: exI [of _ i])
    moreover have "lockers s' = {i}" "holder s' = Some i" using s' i al(1,3) by (simp_all add: lockers_set_pc)
    moreover have "ready s' = []" "made s' = 1" "instance_ptr s' = Some 0"
      using assms(1) ok GNew s' by (simp_all add: get_inv_def)
    ultimately show ?thesis by (simp add: get_inv_def)
  next
    case GInit
    then have s': "s' = set_pc i GUnlock (s\<lparr>ready := ready s @ [the (instance_ptr s)]\<rparr>)"
      using assms(2) i by (simp add: get_step_def)
    have al: "lockers s = {i}" "\<forall>j < length (pcs s). locked (pcs s ! j) \<longrightarrow> j = i" "holder s = Some i"
      using alone [OF assms(1) i] GInit by auto
    have "(pcs s)[i := GUnlock] ! j \<noteq> GInit" if "j < length (pcs s)" for j
    proof (cases "j = i")
      case False
      have "\<not> locked (pcs s ! j)" using al(2) that False by blast
      then show ?thesis using False by auto
    qed (use i in simp)
    then have "\<not> initialising s'" using s' by (simp add: initialising_def)
    moreover have "initialising s" using i GInit by (auto simp: initialising_def)
    moreover have "lockers s' = {i}" "holder s' = Some i" using s' i al(1,3) by (simp_all add: lockers_set_pc)
    moreover have "\<forall>j < length (pcs s'). pc_ok (made s') (pcs s' ! j)"
      using s' ok GInit all_upd [OF oks, of GUnlock i] by simp
    moreover have "made s' = 1" "instance_ptr s' = Some 0" "ready s' = ready s @ [0]"
      using assms(1) ok GInit s' by (simp_all add: get_inv_def)
    ultimately show ?thesis using assms(1) by (simp add: get_inv_def)
  next
    case (GDone p)
    then show ?thesis using assms(2) i by (simp add: get_step_def)
  qed
qed

lemma get_inv_start: "get_inv (get_start n)"
  by (auto simp: get_inv_def get_start_def lockers_def initialising_def)

lemma get_step_length: "get_step i s = Some s' \<Longrightarrow> length (pcs s') = length (pcs s)"
  by (auto simp: get_step_def split: if_splits gpc.splits)

lemma reachable_inv: "s \<in> reachable n \<Longrightarrow> get_inv s \<and> length (pcs s) = n"
proof (induction rule: reachable.induct)
  case start
  then show ?case using get_inv_start by (simp add: get_start_def)
next
  case (step s i s')
  then show ?case using get_inv_step get_step_length by metis
qed

lemma get_run_reachable: "s \<in> reachable n \<Longrightarrow> get_run is s = Some s' \<Longrightarrow> s' \<in> reachable n"
proof (induction "is" arbitrary: s)
  case (Cons i "is")
  then show ?case by (auto split: option.splits intro: reachable.step)
qed simp

text \<open>Steps a thread has left.\<close>

fun left :: "gpc \<Rightarrow> nat" where
  "left GTest1 = 7" | "left GLock = 6" | "left GTest2 = 5" | "left GNew = 4" | "left GInit = 3"
| "left GUnlock = 2" | "left GReturn = 1" | "left (GDone p) = 0"

lemma sum_list_upd: "i < length xs \<Longrightarrow> f x < f (xs ! i) \<Longrightarrow> sum_list (map f (xs[i := x])) < sum_list (map f xs :: nat list)"
proof (induction xs arbitrary: i)
  case (Cons y xs)
  then show ?case by (cases i) auto
qed simp

lemma left_step: "get_step i s = Some s' \<Longrightarrow> sum_list (map left (pcs s')) < sum_list (map left (pcs s))"
  by (auto simp: get_step_def split: if_splits gpc.splits intro!: sum_list_upd)

lemma not_stuck:
  assumes "get_inv s" "i < length (pcs s)" "\<forall>p. pcs s ! i \<noteq> GDone p"
  shows "\<exists>j s'. get_step j s = Some s'"
proof (cases "pcs s ! i = GLock \<and> holder s \<noteq> None")
  case True
  then obtain j where j: "holder s = Some j" by auto
  then have "j \<in> lockers s" using assms(1) by (simp add: get_inv_def)
  then have "j < length (pcs s)" "locked (pcs s ! j)" by (simp_all add: lockers_def)
  then have "\<exists>s'. get_step j s = Some s'" by (cases "pcs s ! j") (simp_all add: get_step_def)
  then show ?thesis by blast
next
  case False
  then have "\<exists>s'. get_step i s = Some s'"
    using assms(2,3) by (cases "pcs s ! i") (simp_all add: get_step_def)
  then show ?thesis by blast
qed

section \<open>Properties\<close>

text \<open>
  C34 (safety, every interleaving). However many threads ask at once, at most one object is
  ever made, and every call returns that object.
\<close>

theorem singleton_unique:
  assumes "s \<in> reachable n"
  shows "made s \<le> 1 \<and> (\<forall>i < n. \<forall>p. pcs s ! i = GDone p \<longrightarrow> p = Some 0 \<and> instance_ptr s = Some 0)"
proof -
  have inv: "get_inv s" "length (pcs s) = n" using reachable_inv [OF assms] by auto
  have "p = Some 0 \<and> instance_ptr s = Some 0" if "i < n" "pcs s ! i = GDone p" for i p
  proof -
    have "pc_ok (made s) (GDone p)" using inv that by (metis get_inv_def)
    then show ?thesis using inv(1) by (simp add: get_inv_def)
  qed
  then show ?thesis using inv(1) by (simp add: get_inv_def)
qed

text \<open>
  The pointer is published before the object is initialised: with two
  threads one can come back with the object while the other has yet to initialise it. A
  single thread always gets an initialised object.
\<close>

theorem singleton_published_early:
  "(\<exists>s \<in> reachable 2. pcs s ! 1 = GDone (Some 0) \<and> ready s = []) \<and>
   (\<forall>s \<in> reachable 1. \<forall>p. pcs s ! 0 = GDone p \<longrightarrow> ready s = [the p])"
proof (intro conjI ballI allI impI)
  let ?s = "\<lparr>instance_ptr = Some 0, holder = Some 0, made = 1, ready = [], pcs = [GInit, GDone (Some 0)]\<rparr>"
  have "get_run [0, 0, 0, 0, 1, 1] (get_start 2) = Some ?s"
    by (simp add: get_start_def numeral_2_eq_2 get_step_def set_pc_def)
  then have "?s \<in> reachable 2" using get_run_reachable reachable.start by blast
  then show "\<exists>s \<in> reachable 2. pcs s ! 1 = GDone (Some 0) \<and> ready s = []" by (intro bexI [of _ ?s]) simp_all
next
  fix s p
  assume s: "s \<in> reachable 1" and p: "pcs s ! 0 = GDone p"
  have inv: "get_inv s" "length (pcs s) = 1" using reachable_inv [OF s] by auto
  have "pc_ok (made s) (pcs s ! 0)" using inv by (simp add: get_inv_def)
  moreover have "\<not> initialising s" using inv(2) p by (simp add: initialising_def)
  ultimately show "ready s = [the p]" using inv(1) p by (simp add: get_inv_def)
qed

text \<open>
  Every call returns: a run of \<open>n\<close> threads has at most \<open>7 n\<close> steps, and as
  long as a thread has not returned some thread can move.
\<close>

theorem singleton_terminates:
  "(get_run is (get_start n) = Some s \<longrightarrow> length is + sum_list (map left (pcs s)) \<le> 7 * n) \<and>
   (s \<in> reachable n \<longrightarrow> (\<exists>i < n. \<forall>p. pcs s ! i \<noteq> GDone p) \<longrightarrow> (\<exists>j s'. get_step j s = Some s'))"
proof (intro conjI impI)
  have run: "get_run is t = Some s \<Longrightarrow> length is + sum_list (map left (pcs s)) \<le> sum_list (map left (pcs t))" for t
  proof (induction "is" arbitrary: t)
    case (Cons i "is")
    then obtain t' where "get_step i t = Some t'" "get_run is t' = Some s" by (auto split: option.splits)
    then show ?case using Cons.IH [of t'] left_step [of i t t'] by simp
  qed simp
  have "sum_list (map left (pcs (get_start n))) = 7 * n"
    by (simp add: get_start_def sum_list_replicate)
  with run [of "get_start n"] show "get_run is (get_start n) = Some s \<Longrightarrow>
    length is + sum_list (map left (pcs s)) \<le> 7 * n" by simp
next
  assume "s \<in> reachable n" "\<exists>i < n. \<forall>p. pcs s ! i \<noteq> GDone p"
  then show "\<exists>j s'. get_step j s = Some s'" using reachable_inv not_stuck by metis
qed

lemma singleton_unique_witness:
  "\<exists>s \<in> reachable 1. pcs s ! 0 = GDone (Some 0) \<and> made s \<le> 1 \<and> instance_ptr s = Some 0"
proof -
  obtain s where r: "get_run [0, 0, 0, 0, 0, 0, 0] (get_start 1) = Some s" and p: "pcs s ! 0 = GDone (Some 0)"
    by (simp add: get_start_def get_step_def set_pc_def)
  have s: "s \<in> reachable 1" using get_run_reachable reachable.start r by blast
  from singleton_unique [OF this] p s show ?thesis by auto
qed

lemma singleton_published_early_witness:
  "\<exists>s \<in> reachable 1. pcs s ! 0 = GDone (Some 0) \<and> ready s = [0]"
proof -
  obtain s where r: "get_run [0, 0, 0, 0, 0, 0, 0] (get_start 1) = Some s" and p: "pcs s ! 0 = GDone (Some 0)"
    by (simp add: get_start_def get_step_def set_pc_def)
  have s: "s \<in> reachable 1" using get_run_reachable reachable.start r by blast
  then show ?thesis using singleton_published_early p by fastforce
qed

lemma singleton_terminates_witness:
  "\<exists>s. get_run [0, 0, 1] (get_start 2) = Some s \<and> 3 + sum_list (map left (pcs s)) \<le> 14 \<and>
     (\<exists>j s'. get_step j s = Some s')"
proof -
  obtain s where r: "get_run [0, 0, 1] (get_start 2) = Some s" and p: "pcs s ! 1 = GLock"
    by (simp add: get_start_def numeral_2_eq_2 get_step_def set_pc_def)
  have "s \<in> reachable 2" using get_run_reachable reachable.start r by blast
  moreover have "\<exists>i < 2. \<forall>p. pcs s ! i \<noteq> GDone p" using p by (intro exI [of _ 1]) simp
  ultimately have "\<exists>j s'. get_step j s = Some s'" using singleton_terminates by blast
  moreover have "length [0, 0, 1 :: nat] + sum_list (map left (pcs s)) \<le> 7 * 2" using singleton_terminates r by blast
  ultimately show ?thesis using r by auto
qed

end
