(* ===== verification/Log_Format.thy ===== *)
theory Log_Format
  imports Cstd Log_Level
begin

text \<open>
  The pattern formatter of the log (src/log.cc, include/log.h): \<open>LogFormatter::init\<close>, which
  parses a pattern into format items, the items, and \<open>LogFormatter::format\<close>.
\<close>

section \<open>Events and items\<close>

text \<open>
  A log event; \<open>logger_name\<close> is the name of the logger the event was made for, and
  \<open>content\<close> what was written into its string stream.
\<close>

record LogEvent =
  m_file :: string
  m_line :: int
  m_elapse :: nat
  m_threadId :: nat
  m_fiberId :: nat
  m_time :: nat
  content :: string
  logger_name :: string
  event_level :: Level

datatype FormatItem = MessageFormatItem | LevelFormatItem | ElapseFormatItem | NameFormatItem
  | ThreadIdFormatItem | FiberIdFormatItem | DataTimeFormatItem string | FilenameFormatItem
  | LineFormatItem | NewLineFormatItem | StringFormatItem string | TabFormatItem

definition date_format :: string where
  "date_format = ''%Y-%m-%d %H:%M:%S''"

text \<open>The constructor of the date item replaces an empty format.\<close>

definition new_DataTimeFormatItem :: "string \<Rightarrow> FormatItem" where
  "new_DataTimeFormatItem f = DataTimeFormatItem (if f = [] then date_format else f)"

text \<open>
  What an item writes. \<open>localtime_r\<close> and \<open>strftime\<close> depend on the time zone of the machine:
  \<open>date f t\<close> is the text they make of the time \<open>t\<close> under the format \<open>f\<close>.
\<close>

fun item_text :: "(string \<Rightarrow> nat \<Rightarrow> string) \<Rightarrow> Level \<Rightarrow> LogEvent \<Rightarrow> FormatItem \<Rightarrow> string" where
  "item_text date level e MessageFormatItem = content e"
| "item_text date level e LevelFormatItem = toString level"
| "item_text date level e ElapseFormatItem = show_nat (m_elapse e)"
| "item_text date level e NameFormatItem = logger_name e"
| "item_text date level e ThreadIdFormatItem = show_nat (m_threadId e)"
| "item_text date level e FiberIdFormatItem = show_nat (m_fiberId e)"
| "item_text date level e (DataTimeFormatItem f) = date f (m_time e)"
| "item_text date level e FilenameFormatItem = m_file e"
| "item_text date level e LineFormatItem = show_int (m_line e)"
| "item_text date level e NewLineFormatItem = [CHR 0x0A]"
| "item_text date level e (StringFormatItem s) = s"
| "item_text date level e TabFormatItem = [CHR 0x09]"

text \<open>The table from directives to the constructors of items.\<close>

definition s_format_items :: "string \<Rightarrow> (string \<Rightarrow> FormatItem) option" where
  "s_format_items str =
     (if str = ''m'' then Some (\<lambda>fmt. MessageFormatItem)
      else if str = ''p'' then Some (\<lambda>fmt. LevelFormatItem)
      else if str = ''r'' then Some (\<lambda>fmt. ElapseFormatItem)
      else if str = ''c'' then Some (\<lambda>fmt. NameFormatItem)
      else if str = ''t'' then Some (\<lambda>fmt. ThreadIdFormatItem)
      else if str = ''n'' then Some (\<lambda>fmt. NewLineFormatItem)
      else if str = ''d'' then Some new_DataTimeFormatItem
      else if str = ''f'' then Some (\<lambda>fmt. FilenameFormatItem)
      else if str = ''l'' then Some (\<lambda>fmt. LineFormatItem)
      else if str = ''T'' then Some (\<lambda>fmt. TabFormatItem)
      else if str = ''F'' then Some (\<lambda>fmt. FiberIdFormatItem)
      else None)"

section \<open>Parsing a pattern\<close>

text \<open>
  The inner loop, which scans the directive that starts at \<open>i\<close>: \<open>n\<close> is the position,
  \<open>status\<close> is 1 between the braces, \<open>beg\<close> the position of the opening one. The answer is the
  final status and position with the name and the format found. The positions handed to
  \<open>substr\<close> are never past the end of the pattern.
\<close>

function scan :: "string \<Rightarrow> nat \<Rightarrow> nat \<Rightarrow> nat \<Rightarrow> nat \<Rightarrow> string \<Rightarrow> nat \<times> nat \<times> string \<times> string" where
  "scan p i n status beg str =
     (if n < length p then
        (if status = 0 \<and> \<not> isalpha (p ! n) \<and> p ! n \<noteq> CHR ''{'' \<and> p ! n \<noteq> CHR ''}''
         then (status, n, take (n - i - 1) (drop (i + 1) p), [])
         else if status = 0 \<and> p ! n = CHR ''{''
         then scan p i (n + 1) 1 n (take (n - i - 1) (drop (i + 1) p))
         else if status = 1 \<and> p ! n = CHR ''}''
         then (0, n + 1, str, take (n - beg - 1) (drop (beg + 1) p))
         else scan p i (n + 1) status beg
                (if n + 1 = length p \<and> str = [] then drop (i + 1) p else str))
      else (status, n, str, []))"
  by pat_completeness auto
termination scan
  by (relation "measure (\<lambda>(p, i, n, status, beg, str). length p - n)") auto

declare scan.simps [simp del]

lemma scan_ge: "scan p i n status beg str = (st', n', s', f') \<Longrightarrow> n \<le> n'"
proof (induction p i n status beg str rule: scan.induct)
  case (1 p i n status beg str)
  have "(st', n', s', f') = scan p i n status beg str" using "1.prems" by simp
  then show ?case
    by (subst (asm) scan.simps) (use "1.IH" in \<open>fastforce split: if_splits\<close>)
qed

text \<open>
  The entries the first loop collects: text, format and 0 for plain text, 1 for a directive.
  A pending text \<open>nstr\<close> is flushed before a directive and at the end.
\<close>

type_synonym entry = "string \<times> string \<times> nat"

definition flush :: "string \<Rightarrow> entry list" where
  "flush nstr = (if nstr = [] then [] else [(nstr, [], 0)])"

text \<open>
  The first loop of \<open>init\<close>, from position \<open>i\<close>, with the flag \<open>m_error\<close> and what it prints to
  \<open>std::cout\<close>. After \<open>%%\<close> it goes on at the second percent sign: the position is advanced by
  one only.
\<close>

function parse_loop :: "string \<Rightarrow> nat \<Rightarrow> string \<Rightarrow> entry list \<times> bool \<times> string" where
  "parse_loop p i nstr =
     (if i < length p then
        (if p ! i \<noteq> CHR ''%'' then parse_loop p (i + 1) (nstr @ [p ! i])
         else if i + 1 < length p \<and> p ! (i + 1) = CHR ''%'' then parse_loop p (i + 1) (nstr @ ''%'')
         else (case scan p i (i + 1) 0 0 [] of
            (status, n, str, fmt) \<Rightarrow>
              if status = 0
              then (case parse_loop p n [] of (vec, err, out) \<Rightarrow> (flush nstr @ (str, fmt, 1) # vec, err, out))
              else (case parse_loop p (i + 1) nstr of
                      (vec, err, out) \<Rightarrow> ((''<<pattern_error>>'', fmt, 0) # vec, True,
                        ''pattern parse error:'' @ p @ ''-'' @ drop i p @ CHR 0x0A # out))))
      else (flush nstr, False, []))"
  by pat_completeness auto
termination parse_loop
  by (relation "measure (\<lambda>(p, i, nstr). length p - i)") (auto dest!: sym [THEN scan_ge])

declare parse_loop.simps [simp del]

text \<open>The second loop turns the entries into items; an unknown directive is an error.\<close>

fun build_items :: "entry list \<Rightarrow> FormatItem list \<times> bool" where
  "build_items [] = ([], False)"
| "build_items ((str, fmt, ty) # vec) =
     (case build_items vec of (items, err) \<Rightarrow>
        if ty = 0 then (StringFormatItem str # items, err)
        else (case s_format_items str of
            None \<Rightarrow> (StringFormatItem (''<<error_format %'' @ str @ ''>>'') # items, True)
          | Some mk \<Rightarrow> (mk fmt # items, err)))"

record LogFormatter =
  m_pattern :: string
  m_items :: "FormatItem list"
  m_error :: bool

definition new_LogFormatter :: "string \<Rightarrow> LogFormatter" where
  "new_LogFormatter pattern =
     (case parse_loop pattern 0 [] of (vec, err1, out) \<Rightarrow>
        (case build_items vec of (items, err2) \<Rightarrow>
           \<lparr>m_pattern = pattern, m_items = items, m_error = err1 \<or> err2\<rparr>))"

text \<open>What making a formatter prints to \<open>std::cout\<close>.\<close>

definition formatter_output :: "string \<Rightarrow> string" where
  "formatter_output pattern = (case parse_loop pattern 0 [] of (vec, err, out) \<Rightarrow> out)"

definition format_event :: "(string \<Rightarrow> nat \<Rightarrow> string) \<Rightarrow> LogFormatter \<Rightarrow> Level \<Rightarrow> LogEvent \<Rightarrow> string" where
  "format_event date f level e = concat (map (item_text date level e) (m_items f))"

text \<open>The pattern a new logger starts with.\<close>

definition default_pattern :: string where
  "default_pattern = ''%d{%Y-%m-%d %H:%M:%S}%T%t%T%F%T[%p]%T[%c]%T%f:%l%T%m%n''"

section \<open>Printing a pattern\<close>

text \<open>Well-formed patterns as lists of tokens: text, directives, directives with a format.\<close>

datatype token = Lit string | Dir string | DirFmt string string

fun print_token :: "token \<Rightarrow> string" where
  "print_token (Lit s) = s"
| "print_token (Dir a) = CHR ''%'' # a"
| "print_token (DirFmt a f) = CHR ''%'' # a @ CHR ''{'' # f @ ''}''"

definition print_pattern :: "token list \<Rightarrow> string" where
  "print_pattern ts = concat (map print_token ts)"

fun entry_of :: "token \<Rightarrow> entry" where
  "entry_of (Lit s) = (s, [], 0)"
| "entry_of (Dir a) = (a, [], 1)"
| "entry_of (DirFmt a f) = (a, f, 1)"

definition name_ok :: "string \<Rightarrow> bool" where
  "name_ok a \<longleftrightarrow> a \<noteq> [] \<and> (\<forall>c \<in> set a. isalpha c)"

definition stops_name :: "char \<Rightarrow> bool" where
  "stops_name c \<longleftrightarrow> \<not> isalpha c \<and> c \<noteq> CHR ''{'' \<and> c \<noteq> CHR ''}''"

text \<open>Texts are not empty and not next to each other, and a directive ends where the next token starts.\<close>

fun tokens_ok :: "token list \<Rightarrow> bool" where
  "tokens_ok [] = True"
| "tokens_ok (Lit s # ts) \<longleftrightarrow> s \<noteq> [] \<and> CHR ''%'' \<notin> set s \<and> (case ts of Lit _ # _ \<Rightarrow> False | _ \<Rightarrow> True) \<and> tokens_ok ts"
| "tokens_ok (Dir a # ts) \<longleftrightarrow> name_ok a \<and> (case ts of Lit s # _ \<Rightarrow> stops_name (hd s) | _ \<Rightarrow> True) \<and> tokens_ok ts"
| "tokens_ok (DirFmt a f # ts) \<longleftrightarrow> name_ok a \<and> CHR ''}'' \<notin> set f \<and> tokens_ok ts"

lemma isalpha_chars [simp]: "\<not> isalpha CHR ''%''" "\<not> isalpha CHR ''{''" "\<not> isalpha CHR ''}''"
  by (simp_all add: isalpha_def)

lemma isalpha_not: "isalpha c \<Longrightarrow> c \<noteq> CHR ''%'' \<and> c \<noteq> CHR ''{'' \<and> c \<noteq> CHR ''}''"
  by auto

text \<open>Scanning the letters of a directive, up to a character after them or to the end.\<close>

lemma scan_letters:
  "p = x @ a @ r \<Longrightarrow> \<forall>c \<in> set a. isalpha c \<Longrightarrow> r \<noteq> [] \<Longrightarrow>
   scan p i (length x) 0 0 [] = scan p i (length x + length a) 0 0 []"
proof (induction a arbitrary: x)
  case (Cons c a)
  have c: "isalpha c" "c \<noteq> CHR ''{''" using Cons.prems(2) isalpha_not by auto
  have "scan p i (length x) 0 0 [] = scan p i (length (x @ [c])) 0 0 []"
    by (subst scan.simps) (use Cons.prems c in auto)
  also have "\<dots> = scan p i (length (x @ [c]) + length a) 0 0 []"
    using Cons.IH [of "x @ [c]"] Cons.prems by simp
  finally show ?case by simp
qed simp

lemma scan_letters_end:
  assumes "p = x @ a" "name_ok a" "i + 1 = length x"
  shows "scan p i (length x) 0 0 [] = (0, length p, a, [])"
proof -
  obtain b c where a: "a = b @ [c]" using assms(2) by (metis name_ok_def rev_exhaust)
  have c: "isalpha c" "c \<noteq> CHR ''{''" using assms(2) isalpha_not by (auto simp: name_ok_def a)
  have "scan p i (length x) 0 0 [] = scan p i (length x + length b) 0 0 []"
    by (rule scan_letters [of p x b "[c]"]) (use assms a in \<open>auto simp: name_ok_def\<close>)
  also have "\<dots> = scan p i (length p) 0 0 a"
    by (subst scan.simps) (use assms a c in \<open>auto simp: nth_append\<close>)
  also have "\<dots> = (0, length p, a, [])" by (subst scan.simps) simp
  finally show ?thesis .
qed

lemma scan_directive:
  assumes "p = x @ a @ c # r" "name_ok a" "i + 1 = length x" "stops_name c"
  shows "scan p i (length x) 0 0 [] = (0, length x + length a, a, [])"
proof -
  have "scan p i (length x) 0 0 [] = scan p i (length x + length a) 0 0 []"
    by (rule scan_letters) (use assms in \<open>auto simp: name_ok_def\<close>)
  also have "\<dots> = (0, length x + length a, a, [])"
    by (subst scan.simps) (use assms in \<open>auto simp: nth_append stops_name_def\<close>)
  finally show ?thesis .
qed

lemma scan_format:
  "p = x @ f @ CHR ''}'' # r \<Longrightarrow> CHR ''}'' \<notin> set f \<Longrightarrow> str \<noteq> [] \<Longrightarrow>
   scan p i (length x) 1 beg str = (0, length x + length f + 1, str, take (length x + length f - beg - 1) (drop (beg + 1) p))"
proof (induction f arbitrary: x)
  case Nil
  then show ?case by (subst scan.simps) auto
next
  case (Cons c f)
  have "scan p i (length x) 1 beg str = scan p i (length (x @ [c])) 1 beg str"
    by (subst scan.simps) (use Cons.prems in auto)
  also have "\<dots> = (0, length (x @ [c]) + length f + 1, str,
      take (length (x @ [c]) + length f - beg - 1) (drop (beg + 1) p))"
    using Cons.IH [of "x @ [c]"] Cons.prems by simp
  finally show ?case by simp
qed

lemma scan_directive_format:
  assumes "p = x @ a @ CHR ''{'' # f @ CHR ''}'' # r" "name_ok a" "i + 1 = length x" "CHR ''}'' \<notin> set f"
  shows "scan p i (length x) 0 0 [] = (0, length x + length a + length f + 2, a, f)"
proof -
  let ?y = "x @ a @ ''{''"
  have "scan p i (length x) 0 0 [] = scan p i (length x + length a) 0 0 []"
    by (rule scan_letters) (use assms in \<open>auto simp: name_ok_def\<close>)
  also have "\<dots> = scan p i (length ?y) 1 (length x + length a) a"
    by (subst scan.simps) (use assms in \<open>auto simp: nth_append\<close>)
  also have "\<dots> = (0, length ?y + length f + 1, a,
      take (length ?y + length f - (length x + length a) - 1) (drop (length x + length a + 1) p))"
    by (rule scan_format [of _ _ _ r]) (use assms in \<open>auto simp: name_ok_def\<close>)
  also have "\<dots> = (0, length x + length a + length f + 2, a, f)" using assms by simp
  finally show ?thesis .
qed

section \<open>Parsing what was printed\<close>

lemma parse_text:
  "p = x @ s @ r \<Longrightarrow> CHR ''%'' \<notin> set s \<Longrightarrow>
   parse_loop p (length x) nstr = parse_loop p (length x + length s) (nstr @ s)"
proof (induction s arbitrary: x nstr)
  case (Cons c s)
  have "parse_loop p (length x) nstr = parse_loop p (length (x @ [c])) (nstr @ [c])"
    by (subst parse_loop.simps) (use Cons.prems in auto)
  also have "\<dots> = parse_loop p (length (x @ [c]) + length s) ((nstr @ [c]) @ s)"
    by (rule Cons.IH) (use Cons.prems in auto)
  finally show ?case by simp
qed simp

lemma parse_directive:
  assumes "p = x @ CHR ''%'' # a @ r" "name_ok a"
    and "scan p (length x) (length x + 1) 0 0 [] = (0, n, s, f)"
  shows "parse_loop p (length x) nstr =
    (case parse_loop p n [] of (vec, err, out) \<Rightarrow> (flush nstr @ (s, f, 1) # vec, err, out))"
proof -
  obtain c b where a: "a = c # b" using assms(2) by (cases a) (auto simp: name_ok_def)
  then have "c \<noteq> CHR ''%''" using assms(2) isalpha_not by (auto simp: name_ok_def)
  then show ?thesis
    by (subst parse_loop.simps) (use assms a in \<open>auto simp: nth_append\<close>)
qed

lemma print_Cons [simp]: "print_pattern [] = []" "print_pattern (t # ts) = print_token t @ print_pattern ts"
  by (simp_all add: print_pattern_def)

lemma print_head:
  assumes "tokens_ok (Dir a # ts)" "print_pattern ts = c # r"
  shows "stops_name c"
proof (cases ts)
  case (Cons t us)
  then show ?thesis using assms by (cases t) (auto simp: stops_name_def neq_Nil_conv)
qed (use assms in simp)

lemma parse_print:
  "tokens_ok ts \<Longrightarrow> nstr = [] \<or> (case ts of Lit _ # _ \<Rightarrow> False | _ \<Rightarrow> True) \<Longrightarrow>
   parse_loop (x @ print_pattern ts) (length x) nstr = (flush nstr @ map entry_of ts, False, [])"
proof (induction ts arbitrary: x nstr)
  case Nil
  then show ?case by (subst parse_loop.simps) simp
next
  case (Cons t ts)
  let ?p = "x @ print_pattern (t # ts)"
  show ?case
  proof (cases t)
    case (Lit s)
    then have s: "nstr = []" "s \<noteq> []" using Cons.prems by auto
    have "parse_loop ?p (length x) nstr = parse_loop ((x @ s) @ print_pattern ts) (length (x @ s)) s"
      using parse_text [of ?p x s "print_pattern ts" nstr] Cons.prems(1) Lit s by simp
    also have "\<dots> = (flush s @ map entry_of ts, False, [])"
      by (rule Cons.IH) (use Cons.prems(1) Lit in auto)
    finally show ?thesis using Lit s by (simp add: flush_def)
  next
    case (Dir a)
    let ?y = "x @ CHR ''%'' # a"
    have name: "name_ok a" using Cons.prems(1) Dir by simp
    have "scan ?p (length x) (length (x @ ''%'')) 0 0 [] = (0, length ?y, a, [])"
    proof (cases "print_pattern ts")
      case Nil
      then show ?thesis using scan_letters_end [of ?p "x @ ''%''" a] name Dir by simp
    next
      case (Cons c r)
      then have "stops_name c" using print_head Cons.prems(1) \<open>tokens_ok (t # ts)\<close> Dir by blast
      then show ?thesis using scan_directive [of ?p "x @ ''%''" a c r] name Dir Cons by simp
    qed
    then have "parse_loop ?p (length x) nstr =
        (case parse_loop (?y @ print_pattern ts) (length ?y) [] of (vec, err, out) \<Rightarrow> (flush nstr @ (a, [], 1) # vec, err, out))"
      using parse_directive [of ?p x a "print_pattern ts"] name Dir by simp
    also have "parse_loop (?y @ print_pattern ts) (length ?y) [] = (flush [] @ map entry_of ts, False, [])"
      by (rule Cons.IH) (use Cons.prems(1) Dir in auto)
    finally show ?thesis using Dir by (simp add: flush_def)
  next
    case (DirFmt a f)
    let ?y = "x @ CHR ''%'' # a @ CHR ''{'' # f @ ''}''"
    have ok: "name_ok a" "CHR ''}'' \<notin> set f" using Cons.prems(1) DirFmt by simp_all
    have "scan ?p (length x) (length (x @ ''%'')) 0 0 [] = (0, length ?y, a, f)"
      using scan_directive_format [of ?p "x @ ''%''" a f "print_pattern ts"] ok DirFmt by simp
    then have "parse_loop ?p (length x) nstr =
        (case parse_loop (?y @ print_pattern ts) (length ?y) [] of (vec, err, out) \<Rightarrow> (flush nstr @ (a, f, 1) # vec, err, out))"
      using parse_directive [of ?p x a "CHR ''{'' # f @ CHR ''}'' # print_pattern ts"] ok DirFmt by simp
    also have "parse_loop (?y @ print_pattern ts) (length ?y) [] = (flush [] @ map entry_of ts, False, [])"
      by (rule Cons.IH) (use Cons.prems(1) DirFmt in auto)
    finally show ?thesis using DirFmt by (simp add: flush_def)
  qed
qed


text \<open>The item a token stands for.\<close>

fun item_of :: "token \<Rightarrow> FormatItem" where
  "item_of (Lit s) = StringFormatItem s"
| "item_of (Dir a) = (case s_format_items a of
     None \<Rightarrow> StringFormatItem (''<<error_format %'' @ a @ ''>>'') | Some mk \<Rightarrow> mk [])"
| "item_of (DirFmt a f) = (case s_format_items a of
     None \<Rightarrow> StringFormatItem (''<<error_format %'' @ a @ ''>>'') | Some mk \<Rightarrow> mk f)"

fun known :: "token \<Rightarrow> bool" where
  "known (Lit s) = True"
| "known (Dir a) = (s_format_items a \<noteq> None)"
| "known (DirFmt a f) = (s_format_items a \<noteq> None)"

lemma build_items_tokens: "build_items (map entry_of ts) = (map item_of ts, \<not> list_all known ts)"
proof (induction ts)
  case (Cons t ts)
  then show ?case by (cases t) (auto split: option.splits)
qed simp

lemma build_items_append: "build_items (flush n @ vec) =
    (case build_items vec of (items, err) \<Rightarrow> ((if n = [] then [] else [StringFormatItem n]) @ items, err))"
  by (auto simp: flush_def split: prod.splits)

lemma new_LogFormatter_print:
  "tokens_ok ts \<Longrightarrow> new_LogFormatter (print_pattern ts) =
    \<lparr>m_pattern = print_pattern ts, m_items = map item_of ts, m_error = (\<not> list_all known ts)\<rparr>"
  using parse_print [of ts "[]" "[]"] by (simp add: new_LogFormatter_def flush_def build_items_tokens)

definition default_tokens :: "token list" where
  "default_tokens = [DirFmt ''d'' date_format, Dir ''T'', Dir ''t'', Dir ''T'', Dir ''F'', Dir ''T'', Lit ''['',
     Dir ''p'', Lit '']'', Dir ''T'', Lit ''['', Dir ''c'', Lit '']'', Dir ''T'', Dir ''f'', Lit '':'', Dir ''l'',
     Dir ''T'', Dir ''m'', Dir ''n'']"

definition default_items :: "FormatItem list" where
  "default_items = [DataTimeFormatItem date_format, TabFormatItem, ThreadIdFormatItem, TabFormatItem,
     FiberIdFormatItem, TabFormatItem, StringFormatItem ''['', LevelFormatItem, StringFormatItem '']'',
     TabFormatItem, StringFormatItem ''['', NameFormatItem, StringFormatItem '']'', TabFormatItem,
     FilenameFormatItem, StringFormatItem '':'', LineFormatItem, TabFormatItem, MessageFormatItem,
     NewLineFormatItem]"

lemma default_pattern_tokens: "default_pattern = print_pattern default_tokens"
  by (simp add: default_pattern_def default_tokens_def print_pattern_def date_format_def)

lemma default_tokens_ok: "tokens_ok default_tokens"
  by (simp add: default_tokens_def name_ok_def isalpha_def stops_name_def date_format_def)

lemma default_formatter:
  "new_LogFormatter default_pattern = \<lparr>m_pattern = default_pattern, m_items = default_items, m_error = False\<rparr>"
  using new_LogFormatter_print [OF default_tokens_ok]
  by (simp add: default_pattern_tokens default_tokens_def default_items_def s_format_items_def
      new_DataTimeFormatItem_def date_format_def)

lemma formatter_output_print: "tokens_ok ts \<Longrightarrow> formatter_output (print_pattern ts) = []"
  using parse_print [of ts "[]" "[]"] by (simp add: formatter_output_def)

text \<open>Making the formatter of a new logger prints nothing.\<close>

lemma default_pattern_silent: "formatter_output default_pattern = []"
  by (simp add: default_pattern_tokens formatter_output_print default_tokens_ok)

lemma parse_double:
  "CHR ''%'' \<notin> set s \<Longrightarrow>
   parse_loop (s @ CHR ''%'' # CHR ''%'' # r) 0 [] = parse_loop (s @ CHR ''%'' # CHR ''%'' # r) (length (s @ ''%'')) (s @ ''%'')"
proof -
  assume s: "CHR ''%'' \<notin> set s"
  let ?p = "s @ CHR ''%'' # CHR ''%'' # r"
  have "parse_loop ?p 0 [] = parse_loop ?p (length s) s" using parse_text [of ?p "[]" s] s by simp
  also have "\<dots> = parse_loop ?p (length (s @ ''%'')) (s @ ''%'')"
    by (subst parse_loop.simps) (simp add: nth_append)
  finally show ?thesis .
qed

lemma parse_double_end:
  assumes "CHR ''%'' \<notin> set s"
  shows "parse_loop (s @ ''%%'') 0 [] = (flush (s @ ''%'') @ [([], [], 1)], False, [])"
proof -
  have "scan (s @ ''%%'') (Suc (length s)) (Suc (Suc (length s))) 0 0 [] = (0, Suc (Suc (length s)), [], [])"
    by (subst scan.simps) simp
  moreover have "parse_loop (s @ ''%%'') (Suc (Suc (length s))) [] = ([], False, [])"
    by (subst parse_loop.simps) (simp add: flush_def)
  ultimately have "parse_loop (s @ ''%%'') (length (s @ ''%'')) (s @ ''%'') =
      (flush (s @ ''%'') @ [([], [], 1)], False, [])"
    by (subst parse_loop.simps) (simp add: nth_append)
  then show ?thesis using parse_double [OF assms, of "[]"] by simp
qed

text \<open>A format without its closing brace.\<close>

lemma scan_open:
  "p = x @ f \<Longrightarrow> CHR ''}'' \<notin> set f \<Longrightarrow> str \<noteq> [] \<Longrightarrow> scan p i (length x) 1 beg str = (1, length p, str, [])"
proof (induction f arbitrary: x)
  case Nil
  then show ?case by (subst scan.simps) simp
next
  case (Cons c f)
  have "scan p i (length x) 1 beg str = scan p i (length (x @ [c])) 1 beg str"
    by (subst scan.simps) (use Cons.prems in auto)
  also have "\<dots> = (1, length p, str, [])" using Cons.IH [of "x @ [c]"] Cons.prems by simp
  finally show ?case .
qed

lemma parse_open:
  assumes "CHR ''%'' \<notin> set s" "name_ok a" "CHR ''}'' \<notin> set f" "CHR ''%'' \<notin> set f"
  shows "parse_loop (s @ CHR ''%'' # a @ CHR ''{'' # f) 0 [] =
    ((''<<pattern_error>>'', [], 0) # flush (s @ a @ CHR ''{'' # f), True,
      ''pattern parse error:'' @ (s @ CHR ''%'' # a @ CHR ''{'' # f) @ ''-'' @ CHR ''%'' # a @ CHR ''{'' # f @ [CHR 0x0A])"
proof -
  let ?p = "s @ CHR ''%'' # a @ CHR ''{'' # f" and ?x = "s @ ''%''"
  obtain c b where a: "a = c # b" using assms(2) by (cases a) (auto simp: name_ok_def)
  have c: "c \<noteq> CHR ''%''" using assms(2) isalpha_not by (auto simp: name_ok_def a)
  have al: "CHR ''%'' \<notin> set a" using assms(2) isalpha_not by (auto simp: name_ok_def)
  have "scan ?p (length s) (length ?x) 0 0 [] = scan ?p (length s) (length ?x + length a) 0 0 []"
    by (rule scan_letters [of _ _ _ "CHR ''{'' # f"]) (use assms in \<open>auto simp: name_ok_def\<close>)
  also have "\<dots> = scan ?p (length s) (length (?x @ a @ ''{'')) 1 (length ?x + length a) a"
    by (subst scan.simps) (simp add: nth_append)
  also have "\<dots> = (1, length ?p, a, [])"
    by (rule scan_open [of _ _ f]) (use assms in \<open>auto simp: name_ok_def\<close>)
  finally have sc: "scan ?p (length s) (length s + 1) 0 0 [] = (1, length ?p, a, [])" by simp
  have "parse_loop ?p (length ?x) s = parse_loop ?p (length ?p) (s @ a @ CHR ''{'' # f)"
    using parse_text [of ?p ?x "a @ CHR ''{'' # f" "[]" s] al assms(4) by simp
  also have "\<dots> = (flush (s @ a @ CHR ''{'' # f), False, [])" by (subst parse_loop.simps) simp
  finally have rest: "parse_loop ?p (length s + 1) s = (flush (s @ a @ CHR ''{'' # f), False, [])" by simp
  have "parse_loop ?p 0 [] = parse_loop ?p (length s) s" using parse_text [of ?p "[]" s] assms(1) by simp
  also have "\<dots> = ((''<<pattern_error>>'', [], 0) # flush (s @ a @ CHR ''{'' # f), True,
      ''pattern parse error:'' @ (s @ CHR ''%'' # a @ CHR ''{'' # f) @ ''-'' @ CHR ''%'' # a @ CHR ''{'' # f @ [CHR 0x0A])"
    by (subst parse_loop.simps) (use sc rest a c in \<open>simp add: nth_append\<close>)
  finally show ?thesis .
qed

section \<open>Properties\<close>

text \<open>
  C20 (round trip). A pattern printed from well-formed tokens is parsed into exactly the items of
  its tokens, in order, sets its error flag exactly when a directive is unknown, and prints nothing.
\<close>

theorem pattern_roundtrip:
  assumes "tokens_ok ts"
  shows "new_LogFormatter (print_pattern ts) =
    \<lparr>m_pattern = print_pattern ts, m_items = map item_of ts, m_error = (\<exists>t \<in> set ts. \<not> known t)\<rparr> \<and>
    formatter_output (print_pattern ts) = []"
  using new_LogFormatter_print [OF assms] formatter_output_print [OF assms] by (simp add: list_all_iff)

text \<open>
  The pattern every logger starts with is accepted, and the line it makes
  of an event is date, thread, fiber, level, logger, file with line, and message, between tabs.
\<close>

theorem default_pattern_line:
  "m_error (new_LogFormatter default_pattern) = False \<and>
   format_event date (new_LogFormatter default_pattern) level e =
     date ''%Y-%m-%d %H:%M:%S'' (m_time e) @ [CHR 0x09] @ show_nat (m_threadId e) @ [CHR 0x09] @
     show_nat (m_fiberId e) @ [CHR 0x09] @ ''['' @ toString level @ '']'' @ [CHR 0x09] @
     ''['' @ logger_name e @ '']'' @ [CHR 0x09] @ m_file e @ '':'' @ show_int (m_line e) @ [CHR 0x09] @
     content e @ [CHR 0x0A]"
  by (simp add: default_formatter format_event_def default_items_def date_format_def)

text \<open>
  The comment of the parser lists \<open>%%\<close>, but after it has taken the
  first sign the loop advances by one character only and reads the second as the start of a
  directive: at the end of a pattern \<open>%%\<close> is an error, and before a name the name is
  a directive.
\<close>

theorem percent_percent:
  assumes "CHR ''%'' \<notin> set s"
  shows "new_LogFormatter (s @ ''%%'') = \<lparr>m_pattern = s @ ''%%'',
      m_items = [StringFormatItem (s @ ''%''), StringFormatItem ''<<error_format %>>''], m_error = True\<rparr> \<and>
    (\<forall>a ts. tokens_ok (Dir a # ts) \<longrightarrow>
      m_items (new_LogFormatter (s @ ''%'' @ print_pattern (Dir a # ts))) =
        StringFormatItem (s @ ''%'') # map item_of (Dir a # ts))"
proof (intro conjI allI impI)
  show "new_LogFormatter (s @ ''%%'') = \<lparr>m_pattern = s @ ''%%'',
      m_items = [StringFormatItem (s @ ''%''), StringFormatItem ''<<error_format %>>''], m_error = True\<rparr>"
    unfolding new_LogFormatter_def parse_double_end [OF assms]
    by (simp add: build_items_append s_format_items_def)
next
  fix a ts
  assume ok: "tokens_ok (Dir a # ts)"
  have "parse_loop (s @ ''%'' @ print_pattern (Dir a # ts)) 0 [] =
      parse_loop ((s @ ''%'') @ print_pattern (Dir a # ts)) (length (s @ ''%'')) (s @ ''%'')"
    using parse_double [OF assms, of "a @ print_pattern ts"] by simp
  also have "\<dots> = (flush (s @ ''%'') @ map entry_of (Dir a # ts), False, [])"
    by (rule parse_print [OF ok]) simp
  finally have parse: "parse_loop (s @ ''%'' @ print_pattern (Dir a # ts)) 0 [] =
    (flush (s @ ''%'') @ map entry_of (Dir a # ts), False, [])" .
  have "build_items (flush (s @ ''%'') @ map entry_of (Dir a # ts)) =
      (StringFormatItem (s @ ''%'') # map item_of (Dir a # ts), \<not> list_all known (Dir a # ts))"
    unfolding build_items_append build_items_tokens by (simp del: list.map)
  then show "m_items (new_LogFormatter (s @ ''%'' @ print_pattern (Dir a # ts))) =
      StringFormatItem (s @ ''%'') # map item_of (Dir a # ts)"
    unfolding new_LogFormatter_def parse prod.case by (simp only: prod.case LogFormatter.simps)
qed

text \<open>
  A format whose brace is never closed is reported as an error; the items are the
  error mark and then the whole text without the percent sign, the mark coming first.
\<close>

theorem unclosed_format:
  assumes "CHR ''%'' \<notin> set s" and "name_ok a" and "CHR ''}'' \<notin> set f" and "CHR ''%'' \<notin> set f"
  shows "new_LogFormatter (s @ CHR ''%'' # a @ CHR ''{'' # f) = \<lparr>m_pattern = s @ CHR ''%'' # a @ CHR ''{'' # f,
    m_items = [StringFormatItem ''<<pattern_error>>'', StringFormatItem (s @ a @ CHR ''{'' # f)], m_error = True\<rparr> \<and>
    formatter_output (s @ CHR ''%'' # a @ CHR ''{'' # f) =
      ''pattern parse error:'' @ (s @ CHR ''%'' # a @ CHR ''{'' # f) @ ''-'' @ CHR ''%'' # a @ CHR ''{'' # f @ [CHR 0x0A]"
  unfolding new_LogFormatter_def formatter_output_def parse_open [OF assms] by (simp add: flush_def)

lemma pattern_roundtrip_witness:
  "new_LogFormatter (print_pattern [Lit ''a '', Dir ''m'', DirFmt ''d'' ''%H'']) =
    \<lparr>m_pattern = print_pattern [Lit ''a '', Dir ''m'', DirFmt ''d'' ''%H''],
     m_items = map item_of [Lit ''a '', Dir ''m'', DirFmt ''d'' ''%H''],
     m_error = (\<exists>t \<in> set [Lit ''a '', Dir ''m'', DirFmt ''d'' ''%H'']. \<not> known t)\<rparr> \<and>
    formatter_output (print_pattern [Lit ''a '', Dir ''m'', DirFmt ''d'' ''%H'']) = []"
  by (rule pattern_roundtrip) (simp add: name_ok_def isalpha_def)

lemma percent_percent_witness:
  "new_LogFormatter (''100'' @ ''%%'') = \<lparr>m_pattern = ''100'' @ ''%%'',
      m_items = [StringFormatItem (''100'' @ ''%''), StringFormatItem ''<<error_format %>>''], m_error = True\<rparr> \<and>
    m_items (new_LogFormatter (''100'' @ ''%'' @ print_pattern [Dir ''m''])) =
        StringFormatItem (''100'' @ ''%'') # map item_of [Dir ''m'']"
proof -
  have "tokens_ok [Dir ''m'']" by (simp add: name_ok_def isalpha_def)
  moreover have "CHR ''%'' \<notin> set ''100''" by simp
  ultimately show ?thesis using percent_percent by blast
qed

lemma unclosed_format_witness:
  "new_LogFormatter (''a '' @ CHR ''%'' # ''d'' @ CHR ''{'' # ''H'') =
    \<lparr>m_pattern = ''a '' @ CHR ''%'' # ''d'' @ CHR ''{'' # ''H'',
     m_items = [StringFormatItem ''<<pattern_error>>'', StringFormatItem (''a '' @ ''d'' @ CHR ''{'' # ''H'')],
     m_error = True\<rparr> \<and>
   formatter_output (''a '' @ CHR ''%'' # ''d'' @ CHR ''{'' # ''H'') =
     ''pattern parse error:'' @ (''a '' @ CHR ''%'' # ''d'' @ CHR ''{'' # ''H'') @ ''-'' @ CHR ''%'' # ''d'' @ CHR ''{'' # ''H'' @
       [CHR 0x0A]"
  by (rule unclosed_format) (simp_all add: name_ok_def isalpha_def)

end
