(* ===== verification/Log_Core.thy ===== *)
theory Log_Core
  imports Log_Format
begin

text \<open>
  Loggers, appenders and the logger manager (src/log.cc, include/log.h, include/singleton.h).
  Loggers and appenders are shared objects, so they live in a store under pointers; a
  formatter never changes once it is made, so it is kept by value.
\<close>

section \<open>State\<close>

type_synonym ptr = nat

text \<open>The two facts of a \<open>std::ofstream\<close> the appender depends on.\<close>

record ofstream =
  is_open :: bool
  failed :: bool

datatype appender_kind = StdoutLogAppender | FileLogAppender string ofstream

record LogAppender =
  a_kind :: appender_kind
  a_level :: Level
  a_formatter :: "LogFormatter option"

record Logger =
  l_name :: string
  l_level :: Level
  l_appenders :: "ptr list"
  l_formatter :: "LogFormatter option"
  l_root :: "ptr option"

text \<open>\<open>console\<close> is what was written to \<open>std::cout\<close>, \<open>files\<close> the files written to.\<close>

record log_world =
  loggers :: "ptr \<rightharpoonup> Logger"
  appenders :: "ptr \<rightharpoonup> LogAppender"
  next_ptr :: ptr
  console :: string
  files :: "string \<rightharpoonup> string"

record LoggerManager =
  m_loggers :: "string \<rightharpoonup> ptr"
  mgr_root :: ptr

datatype log_error = Null_formatter | Bad_pointer

type_synonym dates = "string \<Rightarrow> nat \<Rightarrow> string"

section \<open>Appenders\<close>

definition new_StdoutLogAppender :: LogAppender where
  "new_StdoutLogAppender = \<lparr>a_kind = StdoutLogAppender, a_level = DEBUG, a_formatter = None\<rparr>"

text \<open>The constructor does not open the file.\<close>

definition new_FileLogAppender :: "string \<Rightarrow> LogAppender" where
  "new_FileLogAppender filename =
     \<lparr>a_kind = FileLogAppender filename \<lparr>is_open = False, failed = False\<rparr>, a_level = DEBUG, a_formatter = None\<rparr>"

text \<open>\<open>LogAppender::setFormatter\<close> and \<open>LogAppender::setLevel\<close>.\<close>

definition LogAppender_setFormatter :: "LogFormatter option \<Rightarrow> LogAppender \<Rightarrow> LogAppender" where
  "LogAppender_setFormatter f a = a\<lparr>a_formatter := f\<rparr>"

definition LogAppender_setLevel :: "Level \<Rightarrow> LogAppender \<Rightarrow> LogAppender" where
  "LogAppender_setLevel level a = a\<lparr>a_level := level\<rparr>"

declare LogAppender_setFormatter_def [simp] LogAppender_setLevel_def [simp]

text \<open>Inserting into a file stream: nothing is written unless it is open and good.\<close>

definition stream_put :: "string \<Rightarrow> ofstream \<Rightarrow> string \<Rightarrow> log_world \<Rightarrow> ofstream \<times> log_world" where
  "stream_put fn s text w =
     (if is_open s \<and> \<not> failed s
      then (s, w\<lparr>files := (files w)(fn \<mapsto> (case files w fn of None \<Rightarrow> [] | Some t \<Rightarrow> t) @ text)\<rparr>)
      else (s\<lparr>failed := True\<rparr>, w))"

text \<open>\<open>StdoutLogAppender::log\<close> and \<open>FileLogAppender::log\<close>, on the appender at \<open>p\<close>.\<close>

definition appender_log :: "dates \<Rightarrow> ptr \<Rightarrow> Level \<Rightarrow> LogEvent \<Rightarrow> log_world \<Rightarrow> log_error + log_world" where
  "appender_log date p level e w =
     (case appenders w p of None \<Rightarrow> Inl Bad_pointer
      | Some a \<Rightarrow>
          if a_level a \<le> level then
            (case a_formatter a of None \<Rightarrow> Inl Null_formatter
             | Some f \<Rightarrow>
                 (case a_kind a of
                    StdoutLogAppender \<Rightarrow> Inr (w\<lparr>console := console w @ format_event date f level e\<rparr>)
                  | FileLogAppender fn s \<Rightarrow>
                      (case stream_put fn s (format_event date f level e) w of
                         (s', w') \<Rightarrow> Inr (w'\<lparr>appenders := (appenders w')(p \<mapsto> a\<lparr>a_kind := FileLogAppender fn s'\<rparr>)\<rparr>))))
          else Inr w)"

text \<open>
  \<open>reopen\<close>: closing a stream that is not open sets its fail bit, opening one that is open fails,
  and a successful \<open>open\<close> clears the bits and empties the file.
\<close>

definition stream_close :: "ofstream \<Rightarrow> ofstream" where
  "stream_close s = (if is_open s then s\<lparr>is_open := False\<rparr> else s\<lparr>failed := True\<rparr>)"

definition stream_open :: "(string \<Rightarrow> bool) \<Rightarrow> string \<Rightarrow> ofstream \<Rightarrow> log_world \<Rightarrow> ofstream \<times> log_world" where
  "stream_open can_open fn s w =
     (if is_open s \<or> \<not> can_open fn then (s\<lparr>failed := True\<rparr>, w)
      else (\<lparr>is_open = True, failed = False\<rparr>, w\<lparr>files := (files w)(fn \<mapsto> [])\<rparr>))"

definition reopen :: "(string \<Rightarrow> bool) \<Rightarrow> ptr \<Rightarrow> log_world \<Rightarrow> log_error + bool \<times> log_world" where
  "reopen can_open p w =
     (case appenders w p of
        Some a \<Rightarrow> (case a_kind a of
            FileLogAppender fn s \<Rightarrow>
              (let s1 = (if \<not> failed s then stream_close s else s)
               in case stream_open can_open fn s1 w of
                    (s2, w') \<Rightarrow> Inr (\<not> failed s2, w'\<lparr>appenders := (appenders w')(p \<mapsto> a\<lparr>a_kind := FileLogAppender fn s2\<rparr>)\<rparr>))
          | StdoutLogAppender \<Rightarrow> Inl Bad_pointer)
      | None \<Rightarrow> Inl Bad_pointer)"

section \<open>Loggers\<close>

text \<open>The formatter of a new logger is made without an error and prints nothing (\<open>default_pattern_silent\<close>).\<close>

definition new_Logger :: "string \<Rightarrow> Logger" where
  "new_Logger name = \<lparr>l_name = name, l_level = DEBUG, l_appenders = [],
     l_formatter = Some (new_LogFormatter default_pattern), l_root = None\<rparr>"

fun append_all :: "dates \<Rightarrow> ptr list \<Rightarrow> Level \<Rightarrow> LogEvent \<Rightarrow> log_world \<Rightarrow> log_error + log_world" where
  "append_all date [] level e w = Inr w"
| "append_all date (p # ps) level e w =
     (case appender_log date p level e w of Inl err \<Rightarrow> Inl err | Inr w' \<Rightarrow> append_all date ps level e w')"

text \<open>
  \<open>Logger::log\<close> recurses to the root logger of a logger without appenders. Nothing in the
  class forbids a cycle, so the recursion has fuel; \<open>None\<close> is a run that used it up.
\<close>

fun Logger_log :: "dates \<Rightarrow> nat \<Rightarrow> ptr \<Rightarrow> Level \<Rightarrow> LogEvent \<Rightarrow> log_world \<Rightarrow> (log_error + log_world) option" where
  "Logger_log date 0 l level e w = None"
| "Logger_log date (Suc fuel) l level e w =
     (case loggers w l of None \<Rightarrow> Some (Inl Bad_pointer)
      | Some lg \<Rightarrow>
          if l_level lg \<le> level then
            (if l_appenders lg \<noteq> [] then Some (append_all date (l_appenders lg) level e w)
             else (case l_root lg of
                None \<Rightarrow> Some (Inr w)
              | Some r \<Rightarrow> Logger_log date fuel r level e w))
          else Some (Inr w))"

definition Logger_debug :: "dates \<Rightarrow> nat \<Rightarrow> ptr \<Rightarrow> LogEvent \<Rightarrow> log_world \<Rightarrow> (log_error + log_world) option" where
  "Logger_debug date fuel l = Logger_log date fuel l DEBUG"

definition Logger_info :: "dates \<Rightarrow> nat \<Rightarrow> ptr \<Rightarrow> LogEvent \<Rightarrow> log_world \<Rightarrow> (log_error + log_world) option" where
  "Logger_info date fuel l = Logger_log date fuel l INFO"

definition Logger_warn :: "dates \<Rightarrow> nat \<Rightarrow> ptr \<Rightarrow> LogEvent \<Rightarrow> log_world \<Rightarrow> (log_error + log_world) option" where
  "Logger_warn date fuel l = Logger_log date fuel l WARN"

definition Logger_error :: "dates \<Rightarrow> nat \<Rightarrow> ptr \<Rightarrow> LogEvent \<Rightarrow> log_world \<Rightarrow> (log_error + log_world) option" where
  "Logger_error date fuel l = Logger_log date fuel l ERROR"

definition Logger_fatal :: "dates \<Rightarrow> nat \<Rightarrow> ptr \<Rightarrow> LogEvent \<Rightarrow> log_world \<Rightarrow> (log_error + log_world) option" where
  "Logger_fatal date fuel l = Logger_log date fuel l FATAL"

definition addAppender :: "ptr \<Rightarrow> ptr \<Rightarrow> log_world \<Rightarrow> log_error + log_world" where
  "addAppender l p w =
     (case (loggers w l, appenders w p) of
        (Some lg, Some a) \<Rightarrow>
          Inr (w\<lparr>appenders := (appenders w)(p \<mapsto> (if a_formatter a = None then LogAppender_setFormatter (l_formatter lg) a else a)),
                 loggers := (loggers w)(l \<mapsto> lg\<lparr>l_appenders := l_appenders lg @ [p]\<rparr>)\<rparr>)
      | _ \<Rightarrow> Inl Bad_pointer)"

text \<open>The loop of \<open>delAppender\<close> erases the first element equal to the pointer.\<close>

fun erase_first :: "ptr \<Rightarrow> ptr list \<Rightarrow> ptr list" where
  "erase_first p [] = []"
| "erase_first p (q # qs) = (if p = q then qs else q # erase_first p qs)"

definition delAppender :: "ptr \<Rightarrow> ptr \<Rightarrow> log_world \<Rightarrow> log_error + log_world" where
  "delAppender l p w = (case loggers w l of None \<Rightarrow> Inl Bad_pointer
     | Some lg \<Rightarrow> Inr (w\<lparr>loggers := (loggers w)(l \<mapsto> lg\<lparr>l_appenders := erase_first p (l_appenders lg)\<rparr>)\<rparr>))"

definition clearAppenders :: "ptr \<Rightarrow> log_world \<Rightarrow> log_error + log_world" where
  "clearAppenders l w = (case loggers w l of None \<Rightarrow> Inl Bad_pointer
     | Some lg \<Rightarrow> Inr (w\<lparr>loggers := (loggers w)(l \<mapsto> lg\<lparr>l_appenders := []\<rparr>)\<rparr>))"

definition setLevel :: "ptr \<Rightarrow> Level \<Rightarrow> log_world \<Rightarrow> log_error + log_world" where
  "setLevel l level w = (case loggers w l of None \<Rightarrow> Inl Bad_pointer
     | Some lg \<Rightarrow> Inr (w\<lparr>loggers := (loggers w)(l \<mapsto> lg\<lparr>l_level := level\<rparr>)\<rparr>))"

text \<open>The two \<open>setFormatter\<close>: by pattern, where an invalid one is reported and dropped, and by pointer.\<close>

definition setFormatter_pattern :: "ptr \<Rightarrow> string \<Rightarrow> log_world \<Rightarrow> log_error + log_world" where
  "setFormatter_pattern l val w = (case loggers w l of None \<Rightarrow> Inl Bad_pointer
     | Some lg \<Rightarrow>
         (let new_val = new_LogFormatter val in
          if m_error new_val
          then Inr (w\<lparr>console := console w @ formatter_output val @ ''Logger setFormatter name='' @ l_name lg @ '' value='' @ val @
                 '' invalid formatter'' @ [CHR 0x0A]\<rparr>)
          else Inr (w\<lparr>console := console w @ formatter_output val,
                 loggers := (loggers w)(l \<mapsto> lg\<lparr>l_formatter := Some new_val\<rparr>)\<rparr>)))"

definition setFormatter_ptr :: "ptr \<Rightarrow> LogFormatter option \<Rightarrow> log_world \<Rightarrow> log_error + log_world" where
  "setFormatter_ptr l val w = (case loggers w l of None \<Rightarrow> Inl Bad_pointer
     | Some lg \<Rightarrow> Inr (w\<lparr>loggers := (loggers w)(l \<mapsto> lg\<lparr>l_formatter := val\<rparr>)\<rparr>))"

definition getFormatter :: "ptr \<Rightarrow> log_world \<Rightarrow> log_error + LogFormatter option" where
  "getFormatter l w = (case loggers w l of None \<Rightarrow> Inl Bad_pointer | Some lg \<Rightarrow> Inr (l_formatter lg))"

text \<open>What was set is what \<open>getFormatter\<close> answers; an invalid pattern leaves the old one.\<close>

lemma getFormatter_set:
  "setFormatter_ptr l f w = Inr w' \<Longrightarrow> getFormatter l w' = Inr f"
  "setFormatter_pattern l val w = Inr w' \<Longrightarrow>
     getFormatter l w' = (if m_error (new_LogFormatter val) then getFormatter l w else Inr (Some (new_LogFormatter val)))"
  by (auto simp: setFormatter_ptr_def setFormatter_pattern_def getFormatter_def Let_def split: option.splits if_splits)

section \<open>The manager and the macros\<close>

definition alloc_logger :: "Logger \<Rightarrow> log_world \<Rightarrow> ptr \<times> log_world" where
  "alloc_logger lg w = (next_ptr w, w\<lparr>loggers := (loggers w)(next_ptr w \<mapsto> lg), next_ptr := next_ptr w + 1\<rparr>)"

definition alloc_appender :: "LogAppender \<Rightarrow> log_world \<Rightarrow> ptr \<times> log_world" where
  "alloc_appender a w = (next_ptr w, w\<lparr>appenders := (appenders w)(next_ptr w \<mapsto> a), next_ptr := next_ptr w + 1\<rparr>)"

text \<open>The constructor of the manager; its \<open>init\<close> does nothing.\<close>

definition new_LoggerManager :: "log_world \<Rightarrow> log_error + LoggerManager \<times> log_world" where
  "new_LoggerManager w =
     (case alloc_logger (new_Logger ''root'') w of
        (root, w1) \<Rightarrow> (case alloc_appender new_StdoutLogAppender w1 of
          (p, w2) \<Rightarrow> (case addAppender root p w2 of
             Inl e \<Rightarrow> Inl e
           | Inr w3 \<Rightarrow> Inr (\<lparr>m_loggers = Map.empty, mgr_root = root\<rparr>, w3))))"

text \<open>
  \<open>getLogger\<close> compares the iterator \<open>find\<close> gave it with the one a second \<open>find\<close> of the same
  name gives, as the source does.
\<close>

definition getLogger :: "string \<Rightarrow> LoggerManager \<Rightarrow> log_world \<Rightarrow> ptr \<times> LoggerManager \<times> log_world" where
  "getLogger name mgr w =
     (let it = m_loggers mgr name in
      if it \<noteq> m_loggers mgr name then (the it, mgr, w)
      else (case alloc_logger ((new_Logger name)\<lparr>l_root := Some (mgr_root mgr)\<rparr>) w of
              (l, w1) \<Rightarrow> (l, mgr\<lparr>m_loggers := (m_loggers mgr)(name \<mapsto> l)\<rparr>, w1)))"

definition getRoot :: "LoggerManager \<Rightarrow> ptr" where
  "getRoot mgr = mgr_root mgr"

text \<open>
  \<open>LogEvent::format\<close>, where the variadic one forwards to the other: \<open>out\<close> is what \<open>vasprintf\<close> made of the
  arguments, \<open>None\<close> its failure.
\<close>

definition LogEvent_format :: "string option \<Rightarrow> LogEvent \<Rightarrow> LogEvent" where
  "LogEvent_format out e = (case out of None \<Rightarrow> e | Some s \<Rightarrow> e\<lparr>content := content e @ s\<rparr>)"

text \<open>
  An event as the macros make it, the stream a statement writes into, and the destructor of the
  wrapper at the end of the statement, which logs the event at the logger it was made with.
\<close>

definition new_LogEvent :: "string \<Rightarrow> Level \<Rightarrow> string \<Rightarrow> int \<Rightarrow> nat \<Rightarrow> nat \<Rightarrow> nat \<Rightarrow> nat \<Rightarrow> LogEvent" where
  "new_LogEvent name level file_name line elapse thread fiber now =
     \<lparr>m_file = file_name, m_line = line, m_elapse = elapse, m_threadId = thread, m_fiberId = fiber,
      m_time = now, content = [], logger_name = name, event_level = level\<rparr>"

definition getSS_put :: "string \<Rightarrow> LogEvent \<Rightarrow> LogEvent" where
  "getSS_put msg e = e\<lparr>content := content e @ msg\<rparr>"

definition LogEventWrap_destroy :: "dates \<Rightarrow> nat \<Rightarrow> ptr \<Rightarrow> LogEvent \<Rightarrow> log_world \<Rightarrow> (log_error + log_world) option" where
  "LogEventWrap_destroy date fuel l e w = Logger_log date fuel l (event_level e) e w"

lemmas log_event_defs = new_LogEvent_def getSS_put_def LogEventWrap_destroy_def LogEvent_format_def

text \<open>
  The macro \<open>LOG_LEVEL(logger, level) << msg\<close> at a place in the sources: when the logger takes the
  level an event is made, the message is streamed into it, and the wrapper's destructor
  logs it at the end of the statement.
\<close>

definition LOG_LEVEL :: "dates \<Rightarrow> nat \<Rightarrow> string \<Rightarrow> int \<Rightarrow> nat \<Rightarrow> nat \<Rightarrow> ptr \<Rightarrow> Level \<Rightarrow> string \<Rightarrow> log_world \<Rightarrow>
    (log_error + log_world) option" where
  "LOG_LEVEL date fuel file_name line thread now l level msg w =
     (case loggers w l of None \<Rightarrow> Some (Inl Bad_pointer)
      | Some lg \<Rightarrow>
          if l_level lg \<le> level then
            LogEventWrap_destroy date fuel l
              (getSS_put msg (new_LogEvent (l_name lg) level file_name line 0 thread 0 now)) w
          else Some (Inr w))"

text \<open>
  \<open>LOG_FMT_LEVEL(logger, level, fmt, ...)\<close>: \<open>out\<close> is what \<open>vasprintf\<close> makes of the arguments.
\<close>

definition LOG_FMT_LEVEL :: "dates \<Rightarrow> nat \<Rightarrow> string \<Rightarrow> int \<Rightarrow> nat \<Rightarrow> nat \<Rightarrow> ptr \<Rightarrow> Level \<Rightarrow> string option \<Rightarrow>
    log_world \<Rightarrow> (log_error + log_world) option" where
  "LOG_FMT_LEVEL date fuel file_name line thread now l level out w =
     (case loggers w l of None \<Rightarrow> Some (Inl Bad_pointer)
      | Some lg \<Rightarrow>
          if l_level lg \<le> level then
            LogEventWrap_destroy date fuel l
              (LogEvent_format out (new_LogEvent (l_name lg) level file_name line 0 thread 0 now)) w
          else Some (Inr w))"

text \<open>The two macros write the same; a failed \<open>vasprintf\<close> is a line without a message.\<close>

lemma LOG_FMT_LEVEL_eq:
  "LOG_FMT_LEVEL date fuel file_name line thread now l level out w =
   LOG_LEVEL date fuel file_name line thread now l level (case out of None \<Rightarrow> [] | Some s \<Rightarrow> s) w"
  by (simp add: LOG_FMT_LEVEL_def LOG_LEVEL_def log_event_defs split: option.split)

text \<open>The macros for each level.\<close>

definition LOG_DEBUG :: "dates \<Rightarrow> nat \<Rightarrow> string \<Rightarrow> int \<Rightarrow> nat \<Rightarrow> nat \<Rightarrow> ptr \<Rightarrow> string \<Rightarrow> log_world \<Rightarrow>
    (log_error + log_world) option" where
  "LOG_DEBUG date fuel file_name line thread now l = LOG_LEVEL date fuel file_name line thread now l DEBUG"

definition LOG_INFO :: "dates \<Rightarrow> nat \<Rightarrow> string \<Rightarrow> int \<Rightarrow> nat \<Rightarrow> nat \<Rightarrow> ptr \<Rightarrow> string \<Rightarrow> log_world \<Rightarrow>
    (log_error + log_world) option" where
  "LOG_INFO date fuel file_name line thread now l = LOG_LEVEL date fuel file_name line thread now l INFO"

definition LOG_WARN :: "dates \<Rightarrow> nat \<Rightarrow> string \<Rightarrow> int \<Rightarrow> nat \<Rightarrow> nat \<Rightarrow> ptr \<Rightarrow> string \<Rightarrow> log_world \<Rightarrow>
    (log_error + log_world) option" where
  "LOG_WARN date fuel file_name line thread now l = LOG_LEVEL date fuel file_name line thread now l WARN"

definition LOG_ERROR :: "dates \<Rightarrow> nat \<Rightarrow> string \<Rightarrow> int \<Rightarrow> nat \<Rightarrow> nat \<Rightarrow> ptr \<Rightarrow> string \<Rightarrow> log_world \<Rightarrow>
    (log_error + log_world) option" where
  "LOG_ERROR date fuel file_name line thread now l = LOG_LEVEL date fuel file_name line thread now l ERROR"

definition LOG_FATAL :: "dates \<Rightarrow> nat \<Rightarrow> string \<Rightarrow> int \<Rightarrow> nat \<Rightarrow> nat \<Rightarrow> ptr \<Rightarrow> string \<Rightarrow> log_world \<Rightarrow>
    (log_error + log_world) option" where
  "LOG_FATAL date fuel file_name line thread now l = LOG_LEVEL date fuel file_name line thread now l FATAL"

definition LOG_FMT_DEBUG :: "dates \<Rightarrow> nat \<Rightarrow> string \<Rightarrow> int \<Rightarrow> nat \<Rightarrow> nat \<Rightarrow> ptr \<Rightarrow> string option \<Rightarrow>
    log_world \<Rightarrow> (log_error + log_world) option" where
  "LOG_FMT_DEBUG date fuel file_name line thread now l = LOG_FMT_LEVEL date fuel file_name line thread now l DEBUG"

definition LOG_FMT_INFO :: "dates \<Rightarrow> nat \<Rightarrow> string \<Rightarrow> int \<Rightarrow> nat \<Rightarrow> nat \<Rightarrow> ptr \<Rightarrow> string option \<Rightarrow>
    log_world \<Rightarrow> (log_error + log_world) option" where
  "LOG_FMT_INFO date fuel file_name line thread now l = LOG_FMT_LEVEL date fuel file_name line thread now l INFO"

definition LOG_FMT_WARN :: "dates \<Rightarrow> nat \<Rightarrow> string \<Rightarrow> int \<Rightarrow> nat \<Rightarrow> nat \<Rightarrow> ptr \<Rightarrow> string option \<Rightarrow>
    log_world \<Rightarrow> (log_error + log_world) option" where
  "LOG_FMT_WARN date fuel file_name line thread now l = LOG_FMT_LEVEL date fuel file_name line thread now l WARN"

definition LOG_FMT_ERROR :: "dates \<Rightarrow> nat \<Rightarrow> string \<Rightarrow> int \<Rightarrow> nat \<Rightarrow> nat \<Rightarrow> ptr \<Rightarrow> string option \<Rightarrow>
    log_world \<Rightarrow> (log_error + log_world) option" where
  "LOG_FMT_ERROR date fuel file_name line thread now l = LOG_FMT_LEVEL date fuel file_name line thread now l ERROR"

definition LOG_FMT_FATAL :: "dates \<Rightarrow> nat \<Rightarrow> string \<Rightarrow> int \<Rightarrow> nat \<Rightarrow> nat \<Rightarrow> ptr \<Rightarrow> string option \<Rightarrow>
    log_world \<Rightarrow> (log_error + log_world) option" where
  "LOG_FMT_FATAL date fuel file_name line thread now l = LOG_FMT_LEVEL date fuel file_name line thread now l FATAL"

lemmas log_macros = LOG_DEBUG_def LOG_INFO_def LOG_WARN_def LOG_ERROR_def LOG_FATAL_def
  LOG_FMT_DEBUG_def LOG_FMT_INFO_def LOG_FMT_WARN_def LOG_FMT_ERROR_def LOG_FMT_FATAL_def

text \<open>
  A macro below the level of its logger does nothing: not even the event is made. So \<open>LOG_FATAL\<close> is the only one a
  logger of level \<open>FATAL\<close> takes.
\<close>

lemma LOG_LEVEL_below:
  "loggers w l = Some lg \<Longrightarrow> \<not> l_level lg \<le> level \<Longrightarrow> LOG_LEVEL date fuel file_name line thread now l level msg w = Some (Inr w)"
  by (simp add: LOG_LEVEL_def)

lemma fatal_logger_silent:
  assumes "loggers w l = Some lg" and "l_level lg = FATAL"
  shows "LOG_DEBUG date fuel file_name line thread now l msg w = Some (Inr w)"
    and "LOG_INFO date fuel file_name line thread now l msg w = Some (Inr w)"
    and "LOG_WARN date fuel file_name line thread now l msg w = Some (Inr w)"
    and "LOG_ERROR date fuel file_name line thread now l msg w = Some (Inr w)"
  unfolding log_macros using assms by (simp_all add: LOG_LEVEL_below less_eq_Level_def)

section \<open>Appenders as sinks\<close>

text \<open>
  What a logger relies on of an appender: below its threshold an event leaves no trace, from
  the threshold on its text is added to the sink, and the appender stays ready.
\<close>

locale log_sink =
  fixes put :: "Level \<Rightarrow> 'e \<Rightarrow> 'w \<Rightarrow> 'w" and ready :: "'w \<Rightarrow> bool" and sink :: "'w \<Rightarrow> string"
    and line :: "Level \<Rightarrow> 'e \<Rightarrow> string" and threshold :: Level
  assumes filtered: "ready w \<Longrightarrow> \<not> threshold \<le> level \<Longrightarrow> put level e w = w"
    and written: "ready w \<Longrightarrow> threshold \<le> level \<Longrightarrow> sink (put level e w) = sink w @ line level e"
    and stays: "ready w \<Longrightarrow> ready (put level e w)"
begin

lemma put_all:
  "ready w \<Longrightarrow> ready (fold (\<lambda>(level, e). put level e) es w) \<and>
   sink (fold (\<lambda>(level, e). put level e) es w) =
     sink w @ concat (map (\<lambda>(level, e). line level e) (filter (\<lambda>(level, e). threshold \<le> level) es))"
proof (induction es arbitrary: w)
  case (Cons x es)
  obtain level e where x: "x = (level, e)" by (cases x)
  show ?case
    using Cons.IH [of "put level e w"] Cons.prems filtered [of w level e] written [of w level e]
      stays [of w level e] by (cases "threshold \<le> level") (simp_all add: x)
qed simp

end

text \<open>The appender at \<open>p\<close> as a sink: its state is the whole log world, and errors leave it as it is.\<close>

definition put_log :: "dates \<Rightarrow> ptr \<Rightarrow> Level \<Rightarrow> LogEvent \<Rightarrow> log_world \<Rightarrow> log_world" where
  "put_log date p level e w = (case appender_log date p level e w of Inl err \<Rightarrow> w | Inr w' \<Rightarrow> w')"

definition stdout_ready :: "ptr \<Rightarrow> LogFormatter \<Rightarrow> Level \<Rightarrow> log_world \<Rightarrow> bool" where
  "stdout_ready p f t w \<longleftrightarrow> appenders w p = Some \<lparr>a_kind = StdoutLogAppender, a_level = t, a_formatter = Some f\<rparr>"

definition file_ready :: "ptr \<Rightarrow> string \<Rightarrow> LogFormatter \<Rightarrow> Level \<Rightarrow> log_world \<Rightarrow> bool" where
  "file_ready p fn f t w \<longleftrightarrow> (\<exists>text. files w fn = Some text) \<and>
     appenders w p = Some \<lparr>a_kind = FileLogAppender fn \<lparr>is_open = True, failed = False\<rparr>,
       a_level = t, a_formatter = Some f\<rparr>"

interpretation stdout_sink: log_sink "put_log date p" "stdout_ready p f t" console "format_event date f" t
  for date p f t
  by unfold_locales (auto simp: put_log_def stdout_ready_def appender_log_def)

interpretation file_sink: log_sink "put_log date p" "file_ready p fn f t" "\<lambda>w. the (files w fn)"
    "format_event date f" t for date p fn f t
  by unfold_locales (auto simp: put_log_def file_ready_def appender_log_def stream_put_def)

section \<open>Loggers\<close>

lemma Logger_log_below: "loggers w l = Some lg \<Longrightarrow> \<not> l_level lg \<le> level \<Longrightarrow>
  Logger_log date (Suc fuel) l level e w = Some (Inr w)"
  by simp

text \<open>A chain of root pointers that ends after at most \<open>n\<close> steps.\<close>

fun root_depth :: "nat \<Rightarrow> log_world \<Rightarrow> ptr \<Rightarrow> bool" where
  "root_depth 0 w l = False"
| "root_depth (Suc n) w l = (case loggers w l of None \<Rightarrow> True
     | Some lg \<Rightarrow> (case l_root lg of None \<Rightarrow> True | Some r \<Rightarrow> root_depth n w r))"

lemma root_depth_log: "root_depth n w l \<Longrightarrow> n \<le> fuel \<Longrightarrow> \<exists>r. Logger_log date fuel l level e w = Some r"
proof (induction n w l arbitrary: fuel rule: root_depth.induct)
  case (2 n w l)
  then obtain k where k: "fuel = Suc k" "n \<le> k" by (cases fuel) auto
  show ?case using 2 k by (auto split: option.splits)
qed simp

lemma erase_first_remove1: "erase_first p ps = remove1 p ps"
  by (induction ps) auto

text \<open>
  What the constructor of the manager leaves: the root logger with one console appender,
  which got its formatter from the logger.
\<close>

definition manager_ok :: "LoggerManager \<Rightarrow> log_world \<Rightarrow> bool" where
  "manager_ok mgr w \<longleftrightarrow> (\<exists>p. mgr_root mgr < next_ptr w \<and> p < next_ptr w \<and>
     loggers w (mgr_root mgr) = Some ((new_Logger ''root'')\<lparr>l_appenders := [p]\<rparr>) \<and>
     stdout_ready p (new_LogFormatter default_pattern) DEBUG w)"

lemma new_LoggerManager_ok:
  "\<exists>mgr w'. new_LoggerManager w = Inr (mgr, w') \<and> manager_ok mgr w' \<and> console w' = console w \<and>
     m_loggers mgr = Map.empty"
  by (auto simp: new_LoggerManager_def alloc_logger_def alloc_appender_def addAppender_def manager_ok_def
      stdout_ready_def new_StdoutLogAppender_def new_Logger_def)

lemma getLogger_eq: "getLogger name mgr w =
    (next_ptr w, mgr\<lparr>m_loggers := (m_loggers mgr)(name \<mapsto> next_ptr w)\<rparr>,
     w\<lparr>loggers := (loggers w)(next_ptr w \<mapsto> (new_Logger name)\<lparr>l_root := Some (mgr_root mgr)\<rparr>), next_ptr := next_ptr w + 1\<rparr>)"
  by (simp add: getLogger_def alloc_logger_def Let_def)

lemma manager_ok_getLogger:
  "manager_ok mgr w \<Longrightarrow> getLogger name mgr w = (l, mgr', w') \<Longrightarrow> manager_ok mgr' w'"
proof -
  assume "manager_ok mgr w" and g: "getLogger name mgr w = (l, mgr', w')"
  then obtain p where "mgr_root mgr < next_ptr w" "p < next_ptr w"
    "loggers w (mgr_root mgr) = Some ((new_Logger ''root'')\<lparr>l_appenders := [p]\<rparr>)"
    "stdout_ready p (new_LogFormatter default_pattern) DEBUG w" by (auto simp: manager_ok_def)
  then show ?thesis using g unfolding manager_ok_def
    by (intro exI [of _ p]) (auto simp: getLogger_eq stdout_ready_def)
qed

text \<open>The line the console gets for an event under the default pattern.\<close>

definition default_line :: "dates \<Rightarrow> Level \<Rightarrow> LogEvent \<Rightarrow> string" where
  "default_line date level e = format_event date (new_LogFormatter default_pattern) level e"

lemma root_log:
  assumes "manager_ok mgr w" "DEBUG \<le> level"
  shows "Logger_log date (Suc fuel) (mgr_root mgr) level e w =
    Some (Inr (w\<lparr>console := console w @ default_line date level e\<rparr>))"
  using assms by (auto simp: manager_ok_def stdout_ready_def appender_log_def default_line_def new_Logger_def)

lemma child_log:
  assumes "manager_ok mgr w" "getLogger name mgr w = (l, mgr', w')" "DEBUG \<le> level"
  shows "Logger_log date (Suc (Suc fuel)) l level e w' =
    Some (Inr (w'\<lparr>console := console w' @ default_line date level e\<rparr>))"
proof -
  have "manager_ok mgr' w'" by (rule manager_ok_getLogger [OF assms(1,2)])
  moreover have "mgr_root mgr' = mgr_root mgr" "loggers w' l = Some ((new_Logger name)\<lparr>l_root := Some (mgr_root mgr)\<rparr>)"
    using assms(2) by (auto simp: getLogger_eq)
  ultimately show ?thesis using root_log [of mgr' w' level date fuel e] assms(3)
    by (simp add: new_Logger_def)
qed


lemma default_line_eq: "default_line date level e =
     date ''%Y-%m-%d %H:%M:%S'' (m_time e) @ [CHR 0x09] @ show_nat (m_threadId e) @ [CHR 0x09] @
     show_nat (m_fiberId e) @ [CHR 0x09] @ ''['' @ toString level @ '']'' @ [CHR 0x09] @
     ''['' @ logger_name e @ '']'' @ [CHR 0x09] @ m_file e @ '':'' @ show_int (m_line e) @ [CHR 0x09] @
     content e @ [CHR 0x0A]"
  by (simp add: default_line_def default_formatter format_event_def default_items_def date_format_def)

text \<open>A file appender that was never opened drops what it is given.\<close>

definition closed_file :: "ptr \<Rightarrow> string \<Rightarrow> LogFormatter \<Rightarrow> log_world \<Rightarrow> bool" where
  "closed_file p fn f w \<longleftrightarrow> (\<exists>b. appenders w p = Some \<lparr>a_kind = FileLogAppender fn \<lparr>is_open = False, failed = b\<rparr>,
     a_level = DEBUG, a_formatter = Some f\<rparr>)"

lemma closed_file_put: "closed_file p fn f w \<Longrightarrow>
  closed_file p fn f (put_log date p level e w) \<and> files (put_log date p level e w) = files w"
  by (auto simp: closed_file_def put_log_def appender_log_def stream_put_def)

lemma closed_file_fold: "closed_file p fn f w \<Longrightarrow>
  closed_file p fn f (fold (\<lambda>(level, e). put_log date p level e) es w) \<and>
  files (fold (\<lambda>(level, e). put_log date p level e) es w) = files w"
proof (induction es arbitrary: w)
  case (Cons x es)
  obtain level e where x: "x = (level, e)" by (cases x)
  show ?case
    using Cons.IH [of "put_log date p level e w"] closed_file_put [OF Cons.prems, of date level e] by (simp add: x)
qed simp

lemma closed_file_reopen: "closed_file p fn f w \<Longrightarrow> can_open fn \<Longrightarrow>
  \<exists>w'. reopen can_open p w = Inr (True, w') \<and> file_ready p fn f DEBUG w' \<and> files w' fn = Some []"
  by (auto simp: closed_file_def reopen_def stream_open_def stream_close_def file_ready_def Let_def)

section \<open>Properties\<close>

text \<open>
  On the root logger a fresh manager sets up,
  \<open>LOG_INFO(LOG_ROOT()) << msg\<close> and its siblings write exactly one line of the default
  pattern to the console, and nothing for \<open>UNKOWN\<close>, the only level below \<open>DEBUG\<close>.
\<close>

theorem log_root_line:
  "\<exists>mgr w1. new_LoggerManager w = Inr (mgr, w1) \<and> console w1 = console w \<and>
    LOG_LEVEL date (Suc fuel) fl line thread now (getRoot mgr) level msg w1 =
      Some (Inr (if level = UNKOWN then w1 else w1\<lparr>console := console w @
        date ''%Y-%m-%d %H:%M:%S'' now @ [CHR 0x09] @ show_nat thread @ [CHR 0x09] @ ''0'' @ [CHR 0x09] @
        ''['' @ toString level @ '']'' @ [CHR 0x09] @ ''[root]'' @ [CHR 0x09] @
        fl @ '':'' @ show_int line @ [CHR 0x09] @ msg @ [CHR 0x0A]\<rparr>))"
proof -
  obtain mgr w1 where m: "new_LoggerManager w = Inr (mgr, w1)" "manager_ok mgr w1" "console w1 = console w"
    using new_LoggerManager_ok by blast
  have lg: "\<exists>p. loggers w1 (mgr_root mgr) = Some ((new_Logger ''root'')\<lparr>l_appenders := [p]\<rparr>)"
    using m(2) by (auto simp: manager_ok_def)
  have "DEBUG \<le> level \<longleftrightarrow> level \<noteq> UNKOWN" by (cases level) simp_all
  then show ?thesis using m lg root_log [OF m(2), of level date fuel]
    by (auto simp: LOG_LEVEL_def log_event_defs getRoot_def new_Logger_def default_line_eq)
qed

text \<open>
  A statement passes two thresholds. With the level of a root logger set to \<open>ll\<close> and that of its
  console appender to \<open>la\<close>, it writes its line exactly when its level reaches both.
\<close>

theorem two_thresholds:
  assumes "loggers w l = Some ((new_Logger ''root'')\<lparr>l_appenders := [p]\<rparr>)"
    and "appenders w p = Some \<lparr>a_kind = StdoutLogAppender, a_level = DEBUG, a_formatter = Some f\<rparr>"
  shows "\<exists>w1. setLevel l ll (w\<lparr>appenders := (appenders w)(p \<mapsto> LogAppender_setLevel la (the (appenders w p)))\<rparr>) = Inr w1 \<and>
    LOG_LEVEL date (Suc fuel) fl line thread now l level msg w1 =
      Some (Inr (if ll \<le> level \<and> la \<le> level
        then w1\<lparr>console := console w @
          format_event date f level (getSS_put msg (new_LogEvent ''root'' level fl line 0 thread 0 now))\<rparr>
        else w1))"
  using assms by (auto simp: setLevel_def LOG_LEVEL_def log_event_defs appender_log_def new_Logger_def)

text \<open>
  A logger obtained by name has no appender of its own: what it logs
  reaches the console through the root logger, on the same line the root would write.
\<close>

theorem named_logger_uses_root:
  "\<exists>mgr w1 l mgr' w2. new_LoggerManager w = Inr (mgr, w1) \<and> getLogger name mgr w1 = (l, mgr', w2) \<and>
    Logger_log date (Suc (Suc fuel)) l level e w2 =
      Some (Inr (if level = UNKOWN then w2 else w2\<lparr>console := console w @ default_line date level e\<rparr>))"
proof -
  obtain mgr w1 where m: "new_LoggerManager w = Inr (mgr, w1)" "manager_ok mgr w1" "console w1 = console w"
    using new_LoggerManager_ok by blast
  obtain l mgr' w2 where g: "getLogger name mgr w1 = (l, mgr', w2)" by (metis surj_pair)
  have c: "console w2 = console w" using g m(3) by (auto simp: getLogger_eq)
  have "Logger_log date (Suc (Suc fuel)) l level e w2 =
      Some (Inr (if level = UNKOWN then w2 else w2\<lparr>console := console w @ default_line date level e\<rparr>))"
  proof (cases "level = UNKOWN")
    case True
    have "loggers w2 l = Some ((new_Logger name)\<lparr>l_root := Some (mgr_root mgr)\<rparr>)" using g by (auto simp: getLogger_eq)
    then show ?thesis using True by (simp add: new_Logger_def)
  next
    case False
    then have "DEBUG \<le> level" by (cases level) simp_all
    from child_log [OF m(2) g this] show ?thesis using False c by simp
  qed
  then show ?thesis using m(1) g by blast
qed

text \<open>
  \<open>getLogger\<close> compares an iterator with itself, so it never finds a
  logger: a second call with the same name makes another logger, with the initial level, and
  the settings of the first are lost to everyone who asks by name.
\<close>

theorem getLogger_never_finds:
  assumes "getLogger name mgr w = (l1, mgr1, w1)" and "setLevel l1 level w1 = Inr w2"
    and "getLogger name mgr1 w2 = (l2, mgr2, w3)"
  shows "l1 \<noteq> l2 \<and> m_loggers mgr2 name = Some l2 \<and> (\<exists>lg. loggers w3 l2 = Some lg \<and> l_level lg = DEBUG) \<and>
    (\<exists>lg. loggers w3 l1 = Some lg \<and> l_level lg = level)"
  using assms by (auto simp: getLogger_eq setLevel_def new_Logger_def split: option.splits)

text \<open>
  A formatter set on a logger by a valid pattern becomes the
  logger's, but does not reach the appenders already attached: the console of the root
  logger keeps writing the default line. An invalid pattern changes no logger, and the
  console gets the parser's messages and then the logger's.
\<close>

theorem setFormatter_after_addAppender:
  assumes "manager_ok mgr w"
  shows "\<exists>w'. setFormatter_pattern (mgr_root mgr) val w = Inr w' \<and>
    (if m_error (new_LogFormatter val)
     then loggers w' = loggers w \<and> console w' = console w @ formatter_output val @
       ''Logger setFormatter name=root value='' @ val @ '' invalid formatter'' @ [CHR 0x0A]
     else map_option l_formatter (loggers w' (mgr_root mgr)) = Some (Some (new_LogFormatter val)) \<and>
       console w' = console w @ formatter_output val) \<and>
    Logger_log date (Suc fuel) (mgr_root mgr) INFO e w' =
      Some (Inr (w'\<lparr>console := console w' @ default_line date INFO e\<rparr>))"
  using assms by (cases "m_error (new_LogFormatter val)")
    (auto simp: setFormatter_pattern_def manager_ok_def stdout_ready_def appender_log_def
      default_line_def new_Logger_def Let_def)

text \<open>
  A file appender writes nothing before \<open>reopen\<close>; when the file can be opened
  \<open>reopen\<close> reports success and empties it, and from then on the file holds exactly the lines of the
  events from the appender's level on, in order.
\<close>

theorem file_appender_life:
  assumes "appenders w p = Some ((new_FileLogAppender fn)\<lparr>a_formatter := Some f\<rparr>)" and "can_open fn"
  shows "files (fold (\<lambda>(level, e). put_log date p level e) early w) = files w \<and>
    (\<exists>w1. reopen can_open p (fold (\<lambda>(level, e). put_log date p level e) early w) = Inr (True, w1) \<and>
      the (files (fold (\<lambda>(level, e). put_log date p level e) late w1) fn) =
        concat (map (\<lambda>(level, e). format_event date f level e) (filter (\<lambda>(level, e). DEBUG \<le> level) late)))"
proof -
  have c: "closed_file p fn f w"
    unfolding closed_file_def using assms(1) by (intro exI [of _ False]) (simp add: new_FileLogAppender_def)
  let ?w = "fold (\<lambda>(level, e). put_log date p level e) early w"
  have e: "closed_file p fn f ?w" "files ?w = files w" using closed_file_fold [OF c] by blast+
  obtain w1 where r: "reopen can_open p ?w = Inr (True, w1)" "file_ready p fn f DEBUG w1" "files w1 fn = Some []"
    using closed_file_reopen [of p fn f ?w can_open] e(1) assms(2) by blast
  have "the (files (fold (\<lambda>(level, e). put_log date p level e) late w1) fn) =
      concat (map (\<lambda>(level, e). format_event date f level e) (filter (\<lambda>(level, e). DEBUG \<le> level) late))"
    using file_sink.put_all [OF r(2), of date late] r(3) by simp
  with e(2) r(1) show ?thesis by blast
qed

text \<open>
  Removing an appender right after adding it restores the logger; the
  appender itself keeps the formatter the logger lent it.
\<close>

theorem delAppender_addAppender:
  assumes "loggers w l = Some lg" and "appenders w p = Some a" and "p \<notin> set (l_appenders lg)"
  shows "\<exists>w1 w2. addAppender l p w = Inr w1 \<and> delAppender l p w1 = Inr w2 \<and> loggers w2 = loggers w \<and>
    appenders w2 p = Some (if a_formatter a = None then a\<lparr>a_formatter := l_formatter lg\<rparr> else a)"
  using assms by (simp add: addAppender_def delAppender_def erase_first_remove1 remove1_append fun_upd_idem)

text \<open>
  Logging returns: a chain of \<open>n\<close> loggers needs no more than \<open>n\<close> rounds, and
  a logger the manager hands out needs two.
\<close>

theorem Logger_log_returns:
  "(root_depth n w l \<longrightarrow> n \<le> fuel \<longrightarrow> (\<exists>r. Logger_log date fuel l level e w = Some r)) \<and>
   (manager_ok mgr v \<longrightarrow> getLogger name mgr v = (l', mgr', v') \<longrightarrow> root_depth 2 v' l')"
proof (intro conjI impI)
  assume m: "manager_ok mgr v" and g: "getLogger name mgr v = (l', mgr', v')"
  have "manager_ok mgr' v'" by (rule manager_ok_getLogger [OF m g])
  moreover have "mgr_root mgr' = mgr_root mgr" "loggers v' l' = Some ((new_Logger name)\<lparr>l_root := Some (mgr_root mgr)\<rparr>)"
    using g by (auto simp: getLogger_eq)
  ultimately show "root_depth 2 v' l'"
    by (auto simp: numeral_2_eq_2 manager_ok_def new_Logger_def)
qed (rule root_depth_log)


section \<open>A concrete log\<close>

definition empty_log :: log_world where
  "empty_log = \<lparr>loggers = Map.empty, appenders = Map.empty, next_ptr = 1, console = [], files = Map.empty\<rparr>"

definition demo_event :: LogEvent where
  "demo_event = \<lparr>m_file = ''main.cc'', m_line = 7, m_elapse = 0, m_threadId = 1, m_fiberId = 0, m_time = 0,
     content = ''hello'', logger_name = ''root'', event_level = INFO\<rparr>"

lemma empty_log_manager: "\<exists>mgr w. new_LoggerManager empty_log = Inr (mgr, w) \<and> manager_ok mgr w"
  using new_LoggerManager_ok by blast

lemma getLogger_never_finds_witness:
  "\<exists>mgr w l1 mgr1 w1 w2 l2 mgr2 w3. getLogger ''net'' mgr w = (l1, mgr1, w1) \<and>
    setLevel l1 FATAL w1 = Inr w2 \<and> getLogger ''net'' mgr1 w2 = (l2, mgr2, w3) \<and>
    l1 \<noteq> l2 \<and> m_loggers mgr2 ''net'' = Some l2 \<and> (\<exists>lg. loggers w3 l2 = Some lg \<and> l_level lg = DEBUG) \<and>
    (\<exists>lg. loggers w3 l1 = Some lg \<and> l_level lg = FATAL)"
proof -
  obtain mgr w where "new_LoggerManager empty_log = Inr (mgr, w)" using empty_log_manager by blast
  obtain l1 mgr1 w1 where 1: "getLogger ''net'' mgr w = (l1, mgr1, w1)" by (metis surj_pair)
  obtain w2 where 2: "setLevel l1 FATAL w1 = Inr w2" using 1 by (auto simp: getLogger_eq setLevel_def)
  obtain l2 mgr2 w3 where 3: "getLogger ''net'' mgr1 w2 = (l2, mgr2, w3)" by (metis surj_pair)
  show ?thesis using 1 2 3 getLogger_never_finds [OF 1 2 3] by blast
qed

lemma setFormatter_after_addAppender_witness:
  "\<exists>mgr w w'. manager_ok mgr w \<and> setFormatter_pattern (mgr_root mgr) ''%m'' w = Inr w' \<and>
    Logger_log (\<lambda>f t. f) (Suc 0) (mgr_root mgr) INFO demo_event w' =
      Some (Inr (w'\<lparr>console := console w' @ default_line (\<lambda>f t. f) INFO demo_event\<rparr>))"
proof -
  obtain mgr w where "manager_ok mgr w" using empty_log_manager by blast
  from setFormatter_after_addAppender [OF this, of "''%m''" "\<lambda>f t. f" 0 demo_event] this show ?thesis by blast
qed

definition demo_log :: log_world where
  "demo_log = empty_log\<lparr>appenders :=
     [1 \<mapsto> (new_FileLogAppender ''a.log'')\<lparr>a_formatter := Some (new_LogFormatter ''%m'')\<rparr>]\<rparr>"

lemma file_appender_life_witness:
  "files (fold (\<lambda>(level, e). put_log (\<lambda>f t. f) 1 level e) [(INFO, demo_event)] demo_log) = Map.empty \<and>
   (\<exists>w1. reopen (\<lambda>fn. True) 1 (fold (\<lambda>(level, e). put_log (\<lambda>f t. f) 1 level e) [(INFO, demo_event)] demo_log) =
       Inr (True, w1) \<and>
     the (files (fold (\<lambda>(level, e). put_log (\<lambda>f t. f) 1 level e) [(INFO, demo_event), (UNKOWN, demo_event)] w1) ''a.log'') =
       format_event (\<lambda>f t. f) (new_LogFormatter ''%m'') INFO demo_event)"
proof -
  have "appenders demo_log 1 = Some ((new_FileLogAppender ''a.log'')\<lparr>a_formatter := Some (new_LogFormatter ''%m'')\<rparr>)"
    by (simp add: demo_log_def)
  note life = file_appender_life [OF this, of "\<lambda>fn. True" "\<lambda>f t. f" "[(INFO, demo_event)]"
    "[(INFO, demo_event), (UNKOWN, demo_event)]"]
  have "files demo_log = Map.empty" by (simp add: demo_log_def empty_log_def)
  moreover have "concat (map (\<lambda>(level, e). format_event (\<lambda>f t. f) (new_LogFormatter ''%m'') level e)
      (filter (\<lambda>(level, e). DEBUG \<le> level) [(INFO, demo_event), (UNKOWN, demo_event)])) =
    format_event (\<lambda>f t. f) (new_LogFormatter ''%m'') INFO demo_event" by simp
  ultimately show ?thesis using life by (simp only: simp_thms)
qed

lemma delAppender_addAppender_witness:
  "\<exists>w w1 w2. addAppender 1 2 w = Inr w1 \<and> delAppender 1 2 w1 = Inr w2 \<and> loggers w2 = loggers w \<and>
    appenders w2 2 = Some (new_StdoutLogAppender\<lparr>a_formatter := Some (new_LogFormatter default_pattern)\<rparr>)"
proof -
  let ?w = "empty_log\<lparr>loggers := [1 \<mapsto> new_Logger ''root''], appenders := [2 \<mapsto> new_StdoutLogAppender]\<rparr>"
  have "loggers ?w 1 = Some (new_Logger ''root'')" "appenders ?w 2 = Some new_StdoutLogAppender"
    "2 \<notin> set (l_appenders (new_Logger ''root''))" by (simp_all add: new_Logger_def)
  from delAppender_addAppender [OF this] obtain w1 w2 where "addAppender 1 2 ?w = Inr w1"
    "delAppender 1 2 w1 = Inr w2" "loggers w2 = loggers ?w" and
    a: "appenders w2 2 = Some (if a_formatter new_StdoutLogAppender = None
      then new_StdoutLogAppender\<lparr>a_formatter := l_formatter (new_Logger ''root'')\<rparr> else new_StdoutLogAppender)" by blast
  moreover have "appenders w2 2 = Some (new_StdoutLogAppender\<lparr>a_formatter := Some (new_LogFormatter default_pattern)\<rparr>)"
    using a by (simp add: new_StdoutLogAppender_def new_Logger_def)
  ultimately show ?thesis by blast
qed

lemma Logger_log_returns_witness:
  "\<exists>mgr v l' mgr' v' r. getLogger ''net'' mgr v = (l', mgr', v') \<and> Logger_log (\<lambda>f t. f) 2 l' INFO ev v' = Some r"
proof -
  obtain mgr v where m: "manager_ok mgr v" using empty_log_manager by blast
  obtain l' mgr' v' where g: "getLogger ''net'' mgr v = (l', mgr', v')" by (metis surj_pair)
  have "root_depth 2 v' l'" using Logger_log_returns [of 2 v' l' 2] m g by blast
  then have "\<exists>r. Logger_log (\<lambda>f t. f) 2 l' INFO ev v' = Some r"
    using Logger_log_returns [of 2 v' l' 2 "\<lambda>f t. f" INFO ev] by blast
  then show ?thesis using g by blast
qed

end
