(* ===== verification/Log_Run.thy ===== *)
theory Log_Run
  imports Http_Send Log_Core
begin

text \<open>
  The handler and the server with the log they write: the log statements and the console writes
  of a run, which its trace holds as events, are carried out one after the other by the
  logger, the appender and the formatter of src/log.cc.
\<close>

section \<open>Carrying out the statements of a run\<close>

text \<open>
  Where a statement stands and when it is reached: the file and the line of the macro, the
  thread and the time. They are a function of the events before the statement.
\<close>

type_synonym place = "string \<times> int \<times> nat \<times> nat"

fun replay :: "dates \<Rightarrow> (event list \<Rightarrow> place) \<Rightarrow> ptr \<Rightarrow> event list \<Rightarrow> event list \<Rightarrow> log_world \<Rightarrow>
    (log_error + log_world) option" where
  "replay date place root past [] w = Some (Inr w)"
| "replay date place root past (EvLog level msg # es) w =
     (case place past of (fl, line, thread, now) \<Rightarrow>
        (case LOG_LEVEL date 1 fl line thread now root level msg w of
           None \<Rightarrow> None
         | Some (Inl e) \<Rightarrow> Some (Inl e)
         | Some (Inr w') \<Rightarrow> replay date place root (past @ [EvLog level msg]) es w'))"
| "replay date place root past (EvOut s # es) w =
     replay date place root (past @ [EvOut s]) es (w\<lparr>console := console w @ s\<rparr>)"
| "replay date place root past (e # es) w = replay date place root (past @ [e]) es w"

text \<open>What an event should put on the console.\<close>

definition root_line :: "dates \<Rightarrow> place \<Rightarrow> Level \<Rightarrow> string \<Rightarrow> string" where
  "root_line date pl level msg = (case pl of (fl, line, thread, now) \<Rightarrow>
     date ''%Y-%m-%d %H:%M:%S'' now @ [CHR 0x09] @ show_nat thread @ [CHR 0x09] @ ''0'' @ [CHR 0x09] @
     ''['' @ toString level @ '']'' @ [CHR 0x09] @ ''[root]'' @ [CHR 0x09] @
     fl @ '':'' @ show_int line @ [CHR 0x09] @ msg @ [CHR 0x0A])"

fun event_text :: "dates \<Rightarrow> place \<Rightarrow> event \<Rightarrow> string" where
  "event_text date pl (EvLog level msg) = (if level = UNKOWN then [] else root_line date pl level msg)"
| "event_text date pl (EvOut s) = s"
| "event_text date pl _ = []"

fun run_text :: "dates \<Rightarrow> (event list \<Rightarrow> place) \<Rightarrow> event list \<Rightarrow> event list \<Rightarrow> string" where
  "run_text date place past [] = []"
| "run_text date place past (e # es) = event_text date (place past) e @ run_text date place (past @ [e]) es"

lemma LOG_LEVEL_root:
  assumes "manager_ok mgr w"
  shows "LOG_LEVEL date 1 fl line thread now (mgr_root mgr) level msg w =
    Some (Inr (w\<lparr>console := console w @ event_text date (fl, line, thread, now) (EvLog level msg)\<rparr>))"
proof -
  obtain p where lg: "loggers w (mgr_root mgr) = Some ((new_Logger ''root'')\<lparr>l_appenders := [p]\<rparr>)"
    using assms by (auto simp: manager_ok_def)
  have "DEBUG \<le> level \<longleftrightarrow> level \<noteq> UNKOWN" by (cases level) simp_all
  then show ?thesis using lg root_log [OF assms, of level date 0]
    by (auto simp: LOG_LEVEL_def log_event_defs new_Logger_def default_line_eq root_line_def)
qed

lemma manager_ok_console [simp]: "manager_ok mgr (w\<lparr>console := c\<rparr>) \<longleftrightarrow> manager_ok mgr w"
  by (simp add: manager_ok_def stdout_ready_def)

lemma replay_run:
  "manager_ok mgr w \<Longrightarrow> replay date place (mgr_root mgr) past es w =
    Some (Inr (w\<lparr>console := console w @ run_text date place past es\<rparr>))"
proof (induction es arbitrary: past w)
  case (Cons e es)
  show ?case
  proof (cases e)
    case (EvLog level msg)
    obtain fl line thread now where pl: "place past = (fl, line, thread, now)" by (cases "place past") auto
    let ?w = "w\<lparr>console := console w @ event_text date (place past) (EvLog level msg)\<rparr>"
    have "manager_ok mgr ?w" using Cons.prems by simp
    from Cons.IH [OF this, of "past @ [e]"] LOG_LEVEL_root [OF Cons.prems] show ?thesis
      by (simp add: EvLog pl del: event_text.simps)
  next
    case (EvOut s)
    have "manager_ok mgr (w\<lparr>console := console w @ s\<rparr>)" using Cons.prems by simp
    from Cons.IH [OF this, of "past @ [e]"] show ?thesis by (simp add: EvOut)
  qed (use Cons in simp_all)
qed simp

section \<open>Properties\<close>

text \<open>
  Whatever a run of the server does, carrying out its log
  statements on a fresh manager never fails, and the console holds, in the order of the run,
  what was written to it and one default line for every statement.
\<close>

theorem run_on_console:
  "\<exists>mgr w1. new_LoggerManager w = Inr (mgr, w1) \<and> replay date place (getRoot mgr) past es w1 =
    Some (Inr (w1\<lparr>console := console w @ run_text date place past es\<rparr>))"
proof -
  obtain mgr w1 where m: "new_LoggerManager w = Inr (mgr, w1)" "manager_ok mgr w1" "console w1 = console w"
    using new_LoggerManager_ok by blast
  with replay_run [OF m(2), of date place past es] show ?thesis by (auto simp: getRoot_def)
qed

text \<open>
  C29 (functional, log and handler end to end). Serving a plain file prints, on a fresh log, the
  line with the request line, the two messages of the handler, and the line of
  \<open>SendHttpResponse\<close>, and nothing else.
\<close>

theorem static_page_console:
  assumes "request_ok m u v hs" and "map toupper m = ''GET''"
    and "sock_in w = map RByte (request_line m u v) @ RByte CR # RByte LF # header_block hs @ i"
    and "CHR 0x00 \<notin> set u" and "p = resource_path (fst (query_split u))"
    and "plain_file os p st" and "full_send os"
  shows "\<exists>w' es mgr lw1 lw2. HandlerRequest os False fd0 size0 sock w = Inr w' \<and> trace w' = trace w @ es \<and>
    new_LoggerManager lw = Inr (mgr, lw1) \<and> replay date place (getRoot mgr) (trace w) es lw1 = Some (Inr lw2) \<and>
    console lw2 = console lw @ root_line date (place (trace w)) INFO (request_line m u v) @
      ''path:'' @ p @ [LF] @ ''not cgi begining'' @ [LF] @
      root_line date (place (trace w @ take 10 es)) INFO ''SendHttpRespone''"
proof -
  obtain f1 f2 body where run: "HandlerRequest os False fd0 size0 sock w = Inr (w\<lparr>sock_in := i, trace := trace w @
      [EvLog INFO (request_line m u v), EvOut (''path:'' @ p @ [LF]), EvStat p,
       EvOut (''not cgi begining'' @ [LF]), EvOpen p f1, EvOpen p f2,
       EvSend sock (status_line_of 200) (int (length (status_line_of 200))),
       EvSend sock [CR, LF] 2, EvSendfile sock f2 (int (to_size (to_int (st_size st)))) body, EvClose f2,
       EvLog INFO ''SendHttpRespone'', EvClose sock]\<rparr>)" (is "_ = Inr (w\<lparr>sock_in := i, trace := _ @ ?es\<rparr>)")
    using static_file_run [OF assms, of fd0 size0 sock] by blast
  obtain mgr w1 where m: "new_LoggerManager lw = Inr (mgr, w1)" "manager_ok mgr w1" "console w1 = console lw"
    using new_LoggerManager_ok by blast
  have txt_eq: "run_text date place (trace w) ?es = root_line date (place (trace w)) INFO (request_line m u v) @
      ''path:'' @ p @ [LF] @ ''not cgi begining'' @ [LF] @ root_line date (place (trace w @ take 10 ?es)) INFO ''SendHttpRespone''"
    by simp
  show ?thesis using run m replay_run [OF m(2), of date place "trace w" ?es] txt_eq
    by (intro exI [of _ "w\<lparr>sock_in := i, trace := trace w @ ?es\<rparr>"] exI [of _ ?es] exI [of _ mgr] exI [of _ w1]
        exI [of _ "w1\<lparr>console := console w1 @ run_text date place (trace w) ?es\<rparr>"])
      (simp add: getRoot_def)
qed

lemma static_page_console_witness:
  "\<exists>w' es mgr lw1 lw2. HandlerRequest demo_os False 0 0 8 (demo_world ''GET'' ''/index.html'') = Inr w' \<and>
    trace w' = trace (demo_world ''GET'' ''/index.html'') @ es \<and>
    new_LoggerManager \<lparr>loggers = Map.empty, appenders = Map.empty, next_ptr = 0, console = [], files = Map.empty\<rparr> = Inr (mgr, lw1) \<and>
    replay (\<lambda>f t. ''date'') (\<lambda>h. (''protocal.cc'', 70, 1, 2)) (getRoot mgr) (trace (demo_world ''GET'' ''/index.html'')) es lw1 =
      Some (Inr lw2) \<and>
    console lw2 = [] @ root_line (\<lambda>f t. ''date'') (''protocal.cc'', 70, 1, 2) INFO (request_line ''GET'' ''/index.html'' ''HTTP/1.1'') @
      ''path:'' @ ''wwwroot/index.html'' @ [LF] @ ''not cgi begining'' @ [LF] @
      root_line (\<lambda>f t. ''date'') (''protocal.cc'', 70, 1, 2) INFO ''SendHttpRespone''"
  by (rule static_page_console [OF demo_request_ok toupper_demo(1) demo_world_in(1) _ _ demo_files(1) demo_os_laws(1),
        where date = "\<lambda>f t. ''date''" and place = "\<lambda>h. (''protocal.cc'', 70, 1, 2)"
          and lw = "\<lparr>loggers = Map.empty, appenders = Map.empty, next_ptr = 0, console = [], files = Map.empty\<rparr>", simplified log_world.simps])
     (simp_all add: demo_words demo_queries demo_resource_paths)

end
