(* ===== verification/Timer_Heap.thy ===== *)
theory Timer_Heap
  imports Prelude
begin

text \<open>
  The timer heap (src/timer.cc, include/timer.h): timers are heap objects at addresses, the
  heap is an array of pointers to them with a capacity and a current size. The file is not
  in the build and has slips no compiler accepts (\<open>percalate_down\<close>, \<open>chile\<close>, \<open>timer->->cb_func\<close>,
  \<open>TimeHeap::::tick\<close>, \<open>client_data\<close> for \<open>ClientData\<close>); they are read as the names they stand for.
  Array accesses, dereferences and the signed sums that could leave the range of \<open>int\<close> are
  checked, and the values of \<open>timer_error\<close> are the ways an operation goes wrong.
\<close>

section \<open>Memory and state\<close>

type_synonym addr = nat

record HeapTimer =
  expire :: int
  cb_func :: "nat option"
  user_data :: nat

type_synonym store = "addr \<rightharpoonup> HeapTimer"

record TimeHeap =
  slots :: "addr option list"
  capacity :: int
  cur_size :: int

datatype timer_error = Bad_alloc | Size_exception | Out_of_bounds | Null_deref | Dangling | Int_overflow

text \<open>
  The constructor, with the 64 bits of \<open>time_t\<close>; the callback and its argument are whatever the memory held.
\<close>

definition new_HeapTimer :: "int \<Rightarrow> int \<Rightarrow> nat option \<Rightarrow> nat \<Rightarrow> timer_error + HeapTimer" where
  "new_HeapTimer now delay cb0 ud0 =
     (if - (2 ^ 63) \<le> now + delay \<and> now + delay < 2 ^ 63
      then Inr \<lparr>expire = now + delay, cb_func = cb0, user_data = ud0\<rparr> else Inl Int_overflow)"

definition rd :: "addr option list \<Rightarrow> int \<Rightarrow> timer_error + addr option" where
  "rd xs i = (if 0 \<le> i \<and> i < int (length xs) then Inr (xs ! nat i) else Inl Out_of_bounds)"

definition wr :: "addr option list \<Rightarrow> int \<Rightarrow> addr option \<Rightarrow> timer_error + addr option list" where
  "wr xs i p = (if 0 \<le> i \<and> i < int (length xs) then Inr (xs[nat i := p]) else Inl Out_of_bounds)"

definition deref :: "store \<Rightarrow> addr option \<Rightarrow> timer_error + HeapTimer" where
  "deref st p = (case p of
     None \<Rightarrow> Inl Null_deref
   | Some a \<Rightarrow> (case st a of None \<Rightarrow> Inl Dangling | Some t \<Rightarrow> Inr t))"

text \<open>\<open>delete p\<close>: nothing for the null pointer, an error for memory freed before.\<close>

definition free :: "store \<Rightarrow> addr option \<Rightarrow> timer_error + store" where
  "free st p = (case p of
     None \<Rightarrow> Inr st
   | Some a \<Rightarrow> (case st a of None \<Rightarrow> Inl Dangling | Some _ \<Rightarrow> Inr (st(a := None))))"

text \<open>\<open>new HeapTimer*[n]\<close> with the loop that sets every element to \<open>NULL\<close>.\<close>

definition new_array :: "int \<Rightarrow> timer_error + addr option list" where
  "new_array n = (if n < 0 then Inl Bad_alloc else Inr (replicate (nat n) None))"

definition read_expire :: "store \<Rightarrow> addr option list \<Rightarrow> int \<Rightarrow> timer_error + int" where
  "read_expire st xs i = (case rd xs i of Inl e \<Rightarrow> Inl e
     | Inr p \<Rightarrow> (case deref st p of Inl e \<Rightarrow> Inl e | Inr t \<Rightarrow> Inr (expire t)))"

text \<open>The copying loops of the second constructor and of \<open>resize\<close>: elements \<open>i\<close> to \<open>n - 1\<close>.\<close>

function copy_loop :: "addr option list \<Rightarrow> int \<Rightarrow> int \<Rightarrow> addr option list \<Rightarrow> timer_error + addr option list" where
  "copy_loop from i n to =
     (if i < n then
        (case rd from i of Inl e \<Rightarrow> Inl e
         | Inr p \<Rightarrow> (case wr to i p of Inl e \<Rightarrow> Inl e | Inr to' \<Rightarrow> copy_loop from (i + 1) n to'))
      else Inr to)"
  by pat_completeness auto
termination copy_loop
  by (relation "measure (\<lambda>(from, i, n, to). nat (n - i))") auto

declare copy_loop.simps [simp del]

section \<open>Operations\<close>

definition empty :: "TimeHeap \<Rightarrow> bool" where
  "empty h \<longleftrightarrow> cur_size h = 0"

definition top_timer :: "TimeHeap \<Rightarrow> timer_error + addr option" where
  "top_timer h = (if empty h then Inr None else rd (slots h) 0)"

text \<open>
  The loop of \<open>percolate_down\<close>: \<open>e\<close> is the expiry time of \<open>temp\<close>, \<open>n\<close> is \<open>cur_size\<close>; the answer is
  the array and the final hole. The left-hand child is read in any case, its sibling when it
  exists.
\<close>

function percolate_loop ::
  "store \<Rightarrow> addr option \<Rightarrow> int \<Rightarrow> int \<Rightarrow> addr option list \<Rightarrow> timer_error + addr option list \<times> int" where
  "percolate_loop st temp n hole xs =
     (if 2 ^ 31 \<le> hole * 2 + 1 then Inl Int_overflow
      else if hole * 2 + 1 \<le> n - 1 then
        (let child = hole * 2 + 1 in
         case (if child < n - 1
               then (case read_expire st xs (child + 1) of Inl e \<Rightarrow> Inl e
                     | Inr e2 \<Rightarrow> (case read_expire st xs child of Inl e \<Rightarrow> Inl e
                                 | Inr e1 \<Rightarrow> Inr (if e2 < e1 then child + 1 else child)))
               else Inr child) of
           Inl e \<Rightarrow> Inl e
         | Inr child' \<Rightarrow>
             (case read_expire st xs child' of Inl e \<Rightarrow> Inl e
              | Inr e1 \<Rightarrow>
                  (case deref st temp of Inl e \<Rightarrow> Inl e
                   | Inr t \<Rightarrow>
                       if e1 < expire t then
                         (case rd xs child' of Inl e \<Rightarrow> Inl e
                          | Inr p \<Rightarrow> (case wr xs hole p of Inl e \<Rightarrow> Inl e
                                      | Inr xs' \<Rightarrow> percolate_loop st temp n child' xs'))
                       else Inr (xs, hole))))
      else Inr (xs, hole))"
  by pat_completeness auto

lemma wr_bounds: "wr xs i p = Inr ys \<Longrightarrow> 0 \<le> i"
  by (auto simp: wr_def split: if_splits)

termination percolate_loop
  by (relation "measure (\<lambda>(st, temp, n, hole, xs). nat (n - hole))")
     (auto dest!: wr_bounds split: if_splits sum.splits)

declare percolate_loop.simps [simp del]

definition percolate_down :: "store \<Rightarrow> int \<Rightarrow> TimeHeap \<Rightarrow> timer_error + TimeHeap" where
  "percolate_down st hole h =
     (case rd (slots h) hole of Inl e \<Rightarrow> Inl e
      | Inr temp \<Rightarrow> (case percolate_loop st temp (cur_size h) hole (slots h) of Inl e \<Rightarrow> Inl e
         | Inr (xs, hole') \<Rightarrow> (case wr xs hole' temp of Inl e \<Rightarrow> Inl e
            | Inr ys \<Rightarrow> Inr (h\<lparr>slots := ys\<rparr>))))"

text \<open>\<open>TimeHeap(int cap)\<close>.\<close>

definition new_TimeHeap :: "int \<Rightarrow> timer_error + TimeHeap" where
  "new_TimeHeap cap = (case new_array cap of Inl e \<Rightarrow> Inl e
     | Inr xs \<Rightarrow> Inr \<lparr>slots = xs, capacity = cap, cur_size = 0\<rparr>)"

text \<open>The heapifying loop \<open>for(i = (cur_size-1)/2; i >= 0; i--)\<close> of the second constructor.\<close>

function heapify_loop :: "store \<Rightarrow> int \<Rightarrow> TimeHeap \<Rightarrow> timer_error + TimeHeap" where
  "heapify_loop st i h =
     (if 0 \<le> i then (case percolate_down st i h of Inl e \<Rightarrow> Inl e | Inr h' \<Rightarrow> heapify_loop st (i - 1) h')
      else Inr h)"
  by pat_completeness auto
termination heapify_loop
  by (relation "measure (\<lambda>(st, i, h). nat (i + 1))") auto

declare heapify_loop.simps [simp del]

definition init_TimeHeap :: "store \<Rightarrow> addr option list \<Rightarrow> int \<Rightarrow> int \<Rightarrow> timer_error + TimeHeap" where
  "init_TimeHeap st init_array sz cap =
     (if cap < sz then Inl Size_exception
      else (case new_array cap of Inl e \<Rightarrow> Inl e
        | Inr xs \<Rightarrow>
            if sz \<noteq> 0 then
              (case copy_loop init_array 0 sz xs of Inl e \<Rightarrow> Inl e
               | Inr ys \<Rightarrow> heapify_loop st ((sz - 1) div 2) \<lparr>slots = ys, capacity = cap, cur_size = sz\<rparr>)
            else Inr \<lparr>slots = xs, capacity = cap, cur_size = sz\<rparr>))"

text \<open>The destructor frees the timers in the heap.\<close>

function destroy_loop :: "int \<Rightarrow> TimeHeap \<Rightarrow> store \<Rightarrow> timer_error + store" where
  "destroy_loop i h st =
     (if i < cur_size h then
        (case rd (slots h) i of Inl e \<Rightarrow> Inl e
         | Inr p \<Rightarrow> (case free st p of Inl e \<Rightarrow> Inl e | Inr st' \<Rightarrow> destroy_loop (i + 1) h st'))
      else Inr st)"
  by pat_completeness auto
termination destroy_loop
  by (relation "measure (\<lambda>(i, h, st). nat (cur_size h - i))") auto

declare destroy_loop.simps [simp del]

definition delete_TimeHeap :: "TimeHeap \<Rightarrow> store \<Rightarrow> timer_error + store" where
  "delete_TimeHeap h st = destroy_loop 0 h st"

definition resize_heap :: "TimeHeap \<Rightarrow> timer_error + TimeHeap" where
  "resize_heap h =
     (if 2 ^ 31 \<le> 2 * capacity h then Inl Int_overflow
      else (case new_array (2 * capacity h) of Inl e \<Rightarrow> Inl e
        | Inr temp \<Rightarrow> (case copy_loop (slots h) 0 (cur_size h) temp of Inl e \<Rightarrow> Inl e
           | Inr xs \<Rightarrow> Inr \<lparr>slots = xs, capacity = 2 * capacity h, cur_size = cur_size h\<rparr>)))"

text \<open>The loop of \<open>add_timer\<close> moves later timers down until the new one fits.\<close>

function add_loop :: "store \<Rightarrow> addr option \<Rightarrow> int \<Rightarrow> addr option list \<Rightarrow> timer_error + addr option list \<times> int" where
  "add_loop st timer hole xs =
     (if 0 < hole then
        (let parent = (hole - 1) div 2 in
         case read_expire st xs parent of Inl e \<Rightarrow> Inl e
         | Inr e1 \<Rightarrow> (case deref st timer of Inl e \<Rightarrow> Inl e
            | Inr t \<Rightarrow>
                if e1 \<le> expire t then Inr (xs, hole)
                else (case rd xs parent of Inl e \<Rightarrow> Inl e
                  | Inr p \<Rightarrow> (case wr xs hole p of Inl e \<Rightarrow> Inl e
                      | Inr xs' \<Rightarrow> add_loop st timer parent xs'))))
      else Inr (xs, hole))"
  by pat_completeness auto
termination add_loop
  by (relation "measure (\<lambda>(st, timer, hole, xs). nat hole)") auto

declare add_loop.simps [simp del]

definition add_timer :: "store \<Rightarrow> addr option \<Rightarrow> TimeHeap \<Rightarrow> timer_error + TimeHeap" where
  "add_timer st timer h =
     (if timer = None then Inr h
      else (case (if capacity h \<le> cur_size h then resize_heap h else Inr h) of Inl e \<Rightarrow> Inl e
        | Inr h1 \<Rightarrow>
            (case add_loop st timer (cur_size h1) (slots h1) of Inl e \<Rightarrow> Inl e
             | Inr (xs, hole) \<Rightarrow> (case wr xs hole timer of Inl e \<Rightarrow> Inl e
                | Inr ys \<Rightarrow> Inr (h1\<lparr>slots := ys, cur_size := cur_size h1 + 1\<rparr>)))))"

text \<open>\<open>del_timer\<close> only clears the callback; the timer stays in the heap until it expires.\<close>

definition del_timer :: "store \<Rightarrow> addr option \<Rightarrow> timer_error + store" where
  "del_timer st timer = (case timer of
     None \<Rightarrow> Inr st
   | Some a \<Rightarrow> (case st a of None \<Rightarrow> Inl Dangling | Some t \<Rightarrow> Inr (st(a \<mapsto> t\<lparr>cb_func := None\<rparr>))))"

definition pop_timer :: "store \<Rightarrow> TimeHeap \<Rightarrow> timer_error + store \<times> TimeHeap" where
  "pop_timer st h =
     (if empty h then Inr (st, h)
      else (case rd (slots h) 0 of Inl e \<Rightarrow> Inl e
        | Inr None \<Rightarrow> Inr (st, h)
        | Inr (Some a) \<Rightarrow> (case free st (Some a) of Inl e \<Rightarrow> Inl e
            | Inr st' \<Rightarrow> (case rd (slots h) (cur_size h - 1) of Inl e \<Rightarrow> Inl e
                | Inr p \<Rightarrow> (case wr (slots h) 0 p of Inl e \<Rightarrow> Inl e
                    | Inr xs \<Rightarrow> (case percolate_down st' 0 (h\<lparr>slots := xs, cur_size := cur_size h - 1\<rparr>) of
                        Inl e \<Rightarrow> Inl e | Inr h' \<Rightarrow> Inr (st', h')))))))"

text \<open>
  \<open>tick\<close> at time \<open>cur\<close>: the answer begins with the calls made, each the callback and its
  argument. The callbacks are not part of the repository; they are taken not to touch the
  heap they are called from. Every round but one that leaves the loop removes a timer, so
  \<open>nat (cur_size h) + 1\<close> rounds of fuel are enough.
\<close>

fun tick_loop :: "nat \<Rightarrow> int \<Rightarrow> addr option \<Rightarrow> store \<Rightarrow> TimeHeap \<Rightarrow>
    (timer_error + (nat \<times> nat) list \<times> store \<times> TimeHeap) option" where
  "tick_loop 0 cur tmp st h = None"
| "tick_loop (Suc fuel) cur tmp st h =
     (if empty h then Some (Inr ([], st, h))
      else if tmp = None then Some (Inr ([], st, h))
      else (case deref st tmp of Inl e \<Rightarrow> Some (Inl e)
        | Inr t \<Rightarrow>
            if cur < expire t then Some (Inr ([], st, h))
            else (case rd (slots h) 0 of Inl e \<Rightarrow> Some (Inl e)
              | Inr p0 \<Rightarrow> (case deref st p0 of Inl e \<Rightarrow> Some (Inl e)
                  | Inr t0 \<Rightarrow> (case pop_timer st h of Inl e \<Rightarrow> Some (Inl e)
                      | Inr (st', h') \<Rightarrow> (case rd (slots h') 0 of Inl e \<Rightarrow> Some (Inl e)
                          | Inr tmp' \<Rightarrow> (case tick_loop fuel cur tmp' st' h' of
                              None \<Rightarrow> None
                            | Some (Inl e) \<Rightarrow> Some (Inl e)
                            | Some (Inr (cs, r)) \<Rightarrow>
                                Some (Inr (case cb_func t0 of None \<Rightarrow> (cs, r)
                                   | Some f \<Rightarrow> ((f, user_data t0) # cs, r))))))))))"

definition tick :: "nat \<Rightarrow> int \<Rightarrow> store \<Rightarrow> TimeHeap \<Rightarrow> (timer_error + (nat \<times> nat) list \<times> store \<times> TimeHeap) option" where
  "tick fuel cur st h = (case rd (slots h) 0 of Inl e \<Rightarrow> Some (Inl e)
     | Inr tmp \<Rightarrow> tick_loop fuel cur tmp st h)"

section \<open>Heaps as functions on indices\<close>

definition par :: "nat \<Rightarrow> nat" where
  "par j = (j - 1) div 2"

lemma par_iff: "0 < j \<Longrightarrow> par j = h \<longleftrightarrow> j = 2 * h + 1 \<or> j = 2 * h + 2"
  unfolding par_def by auto

lemma par_less: "0 < j \<Longrightarrow> par j < j"
  unfolding par_def by auto

text \<open>Every parent from index \<open>lo\<close> on is no later than its children below \<open>n\<close>.\<close>

definition heap_on :: "nat \<Rightarrow> nat \<Rightarrow> (nat \<Rightarrow> int) \<Rightarrow> bool" where
  "heap_on lo n K \<longleftrightarrow> (\<forall>j. 0 < j \<and> j < n \<and> lo \<le> par j \<longrightarrow> K (par j) \<le> K j)"

text \<open>The same but for the element at the hole \<open>h\<close>, which may be too late (\<open>down\<close>) or too early (\<open>up\<close>).\<close>

definition down_inv :: "nat \<Rightarrow> nat \<Rightarrow> (nat \<Rightarrow> int) \<Rightarrow> nat \<Rightarrow> bool" where
  "down_inv lo n K h \<longleftrightarrow> lo \<le> h \<and>
     (\<forall>j. 0 < j \<and> j < n \<and> lo \<le> par j \<and> par j \<noteq> h \<longrightarrow> K (par j) \<le> K j) \<and>
     (\<forall>j. 0 < j \<and> j < n \<and> par j = h \<and> 0 < h \<and> lo \<le> par h \<longrightarrow> K (par h) \<le> K j)"

definition up_inv :: "nat \<Rightarrow> (nat \<Rightarrow> int) \<Rightarrow> nat \<Rightarrow> bool" where
  "up_inv n K h \<longleftrightarrow>
     (\<forall>j. 0 < j \<and> j < n \<and> j \<noteq> h \<longrightarrow> K (par j) \<le> K j) \<and>
     (\<forall>j. 0 < j \<and> j < n \<and> par j = h \<and> 0 < h \<longrightarrow> K (par h) \<le> K j)"

lemma down_start: "heap_on (Suc lo) n K \<Longrightarrow> down_inv lo n K lo"
  unfolding heap_on_def down_inv_def by (metis Suc_leI leD le_neq_implies_less order_refl par_less)

lemma down_stop:
  assumes "down_inv lo n K h" and "2 * h + 1 < n \<longrightarrow> K h \<le> K (2 * h + 1)"
    and "2 * h + 2 < n \<longrightarrow> K h \<le> K (2 * h + 2)"
  shows "heap_on lo n K"
  unfolding heap_on_def
proof (intro allI impI)
  fix j assume j: "0 < j \<and> j < n \<and> lo \<le> par j"
  show "K (par j) \<le> K j"
  proof (cases "par j = h")
    case True
    with j have "j = 2 * h + 1 \<or> j = 2 * h + 2" using par_iff by blast
    with True assms(2,3) j show ?thesis by auto
  qed (use assms(1) j in \<open>simp add: down_inv_def\<close>)
qed

lemma down_step:
  assumes inv: "down_inv lo n K h" and c: "par c = h" "0 < c" "c < n"
    and least: "\<And>j. 0 < j \<Longrightarrow> j < n \<Longrightarrow> par j = h \<Longrightarrow> K c \<le> K j"
    and less: "K c < K h"
  shows "down_inv lo n (K(h := K c, c := K h)) c"
proof -
  have hc: "h < c" using c par_less by blast
  let ?K = "K(h := K c, c := K h)"
  have "?K (par j) \<le> ?K j" if j: "0 < j" "j < n" "lo \<le> par j" "par j \<noteq> c" for j
  proof (cases "j = c \<or> j = h \<or> par j = h")
    case True
    then show ?thesis
    proof (elim disjE)
      assume "j = h"
      then have "K (par h) \<le> K c" using inv c j by (auto simp: down_inv_def)
      then show ?thesis using \<open>j = h\<close> hc j par_less [of h] by (auto simp: less)
    qed (use least [of j] j less hc c in auto)
  qed (use inv j in \<open>auto simp: down_inv_def\<close>)
  moreover have "?K (par c) \<le> ?K j" if "0 < j" "j < n" "par j = c" "lo \<le> par c" for j
  proof -
    have "j \<noteq> c" "j \<noteq> h" "par j \<noteq> h" using that hc par_less [of j] by auto
    then show ?thesis using inv that c hc by (auto simp: down_inv_def)
  qed
  moreover have "lo \<le> c" using inv hc by (simp add: down_inv_def)
  ultimately show ?thesis by (simp add: down_inv_def)
qed

lemma up_start: "heap_on 0 n K \<Longrightarrow> \<forall>i<n. K' i = K i \<Longrightarrow> up_inv (Suc n) K' n"
  unfolding heap_on_def up_inv_def by (metis less_SucE less_trans not_less_eq par_less zero_le)

lemma up_stop: "up_inv n K h \<Longrightarrow> 0 < h \<longrightarrow> K (par h) \<le> K h \<Longrightarrow> heap_on 0 n K"
  unfolding heap_on_def up_inv_def by (metis less_nat_zero_code)

lemma up_step:
  assumes inv: "up_inv n K h" and h: "0 < h" "h < n" and less: "K h < K (par h)"
  shows "up_inv n (K(h := K (par h), par h := K h)) (par h)"
proof -
  let ?p = "par h"
  let ?K = "K(h := K ?p, ?p := K h)"
  have ph: "?p < h" using h par_less by blast
  have step: "K (par j) \<le> K j" if "0 < j" "j < n" "j \<noteq> h" for j
    using inv that by (simp add: up_inv_def)
  have "?K (par j) \<le> ?K j" if j: "0 < j" "j < n" "j \<noteq> ?p" for j
  proof (cases "j = h \<or> par j = h")
    case True
    then show ?thesis
    proof
      assume "par j = h"
      then have "K ?p \<le> K j" using inv j h by (auto simp: up_inv_def)
      then show ?thesis using \<open>par j = h\<close> ph j by auto
    qed (use less ph in auto)
  next
    case False
    then show ?thesis using step [of j] j less ph by auto
  qed
  moreover have "?K (par ?p) \<le> ?K j" if j: "0 < j" "j < n" "par j = ?p" "0 < ?p" for j
  proof -
    have pp: "par ?p < ?p" using j par_less by blast
    have up: "K (par ?p) \<le> K ?p" using step [of ?p] j ph h by simp
    show ?thesis
    proof (cases "j = h")
      case False
      then have "K ?p \<le> K j" "j \<noteq> ?p" using step [of j] j par_less [of j] by auto
      then show ?thesis using up pp ph False by auto
    qed (use up pp ph in auto)
  qed
  ultimately show ?thesis by (simp add: up_inv_def)
qed

lemma heap_on_root: "heap_on 0 n K \<Longrightarrow> i < n \<Longrightarrow> K 0 \<le> K i"
proof (induction i rule: less_induct)
  case (less i)
  show ?case
  proof (cases "0 < i")
    case True
    then have "K 0 \<le> K (par i)" using less par_less [of i] by (meson less_trans)
    also have "\<dots> \<le> K i" using less.prems True by (simp add: heap_on_def)
    finally show ?thesis .
  qed simp
qed


section \<open>The array\<close>

definition live :: "store \<Rightarrow> addr option \<Rightarrow> bool" where
  "live st p \<longleftrightarrow> (\<exists>a t. p = Some a \<and> st a = Some t)"

definition key :: "store \<Rightarrow> addr option \<Rightarrow> int" where
  "key st p = expire (the (st (the p)))"

definition keys :: "store \<Rightarrow> addr option list \<Rightarrow> nat \<Rightarrow> int" where
  "keys st xs i = key st (xs ! i)"

lemma rd_nat [simp]: "i < length xs \<Longrightarrow> rd xs (int i) = Inr (xs ! i)"
  by (simp add: rd_def)

lemma wr_nat [simp]: "i < length xs \<Longrightarrow> wr xs (int i) p = Inr (xs[i := p])"
  by (simp add: wr_def)

lemma deref_live: "live st p \<Longrightarrow> \<exists>t. deref st p = Inr t \<and> expire t = key st p"
  by (auto simp: live_def deref_def key_def)

lemma read_expire_nat [simp]:
  "i < length xs \<Longrightarrow> live st (xs ! i) \<Longrightarrow> read_expire st xs (int i) = Inr (keys st xs i)"
  using deref_live [of st "xs ! i"] by (auto simp: read_expire_def keys_def)

lemma keys_swap:
  assumes "h < length xs" "c < length xs" "h \<noteq> c"
  shows "keys st (xs[h := xs ! c, c := p]) =
    (keys st (xs[h := p]))(h := keys st (xs[h := p]) c, c := keys st (xs[h := p]) h)"
  using assms by (auto simp: keys_def fun_eq_iff nth_list_update)

lemma mset_take_swap:
  assumes "h < n" "c < n" "n \<le> length xs" "h \<noteq> c"
  shows "mset (take n (xs[h := xs ! c, c := p])) = mset (take n (xs[h := p]))"
proof -
  let ?v = "take n (xs[h := p])"
  have v: "take n (xs[h := xs ! c, c := p]) = ?v[h := ?v ! c, c := ?v ! h]"
    using assms by (simp add: take_update_swap)
  show ?thesis unfolding v by (rule mset_swap) (use assms in simp_all)
qed

text \<open>What the two loops leave: the element to place, put at the final hole, completes a heap.\<close>

definition settled :: "store \<Rightarrow> nat \<Rightarrow> nat \<Rightarrow> addr option \<Rightarrow> addr option list \<Rightarrow> addr option list \<Rightarrow> nat \<Rightarrow> bool" where
  "settled st lo n p vs ys h \<longleftrightarrow> h < n \<and> length ys = length vs \<and>
     mset (take n (ys[h := p])) = mset (take n vs) \<and> heap_on lo n (keys st (ys[h := p]))"

lemma percolate_step:
  assumes "n \<le> length xs" "n \<le> 2 ^ 30" "h < n" "\<forall>i<n. live st (xs ! i)" "live st temp"
  shows "percolate_loop st temp (int n) (int h) xs =
    (if 2 * h + 1 < n then
       (let c = (if 2 * h + 2 < n \<and> keys st xs (2 * h + 2) < keys st xs (2 * h + 1) then 2 * h + 2 else 2 * h + 1)
        in if keys st xs c < key st temp then percolate_loop st temp (int n) (int c) (xs[h := xs ! c])
           else Inr (xs, int h))
     else Inr (xs, int h))"
proof -
  obtain t where t: "deref st temp = Inr t" "expire t = key st temp" using deref_live assms(5) by blast
  have r: "read_expire st xs (int i) = Inr (keys st xs i)" if "i < n" for i
    using assms that by simp
  have i: "int h * 2 + 1 = int (2 * h + 1)" "int (2 * h + 1) + 1 = int (2 * h + 2)" by simp_all
  have small: "\<not> 2 ^ 31 \<le> int (2 * h + 1)" using assms(2,3) by simp
  show ?thesis
  proof (cases "2 * h + 1 < n")
    case True
    define c where "c = (if 2 * h + 2 < n \<and> keys st xs (2 * h + 2) < keys st xs (2 * h + 1)
      then 2 * h + 2 else 2 * h + 1)"
    have cn: "c < n" using True by (simp add: c_def)
    have s: "(if int (2 * h + 1) < int n - 1
               then (case read_expire st xs (int (2 * h + 2)) of Inl e \<Rightarrow> Inl e
                     | Inr e2 \<Rightarrow> (case read_expire st xs (int (2 * h + 1)) of Inl e \<Rightarrow> Inl e
                                 | Inr e1 \<Rightarrow> Inr (if e2 < e1 then int (2 * h + 2) else int (2 * h + 1))))
               else Inr (int (2 * h + 1))) =
       (Inr (int c) :: timer_error + int)"
      using r [of "2 * h + 1"] r [of "2 * h + 2"] True by (auto simp: c_def)
    have le: "int (2 * h + 1) \<le> int n - 1" using True by simp
    have "percolate_loop st temp (int n) (int h) xs =
      (if keys st xs c < key st temp then percolate_loop st temp (int n) (int c) (xs[h := xs ! c])
       else Inr (xs, int h))"
      by (subst percolate_loop.simps, unfold i Let_def s)
         (use small le cn assms(1,3) t r [of c] in simp)
    then show ?thesis unfolding Let_def c_def [symmetric] using True by simp
  next
    case False
    then have "\<not> int (2 * h + 1) \<le> int n - 1" by simp
    then show ?thesis
      by (subst percolate_loop.simps, unfold i) (use small False in simp)
  qed
qed

lemma live_upd: "\<forall>i<n. live st (xs ! i) \<Longrightarrow> live st p \<Longrightarrow> \<forall>i<n. live st (xs[h := p] ! i)"
  by (metis list_update_beyond not_le nth_list_update_eq nth_list_update_neq)

lemma percolate_loop_ok:
  assumes "n \<le> length xs" "n \<le> 2 ^ 30" "h < n" "\<forall>i<n. live st (xs ! i)" "live st temp"
    and "down_inv lo n (keys st (xs[h := temp])) h"
  shows "\<exists>ys h'. percolate_loop st temp (int n) (int h) xs = Inr (ys, int h') \<and>
    settled st lo n temp (xs[h := temp]) ys h'"
  using assms
proof (induction "n - h" arbitrary: h xs rule: less_induct)
  case less
  let ?K = "keys st (xs[h := temp])"
  define c where "c = (if 2 * h + 2 < n \<and> keys st xs (2 * h + 2) < keys st xs (2 * h + 1)
    then 2 * h + 2 else 2 * h + 1)"
  have step: "percolate_loop st temp (int n) (int h) xs =
    (if 2 * h + 1 < n then if keys st xs c < key st temp
       then percolate_loop st temp (int n) (int c) (xs[h := xs ! c]) else Inr (xs, int h)
     else Inr (xs, int h))"
    using percolate_step [OF less.prems(1-5)] unfolding Let_def c_def .
  have K: "keys st xs i = ?K i" if "i \<noteq> h" for i using that by (simp add: keys_def)
  have Kh: "?K h = key st temp" using less.prems by (simp add: keys_def)
  have here: ?case if "percolate_loop st temp (int n) (int h) xs = Inr (xs, int h)" "heap_on lo n ?K"
    using that less.prems by (auto simp: settled_def)
  show ?case
  proof (cases "2 * h + 1 < n")
    case False
    have "heap_on lo n ?K" by (rule down_stop [OF less.prems(6)]) (use False in auto)
    then show ?thesis using here step False by simp
  next
    case True
    have c: "c < n" "h < c" "0 < c" "par c = h" using True by (auto simp: par_iff c_def)
    have Kc: "keys st xs c = ?K c" using K c by simp
    have least: "?K c \<le> ?K j" if "0 < j" "j < n" "par j = h" for j
    proof -
      have "j = 2 * h + 1 \<or> j = 2 * h + 2" using that par_iff by blast
      then have "keys st xs c \<le> keys st xs j" using that by (auto simp: c_def)
      then show ?thesis unfolding Kc using K [of j] that par_less [of j] by simp
    qed
    show ?thesis
    proof (cases "keys st xs c < key st temp")
      case lt: True
      have step': "percolate_loop st temp (int n) (int h) xs =
          percolate_loop st temp (int n) (int c) (xs[h := xs ! c])"
        using step True lt by simp
      have sw: "keys st (xs[h := xs ! c, c := temp]) = ?K(h := ?K c, c := ?K h)"
        using keys_swap [of h xs c st temp] c less.prems(1,3) by (metis less_le_trans less_not_refl2)
      have lt': "?K c < ?K h" using lt unfolding Kh Kc .
      have inv: "down_inv lo n (keys st (xs[h := xs ! c, c := temp])) c"
        unfolding sw by (rule down_step [OF less.prems(6) c(4,3,1) least lt'])
      have "\<exists>ys h'. percolate_loop st temp (int n) (int c) (xs[h := xs ! c]) = Inr (ys, int h') \<and>
          settled st lo n temp (xs[h := xs ! c, c := temp]) ys h'"
      proof (rule less.hyps)
        show "n - c < n - h" using c less.prems(3) by linarith
        show "\<forall>i<n. live st (xs[h := xs ! c] ! i)" using live_upd less.prems(4) c by simp
      qed (use inv c less.prems in simp_all)
      moreover have "mset (take n (xs[h := xs ! c, c := temp])) = mset (take n (xs[h := temp]))"
        by (rule mset_take_swap) (use c less.prems(1,3) in simp_all)
      ultimately show ?thesis unfolding step' by (auto simp: settled_def)
    next
      case ge: False
      have "percolate_loop st temp (int n) (int h) xs = Inr (xs, int h)"
        using step True ge by simp
      moreover have "heap_on lo n ?K"
      proof (rule down_stop [OF less.prems(6)])
        have "?K h \<le> ?K c" using ge unfolding Kh Kc by simp
        then show "2 * h + 1 < n \<longrightarrow> ?K h \<le> ?K (2 * h + 1)" "2 * h + 2 < n \<longrightarrow> ?K h \<le> ?K (2 * h + 2)"
          using least [of "2 * h + 1"] least [of "2 * h + 2"] by (auto simp: par_iff)
      qed
      ultimately show ?thesis by (rule here)
    qed
  qed
qed


lemma add_step:
  assumes "n \<le> length xs" "h < n" "\<forall>i<h. live st (xs ! i)" "live st timer"
  shows "add_loop st timer (int h) xs =
    (if 0 < h \<and> key st timer < keys st xs (par h) then add_loop st timer (int (par h)) (xs[h := xs ! par h])
     else Inr (xs, int h))"
proof (cases "0 < h")
  case True
  obtain t where t: "deref st timer = Inr t" "expire t = key st timer" using deref_live assms(4) by blast
  have p: "par h < h" "(int h - 1) div 2 = int (par h)"
    using True par_less by (auto simp: par_def zdiv_int of_nat_diff)
  then have r: "read_expire st xs (int (par h)) = Inr (keys st xs (par h))" using assms by simp
  show ?thesis
    by (subst add_loop.simps, unfold p(2)) (use True t r p assms(1,2) in \<open>simp add: Let_def\<close>)
next
  case False
  then show ?thesis by (subst add_loop.simps) simp
qed

lemma add_loop_ok:
  assumes "n \<le> length xs" "h < n" "\<forall>i<h. live st (xs ! i)" "live st timer"
    and "up_inv n (keys st (xs[h := timer])) h"
  shows "\<exists>ys h'. add_loop st timer (int h) xs = Inr (ys, int h') \<and>
    settled st 0 n timer (xs[h := timer]) ys h'"
  using assms
proof (induction h arbitrary: xs rule: less_induct)
  case (less h)
  let ?K = "keys st (xs[h := timer])"
  have Kh: "?K h = key st timer" using less.prems by (simp add: keys_def)
  have Kp: "0 < h \<Longrightarrow> keys st xs (par h) = ?K (par h)" using par_less [of h] by (simp add: keys_def)
  show ?case
  proof (cases "0 < h \<and> key st timer < keys st xs (par h)")
    case True
    then have p: "par h < h" "0 < h" "?K h < ?K (par h)" using par_less Kh Kp by auto
    have step: "add_loop st timer (int h) xs = add_loop st timer (int (par h)) (xs[h := xs ! par h])"
      using add_step [OF less.prems(1-4)] True by simp
    have sw: "keys st (xs[h := xs ! par h, par h := timer]) = ?K(h := ?K (par h), par h := ?K h)"
      by (rule keys_swap) (use p less.prems(1,2) in auto)
    have "\<exists>ys h'. add_loop st timer (int (par h)) (xs[h := xs ! par h]) = Inr (ys, int h') \<and>
        settled st 0 n timer (xs[h := xs ! par h, par h := timer]) ys h'"
    proof (rule less.IH)
      show "up_inv n (keys st (xs[h := xs ! par h, par h := timer])) (par h)"
        unfolding sw by (rule up_step [OF less.prems(5) p(2) less.prems(2) p(3)])
    qed (use p less.prems in auto)
    moreover have "mset (take n (xs[h := xs ! par h, par h := timer])) = mset (take n (xs[h := timer]))"
      by (rule mset_take_swap) (use p less.prems(1,2) in auto)
    ultimately show ?thesis unfolding step by (auto simp: settled_def)
  next
    case False
    then have "add_loop st timer (int h) xs = Inr (xs, int h)"
      using add_step [OF less.prems(1-4)] by (simp only: if_False)
    moreover have "heap_on 0 n ?K"
      by (rule up_stop [OF less.prems(5)]) (use False Kp Kh in auto)
    ultimately show ?thesis using less.prems by (auto simp: settled_def)
  qed
qed

lemma copy_loop_ok:
  "n \<le> length xs \<Longrightarrow> n \<le> length ys \<Longrightarrow> i \<le> n \<Longrightarrow>
   copy_loop xs (int i) (int n) ys = Inr (take i ys @ drop i (take n xs) @ drop n ys)"
proof (induction "n - i" arbitrary: i ys)
  case 0
  then show ?case by (simp add: copy_loop.simps)
next
  case (Suc k)
  have i: "int i + 1 = int (Suc i)" "i < n" using Suc.hyps(2) by simp_all
  have "copy_loop xs (int i) (int n) ys = copy_loop xs (int (Suc i)) (int n) (ys[i := xs ! i])"
    by (subst copy_loop.simps) (use i(2) Suc.prems in \<open>simp add: i(1) del: of_nat_Suc\<close>)
  also have "\<dots> = Inr (take (Suc i) (ys[i := xs ! i]) @ drop (Suc i) (take n xs) @ drop n (ys[i := xs ! i]))"
    using Suc by (intro Suc.hyps(1)) auto
  also have "take (Suc i) (ys[i := xs ! i]) = take i ys @ [xs ! i]"
    using Suc by (simp add: take_Suc_conv_app_nth)
  finally have "copy_loop xs (int i) (int n) ys =
      Inr (take i ys @ (xs ! i # drop (Suc i) (take n xs)) @ drop n (ys[i := xs ! i]))" by simp
  moreover have "xs ! i # drop (Suc i) (take n xs) = drop i (take n xs)"
    using Cons_nth_drop_Suc [of i "take n xs"] i(2) Suc.prems by simp
  ultimately show ?case using i(2) by simp
qed


section \<open>Well-formed heaps\<close>

definition timers :: "TimeHeap \<Rightarrow> addr option list" where
  "timers h = take (nat (cur_size h)) (slots h)"

definition well_formed :: "store \<Rightarrow> TimeHeap \<Rightarrow> bool" where
  "well_formed st h \<longleftrightarrow> 0 \<le> cur_size h \<and> cur_size h \<le> 2 ^ 30 \<and> cur_size h \<le> capacity h \<and>
     capacity h = int (length (slots h)) \<and> (\<forall>p \<in> set (timers h). live st p) \<and> distinct (timers h)"

definition heap_inv :: "store \<Rightarrow> TimeHeap \<Rightarrow> bool" where
  "heap_inv st h \<longleftrightarrow> well_formed st h \<and> heap_on 0 (nat (cur_size h)) (keys st (slots h))"

lemma heap_on_cong: "(\<And>i. i < n \<Longrightarrow> K i = K' i) \<Longrightarrow> heap_on lo n K \<longleftrightarrow> heap_on lo n K'"
  unfolding heap_on_def by (metis less_trans par_less)

lemma live_take: "n \<le> length xs \<Longrightarrow> (\<forall>i<n. live st (xs ! i)) \<longleftrightarrow> (\<forall>p \<in> set (take n xs). live st p)"
  by (simp add: all_set_conv_all_nth)

text \<open>A well-formed heap by its size and array, as naturals.\<close>

lemma well_formedE:
  assumes "well_formed st h"
  obtains n xs where "h = \<lparr>slots = xs, capacity = int (length xs), cur_size = int n\<rparr>"
    "n \<le> length xs" "n \<le> 2 ^ 30" "\<forall>i<n. live st (xs ! i)" "distinct (take n xs)"
proof (rule that [of "slots h" "nat (cur_size h)"])
  show "h = \<lparr>slots = slots h, capacity = int (length (slots h)), cur_size = int (nat (cur_size h))\<rparr>"
    using assms by (cases h) (simp add: well_formed_def)
  show "\<forall>i<nat (cur_size h). live st (slots h ! i)"
    using assms by (simp add: well_formed_def timers_def live_take nat_le_iff)
qed (use assms in \<open>auto simp: well_formed_def timers_def nat_le_iff\<close>)

lemma well_formedI:
  assumes "n \<le> length xs" "n \<le> 2 ^ 30" "\<forall>p \<in> set (take n xs). live st p" "distinct (take n xs)"
  shows "well_formed st \<lparr>slots = xs, capacity = int (length xs), cur_size = int n\<rparr>"
  using assms by (simp add: well_formed_def timers_def)

lemma percolate_down_ok:
  assumes "n \<le> length xs" "n \<le> 2 ^ 30" "\<forall>i<n. live st (xs ! i)" "i < n"
    and "heap_on (Suc i) n (keys st xs)"
  shows "\<exists>ys. percolate_down st (int i) \<lparr>slots = xs, capacity = c, cur_size = int n\<rparr> =
      Inr \<lparr>slots = ys, capacity = c, cur_size = int n\<rparr> \<and>
    length ys = length xs \<and> mset (take n ys) = mset (take n xs) \<and> heap_on i n (keys st ys)"
proof -
  have "down_inv i n (keys st (xs[i := xs ! i])) i" using down_start [OF assms(5)] by simp
  then obtain ys h' where "percolate_loop st (xs ! i) (int n) (int i) xs = Inr (ys, int h')"
      "settled st i n (xs ! i) xs ys h'"
    using percolate_loop_ok [of n xs i st "xs ! i" i] assms by auto
  then show ?thesis using assms(1,4) by (auto simp: percolate_down_def settled_def)
qed

lemma heapify_loop_ok:
  assumes "n \<le> length xs" "n \<le> 2 ^ 30" "\<forall>i<n. live st (xs ! i)" "k \<le> n"
    and "heap_on k n (keys st xs)"
  shows "\<exists>ys. heapify_loop st (int k - 1) \<lparr>slots = xs, capacity = c, cur_size = int n\<rparr> =
      Inr \<lparr>slots = ys, capacity = c, cur_size = int n\<rparr> \<and>
    length ys = length xs \<and> mset (take n ys) = mset (take n xs) \<and> heap_on 0 n (keys st ys)"
  using assms
proof (induction k arbitrary: xs)
  case 0
  then show ?case by (simp add: heapify_loop.simps)
next
  case (Suc k)
  obtain ys where ys: "percolate_down st (int k) \<lparr>slots = xs, capacity = c, cur_size = int n\<rparr> =
      Inr \<lparr>slots = ys, capacity = c, cur_size = int n\<rparr>"
    "length ys = length xs" "mset (take n ys) = mset (take n xs)" "heap_on k n (keys st ys)"
    using percolate_down_ok [of n xs st k c] Suc.prems by auto
  have "set (take n ys) = set (take n xs)" using ys(3) by (rule mset_eq_setD)
  then have "\<forall>i<n. live st (ys ! i)"
    using Suc.prems(1,3) ys(2) by (simp add: live_take)
  then show ?case
    using Suc.IH [of ys] ys Suc.prems by (subst heapify_loop.simps) simp
qed

text \<open>The last index with a child is \<open>par (n - 1)\<close>, so a heap from \<open>(n - 1) div 2 + 1\<close> on is nothing to show.\<close>

lemma heap_on_leaves: "heap_on (Suc ((n - 1) div 2)) n K"
proof -
  have "par j \<le> (n - 1) div 2" if "j < n" for j
    using that unfolding par_def by (intro div_le_mono) simp
  then show ?thesis unfolding heap_on_def by fastforce
qed

lemma init_TimeHeap_ok:
  assumes "n \<le> length init" "n \<le> 2 ^ 30" "int n \<le> c" "\<forall>i<n. live st (init ! i)" "distinct (take n init)"
  shows "\<exists>h. init_TimeHeap st init (int n) c = Inr h \<and> heap_inv st h \<and>
    mset (timers h) = mset (take n init) \<and> capacity h = c"
proof -
  define xs where "xs = take n init @ drop n (replicate (nat c) None)"
  have len: "length xs = nat c" using assms by (simp add: xs_def)
  have tk: "take n xs = take n init" using assms by (simp add: xs_def)
  have lv: "\<forall>i<n. live st (xs ! i)" using assms by (simp add: xs_def nth_append)
  show ?thesis
  proof (cases "n = 0")
    case True
    then show ?thesis using assms
      by (auto simp: init_TimeHeap_def new_array_def heap_inv_def well_formed_def timers_def heap_on_def)
  next
    case False
    have k: "(int n - 1) div 2 = int (Suc ((n - 1) div 2)) - 1"
      using False by (simp add: zdiv_int of_nat_diff)
    have small: "Suc ((n - 1) div 2) \<le> n" using False by simp
    obtain ys where "heapify_loop st ((int n - 1) div 2) \<lparr>slots = xs, capacity = c, cur_size = int n\<rparr> =
        Inr \<lparr>slots = ys, capacity = c, cur_size = int n\<rparr>"
      and ys: "length ys = nat c" "mset (take n ys) = mset (take n init)" "heap_on 0 n (keys st ys)"
      using heapify_loop_ok [of n xs st "Suc ((n - 1) div 2)" c, OF _ assms(2) lv _ heap_on_leaves] len tk
        small assms(3) unfolding k by (auto simp: le_nat_iff)
    moreover have "copy_loop init 0 (int n) (replicate (nat c) None) = Inr xs"
      using copy_loop_ok [of n init "replicate (nat c) None" 0] assms by (simp add: xs_def)
    ultimately have init: "init_TimeHeap st init (int n) c = Inr \<lparr>slots = ys, capacity = c, cur_size = int n\<rparr>"
      using assms False by (simp add: init_TimeHeap_def new_array_def)
    have c: "c = int (length ys)" using ys(1) assms(3) by simp
    have "well_formed st \<lparr>slots = ys, capacity = c, cur_size = int n\<rparr>"
      unfolding c using ys(1) assms mset_eq_setD [OF ys(2)] mset_eq_imp_distinct_iff [OF ys(2)]
      by (intro well_formedI) (simp_all add: live_take)
    then show ?thesis using init ys by (simp add: heap_inv_def timers_def)
  qed
qed

section \<open>Adding a timer\<close>

lemma resize_heap_ok:
  assumes "n \<le> length xs" "0 < length xs" "length xs < 2 ^ 30"
  shows "resize_heap \<lparr>slots = xs, capacity = int (length xs), cur_size = int n\<rparr> =
    Inr \<lparr>slots = take n xs @ replicate (2 * length xs - n) None,
      capacity = int (2 * length xs), cur_size = int n\<rparr>"
  using assms copy_loop_ok [of n xs "replicate (2 * length xs) None" 0]
  by (simp add: resize_heap_def new_array_def nat_mult_distrib)

lemma well_formed_ext:
  assumes "n \<le> length xs" "n \<le> 2 ^ 30" "\<forall>i<n. live st (xs ! i)" "distinct (take n xs)"
    and "live st p" "p \<notin> set (take n xs)" "n < length ys" "n < 2 ^ 30"
    and "mset (take (Suc n) ys) = add_mset p (mset (take n xs))"
  shows "well_formed st \<lparr>slots = ys, capacity = int (length ys), cur_size = int (Suc n)\<rparr>"
proof (rule well_formedI)
  have m: "mset (take (Suc n) ys) = mset (p # take n xs)" using assms(9) by simp
  show "\<forall>q \<in> set (take (Suc n) ys). live st q"
    using mset_eq_setD [OF m] assms(1,3,5) by (simp add: live_take)
  show "distinct (take (Suc n) ys)" using mset_eq_imp_distinct_iff [OF m] assms(4,6) by simp
qed (use assms in simp_all)

text \<open>Adding to a heap whose array has room for one more.\<close>

lemma add_room:
  assumes "n < length xs" "n < 2 ^ 30" "\<forall>i<n. live st (xs ! i)" "distinct (take n xs)"
    and "heap_on 0 n (keys st xs)" "live st p" "p \<notin> set (take n xs)"
  shows "\<exists>ys hole. add_loop st p (int n) xs = Inr (ys, hole) \<and>
    (\<exists>zs. wr ys hole p = Inr zs \<and> length zs = length xs \<and>
     mset (take (Suc n) zs) = add_mset p (mset (take n xs)) \<and>
     heap_inv st \<lparr>slots = zs, capacity = int (length zs), cur_size = int (Suc n)\<rparr>)"
proof -
  have "up_inv (Suc n) (keys st (xs[n := p])) n"
    by (rule up_start [OF assms(5)]) (simp add: keys_def)
  then obtain ys h' where ys: "add_loop st p (int n) xs = Inr (ys, int h')"
      "settled st 0 (Suc n) p (xs[n := p]) ys h'"
    using add_loop_ok [of "Suc n" xs n st p] assms(1,3,6) by auto
  have m: "mset (take (Suc n) (ys[h' := p])) = add_mset p (mset (take n xs))"
  proof -
    have "take (Suc n) (xs[n := p]) = take n xs @ [p]" using assms(1) by (simp add: take_Suc_conv_app_nth)
    then have "mset (take (Suc n) (xs[n := p])) = add_mset p (mset (take n xs))" by simp
    then show ?thesis using ys(2) unfolding settled_def by (metis (no_types))
  qed
  have len: "length (ys[h' := p]) = length xs" and h: "h' < length ys"
    using ys(2) assms(1) by (auto simp: settled_def)
  have "well_formed st \<lparr>slots = ys[h' := p], capacity = int (length (ys[h' := p])), cur_size = int (Suc n)\<rparr>"
    by (rule well_formed_ext [of n xs]) (use assms m len in auto)
  then have "heap_inv st \<lparr>slots = ys[h' := p], capacity = int (length (ys[h' := p])), cur_size = int (Suc n)\<rparr>"
    using ys(2) by (simp add: heap_inv_def settled_def nat_add_distrib)
  then show ?thesis using ys(1) m len h by fastforce
qed

lemma add_timer_ok:
  assumes inv: "heap_inv st h" and "st a = Some t" "Some a \<notin> set (timers h)"
    and "0 < capacity h" "cur_size h < 2 ^ 30"
  shows "\<exists>h'. add_timer st (Some a) h = Inr h' \<and> heap_inv st h' \<and>
    mset (timers h') = add_mset (Some a) (mset (timers h)) \<and>
    capacity h' = (if cur_size h = capacity h then 2 * capacity h else capacity h)"
proof -
  have "well_formed st h" using inv by (simp add: heap_inv_def)
  then obtain n xs where h: "h = \<lparr>slots = xs, capacity = int (length xs), cur_size = int n\<rparr>"
    and n: "n \<le> length xs" "n \<le> 2 ^ 30" "\<forall>i<n. live st (xs ! i)" "distinct (take n xs)"
    by (rule well_formedE)
  have heap: "heap_on 0 n (keys st xs)" using inv h by (simp add: heap_inv_def)
  have lv: "live st (Some a)" using assms(2) by (simp add: live_def)
  define zs where "zs = (if n = length xs then take n xs @ replicate (2 * length xs - n) None else xs)"
  have r: "(if capacity h \<le> cur_size h then resize_heap h else Inr h) =
      Inr \<lparr>slots = zs, capacity = int (length zs), cur_size = int n\<rparr>"
    using resize_heap_ok [of n xs] n assms(4,5) by (auto simp: h zs_def)
  have z: "n < length zs" "take n zs = take n xs" "\<forall>i<n. zs ! i = xs ! i"
    using n assms(4) by (auto simp: h zs_def nth_append)
  have heap': "heap_on 0 n (keys st zs)"
    using heap heap_on_cong [of n "keys st zs" "keys st xs" 0] z(3) by (simp add: keys_def)
  obtain ys hole ws where "add_loop st (Some a) (int n) zs = Inr (ys, hole)"
      "wr ys hole (Some a) = Inr ws" "length ws = length zs"
      "mset (take (Suc n) ws) = add_mset (Some a) (mset (take n zs))"
      "heap_inv st \<lparr>slots = ws, capacity = int (length ws), cur_size = int (Suc n)\<rparr>"
    using add_room [of n zs st "Some a"] z n heap' lv assms(3,5) by (auto simp: h timers_def)
  moreover have "length zs = (if n = length xs then 2 * length xs else length xs)"
    using n by (simp add: zs_def)
  ultimately show ?thesis
    unfolding add_timer_def r using z by (auto simp: h timers_def nat_add_distrib add.commute)
qed

section \<open>Removing the first timer\<close>

lemma mset_pop:
  assumes "n < length xs"
  shows "mset (take (Suc n) xs) = add_mset (xs ! 0) (mset (take n (xs[0 := xs ! n])))"
proof (cases "n = 0")
  case False
  then have "mset (take n (xs[0 := xs ! n])) = add_mset (xs ! n) (mset (take n xs) - {#xs ! 0#})"
    using assms mset_upd_swap [of 0 "take n xs" "xs ! n"] by (simp add: take_update_swap)
  moreover have "xs ! 0 \<in># mset (take n xs)"
    using False assms by (metis gr_zeroI length_take min.absorb2 nat_less_le nth_mem_mset nth_take)
  ultimately show ?thesis using assms by (simp add: take_Suc_conv_app_nth)
qed (use assms in \<open>simp add: take_Suc_conv_app_nth\<close>)

lemma key_other: "p \<noteq> Some a \<Longrightarrow> live st p \<Longrightarrow> key (st(a := None)) p = key st p \<and> live (st(a := None)) p"
  by (auto simp: key_def live_def)

lemma pop_timer_ok:
  assumes inv: "heap_inv st h" and "cur_size h \<noteq> 0"
  shows "\<exists>a t h'. slots h ! 0 = Some a \<and> st a = Some t \<and> pop_timer st h = Inr (st(a := None), h') \<and>
    heap_inv (st(a := None)) h' \<and> mset (timers h) = add_mset (Some a) (mset (timers h')) \<and>
    capacity h' = capacity h \<and> cur_size h' = cur_size h - 1"
proof -
  have "well_formed st h" using inv by (simp add: heap_inv_def)
  then obtain k xs where h: "h = \<lparr>slots = xs, capacity = int (length xs), cur_size = int k\<rparr>"
    and k: "k \<le> length xs" "k \<le> 2 ^ 30" "\<forall>i<k. live st (xs ! i)" "distinct (take k xs)"
    by (rule well_formedE)
  obtain n where n: "k = Suc n" using assms(2) h by (cases k) auto
  have heap: "heap_on 0 (Suc n) (keys st xs)" using inv h n by (simp add: heap_inv_def del: of_nat_Suc)
  obtain a t where a: "xs ! 0 = Some a" "st a = Some t" using k(3) n by (auto simp: live_def)
  let ?st = "st(a := None)" and ?xs = "xs[0 := xs ! n]"
  let ?h = "\<lparr>slots = ?xs, capacity = int (length xs), cur_size = int n\<rparr>"
  have neq: "xs ! i \<noteq> Some a" if "0 < i" "i < k" for i
    using k(1,4) that a(1) n nth_eq_iff_index_eq [of "take k xs" i 0] by auto
  have lv: "\<forall>i<n. live ?st (?xs ! i)"
  proof (intro allI impI)
    fix i assume i: "i < n"
    define j where "j = (if i = 0 then n else i)"
    have "?xs ! i = xs ! j" "0 < j" "j < k" using i k n by (cases xs; auto simp: j_def)+
    then show "live ?st (?xs ! i)" using key_other [OF neq [of j]] k(3) by simp
  qed
  have m: "mset (take (Suc n) xs) = add_mset (Some a) (mset (take n ?xs))"
    using mset_pop [of n xs] k n a by simp
  have dist: "distinct (take n ?xs)"
  proof -
    have "mset (take (Suc n) xs) = mset (Some a # take n ?xs)" using m by simp
    from mset_eq_imp_distinct_iff [OF this] show ?thesis using k n by simp
  qed
  have heap1: "heap_on (Suc 0) n (keys ?st ?xs)"
  proof -
    have ks: "keys ?st ?xs i = keys st xs i" if "0 < i" "i < n" for i
      using that key_other neq k n by (simp add: keys_def)
    show ?thesis unfolding heap_on_def
    proof (intro allI impI)
      fix j assume j: "0 < j \<and> j < n \<and> Suc 0 \<le> par j"
      then have "keys st xs (par j) \<le> keys st xs j" using heap by (simp add: heap_on_def)
      then show "keys ?st ?xs (par j) \<le> keys ?st ?xs j"
        using ks [of j] ks [of "par j"] par_less [of j] j by simp
    qed
  qed
  have "\<exists>ys. percolate_down ?st 0 ?h = Inr \<lparr>slots = ys, capacity = int (length xs), cur_size = int n\<rparr> \<and>
      length ys = length xs \<and> mset (take n ys) = mset (take n ?xs) \<and> heap_on 0 n (keys ?st ys)"
  proof (cases "n = 0")
    case True
    then have "percolate_down ?st 0 ?h = Inr ?h"
      using k n by (cases xs) (simp_all add: percolate_down_def percolate_loop.simps rd_def wr_def)
    then show ?thesis using True by (simp add: heap_on_def)
  next
    case False
    then show ?thesis using percolate_down_ok [of n ?xs ?st 0 "int (length xs)"] lv heap1 k n by simp
  qed
  then obtain ys where ys: "percolate_down ?st 0 ?h = Inr \<lparr>slots = ys, capacity = int (length xs), cur_size = int n\<rparr>"
    "length ys = length xs" "mset (take n ys) = mset (take n ?xs)" "heap_on 0 n (keys ?st ys)" by blast
  have "well_formed ?st \<lparr>slots = ys, capacity = int (length ys), cur_size = int n\<rparr>"
    using lv k n ys(2) dist mset_eq_setD [OF ys(3)] mset_eq_imp_distinct_iff [OF ys(3)]
    by (intro well_formedI) (simp_all add: live_take)
  then have "heap_inv ?st \<lparr>slots = ys, capacity = int (length xs), cur_size = int n\<rparr>"
    using ys by (simp add: heap_inv_def)
  moreover have "pop_timer st h = Inr (?st, \<lparr>slots = ys, capacity = int (length xs), cur_size = int n\<rparr>)"
    using a ys(1) k n by (cases xs) (simp_all add: pop_timer_def h empty_def rd_def wr_def free_def)
  ultimately show ?thesis using a m ys(3) by (auto simp: h timers_def n nat_add_distrib)
qed


section \<open>The queue a client sees\<close>

text \<open>
  What \<open>tick\<close> asks of a queue of timers: the first item is a least one, and removing it
  leaves the others. Draining such a queue up to a time yields the items due, in order.
\<close>

fun drain :: "('q \<Rightarrow> 'q option) \<Rightarrow> ('q \<Rightarrow> 'a option) \<Rightarrow> ('a \<Rightarrow> int) \<Rightarrow> int \<Rightarrow> nat \<Rightarrow> 'q \<Rightarrow> ('a list \<times> 'q) option" where
  "drain pop peek prio cur 0 q = None"
| "drain pop peek prio cur (Suc fuel) q =
     (case peek q of None \<Rightarrow> Some ([], q)
      | Some x \<Rightarrow> if cur < prio x then Some ([], q)
          else (case pop q of None \<Rightarrow> None
            | Some q' \<Rightarrow> map_option (\<lambda>(xs, r). (x # xs, r)) (drain pop peek prio cur fuel q')))"

locale timer_queue =
  fixes pop :: "'q \<Rightarrow> 'q option" and peek :: "'q \<Rightarrow> 'a option" and ins :: "'a \<Rightarrow> 'q \<Rightarrow> 'q option"
    and items :: "'q \<Rightarrow> 'a multiset" and prio :: "'a \<Rightarrow> int"
    and invar :: "'q \<Rightarrow> bool" and room :: "'a \<Rightarrow> 'q \<Rightarrow> bool"
  assumes peek_none: "invar q \<Longrightarrow> peek q = None \<longleftrightarrow> items q = {#}"
    and peek_least: "invar q \<Longrightarrow> peek q = Some x \<Longrightarrow> y \<in># items q \<Longrightarrow> prio x \<le> prio y"
    and pop_items: "invar q \<Longrightarrow> peek q = Some x \<Longrightarrow>
      \<exists>q'. pop q = Some q' \<and> invar q' \<and> items q = add_mset x (items q')"
    and ins_items: "invar q \<Longrightarrow> room x q \<Longrightarrow>
      \<exists>q'. ins x q = Some q' \<and> invar q' \<and> items q' = add_mset x (items q)"
begin

lemma drain_due:
  "invar q \<Longrightarrow> size (items q) < fuel \<Longrightarrow>
   \<exists>xs r. drain pop peek prio cur fuel q = Some (xs, r) \<and> invar r \<and> sorted (map prio xs) \<and>
     mset xs = filter_mset (\<lambda>x. prio x \<le> cur) (items q) \<and>
     items r = filter_mset (\<lambda>x. cur < prio x) (items q)"
proof (induction fuel arbitrary: q)
  case (Suc fuel)
  show ?case
  proof (cases "peek q")
    case None
    then show ?thesis using peek_none [OF Suc.prems(1)] Suc.prems(1) by simp
  next
    case (Some x)
    show ?thesis
    proof (cases "cur < prio x")
      case True
      then have "\<forall>y \<in># items q. cur < prio y"
        using peek_least [OF Suc.prems(1) Some] by force
      then have "filter_mset (\<lambda>x. prio x \<le> cur) (items q) = {#}"
        and "filter_mset (\<lambda>x. cur < prio x) (items q) = items q"
        by (auto intro!: multiset_eqI simp: not_in_iff)
      then show ?thesis using True Some Suc.prems(1) by simp
    next
      case False
      obtain q' where q': "pop q = Some q'" "invar q'" "items q = add_mset x (items q')"
        using pop_items [OF Suc.prems(1) Some] by blast
      then obtain xs r where r: "drain pop peek prio cur fuel q' = Some (xs, r)" "invar r"
          "sorted (map prio xs)" "mset xs = filter_mset (\<lambda>x. prio x \<le> cur) (items q')"
          "items r = filter_mset (\<lambda>x. cur < prio x) (items q')"
        using Suc.IH [of q'] Suc.prems(2) by auto
      have "\<forall>y \<in> set xs. prio x \<le> prio y"
      proof -
        have "set xs = set_mset (filter_mset (\<lambda>x. prio x \<le> cur) (items q'))"
          using r(4) by (metis set_mset_mset)
        then show ?thesis using peek_least [OF Suc.prems(1) Some] q'(3) by auto
      qed
      then show ?thesis using False Some q' r by auto
    qed
  qed
qed simp

end

type_synonym queue = "store \<times> TimeHeap"

fun heap_pop :: "queue \<Rightarrow> queue option" where
  "heap_pop (st, h) = (case pop_timer st h of Inl e \<Rightarrow> None | Inr q \<Rightarrow> Some q)"

fun heap_peek :: "queue \<Rightarrow> (addr \<times> HeapTimer) option" where
  "heap_peek (st, h) = (case top_timer h of
     Inr (Some a) \<Rightarrow> map_option (Pair a) (st a)
   | _ \<Rightarrow> None)"

fun heap_ins :: "addr \<times> HeapTimer \<Rightarrow> queue \<Rightarrow> queue option" where
  "heap_ins (a, t) (st, h) = (case add_timer st (Some a) h of Inl e \<Rightarrow> None | Inr h' \<Rightarrow> Some (st, h'))"

definition item :: "store \<Rightarrow> addr option \<Rightarrow> addr \<times> HeapTimer" where
  "item st p = (the p, the (st (the p)))"

fun heap_items :: "queue \<Rightarrow> (addr \<times> HeapTimer) multiset" where
  "heap_items (st, h) = image_mset (item st) (mset (timers h))"

definition due :: "addr \<times> HeapTimer \<Rightarrow> int" where
  "due x = expire (snd x)"

fun heap_ok :: "queue \<Rightarrow> bool" where
  "heap_ok (st, h) = heap_inv st h"

fun heap_room :: "addr \<times> HeapTimer \<Rightarrow> queue \<Rightarrow> bool" where
  "heap_room (a, t) (st, h) \<longleftrightarrow> st a = Some t \<and> Some a \<notin> set (timers h) \<and>
     0 < capacity h \<and> cur_size h < 2 ^ 30"

lemma heap_inv_first:
  assumes "heap_inv st h" "cur_size h \<noteq> 0"
  shows "\<exists>a t. slots h ! 0 = Some a \<and> st a = Some t \<and> top_timer h = Inr (Some a) \<and> Some a \<in> set (timers h)"
proof -
  obtain a t where a: "slots h ! 0 = Some a" "st a = Some t" using pop_timer_ok [OF assms] by blast
  have "0 < length (timers h)" "timers h ! 0 = Some a" "slots h \<noteq> []"
    using assms a by (auto simp: heap_inv_def well_formed_def timers_def)
  then show ?thesis using a assms by (auto simp: top_timer_def empty_def rd_def in_set_conv_nth)
qed

lemma heap_peek_empty: "heap_inv st h \<Longrightarrow> heap_peek (st, h) = None \<longleftrightarrow> cur_size h = 0"
  using heap_inv_first [of st h] by (auto simp: top_timer_def empty_def)

lemma heap_first_least:
  assumes inv: "heap_inv st h" and "p \<in> set (timers h)" and "slots h ! 0 = Some a"
  shows "key st (Some a) \<le> key st p"
proof -
  obtain i where i: "i < nat (cur_size h)" "p = slots h ! i"
    using assms by (auto simp: timers_def in_set_conv_nth)
  then show ?thesis
    using heap_on_root [of "nat (cur_size h)" "keys st (slots h)" i] inv assms(3)
    by (simp add: heap_inv_def keys_def)
qed

lemma item_other: "Some a \<notin> set ps \<Longrightarrow> \<forall>p \<in> set ps. live st p \<Longrightarrow>
  image_mset (item (st(a := None))) (mset ps) = image_mset (item st) (mset ps)"
  by (rule image_mset_cong) (auto simp: item_def live_def)

lemma heap_items_pop:
  assumes inv: "heap_inv st h" and "cur_size h \<noteq> 0"
  shows "\<exists>a t h'. heap_peek (st, h) = Some (a, t) \<and> pop_timer st h = Inr (st(a := None), h') \<and>
    heap_inv (st(a := None)) h' \<and> heap_items (st, h) = add_mset (a, t) (heap_items (st(a := None), h')) \<and>
    capacity h' = capacity h \<and> cur_size h' = cur_size h - 1 \<and> slots h ! 0 = Some a \<and> st a = Some t"
proof -
  obtain a t h' where p: "slots h ! 0 = Some a" "st a = Some t" "pop_timer st h = Inr (st(a := None), h')"
    "heap_inv (st(a := None)) h'" "mset (timers h) = add_mset (Some a) (mset (timers h'))"
    "capacity h' = capacity h" "cur_size h' = cur_size h - 1"
    using pop_timer_ok [OF assms] by blast
  have peek: "heap_peek (st, h) = Some (a, t)"
    using heap_inv_first [OF assms] p(1,2) by auto
  have mem: "set (timers h) = insert (Some a) (set (timers h'))"
    using p(5) by (metis set_mset_add_mset_insert set_mset_mset)
  have "distinct (timers h)" using inv by (simp add: heap_inv_def well_formed_def)
  then have "Some a \<notin> set (timers h')"
    using p(5) by (metis distinct.simps(2) mset.simps(2) mset_eq_imp_distinct_iff)
  moreover have "\<forall>p \<in> set (timers h'). live st p"
    using inv mem by (simp add: heap_inv_def well_formed_def)
  ultimately have "heap_items (st, h) = add_mset (a, t) (heap_items (st(a := None), h'))"
    using p(2,5) item_other by (simp add: item_def)
  then show ?thesis using p peek by blast
qed

interpretation timer_heap: timer_queue heap_pop heap_peek heap_ins heap_items due heap_ok heap_room
proof
  fix q :: queue and x y
  obtain st h where q: "q = (st, h)" by (cases q)
  assume "heap_ok q"
  then have inv: "heap_inv st h" by (simp add: q)
  have len: "length (timers h) = nat (cur_size h)" "0 \<le> cur_size h"
    using inv by (auto simp: heap_inv_def well_formed_def timers_def)
  show "heap_peek q = None \<longleftrightarrow> heap_items q = {#}"
    using heap_peek_empty [OF inv] len by (auto simp: q simp del: heap_peek.simps)
  show "\<exists>q'. heap_ins x q = Some q' \<and> heap_ok q' \<and> heap_items q' = add_mset x (heap_items q)"
    if "heap_room x q"
  proof -
    obtain a t where x: "x = (a, t)" by (cases x)
    have "st a = Some t" "Some a \<notin> set (timers h)" "0 < capacity h" "cur_size h < 2 ^ 30"
      using that by (simp_all add: x q)
    from add_timer_ok [OF inv this] show ?thesis using that by (auto simp: x q item_def)
  qed
  assume px: "heap_peek q = Some x"
  then have ne: "cur_size h \<noteq> 0" using heap_peek_empty [OF inv] q by force
  show "\<exists>q'. heap_pop q = Some q' \<and> heap_ok q' \<and> heap_items q = add_mset x (heap_items q')"
    using heap_items_pop [OF inv ne] px unfolding q by (auto simp del: heap_peek.simps heap_items.simps)
  show "due x \<le> due y" if y: "y \<in># heap_items q"
  proof -
    obtain a t where a: "slots h ! 0 = Some a" "st a = Some t" "x = (a, t)"
      using heap_items_pop [OF inv ne] px unfolding q by (auto simp del: heap_peek.simps heap_items.simps)
    obtain p where "p \<in> set (timers h)" "y = item st p" using y by (auto simp: q)
    then show ?thesis using heap_first_least [OF inv _ a(1)] a by (auto simp: due_def key_def item_def)
  qed
qed


section \<open>Ticking\<close>

definition fired :: "addr \<times> HeapTimer \<Rightarrow> (nat \<times> nat) list" where
  "fired x = (case cb_func (snd x) of None \<Rightarrow> [] | Some f \<Rightarrow> [(f, user_data (snd x))])"

lemma pop_slots: "heap_inv st h \<Longrightarrow> cur_size h \<noteq> 0 \<Longrightarrow> 0 < length (slots h)"
  by (auto simp: heap_inv_def well_formed_def)

lemma heap_inv_length: "heap_inv st h \<Longrightarrow> capacity h = int (length (slots h))"
  by (simp add: heap_inv_def well_formed_def)

text \<open>The loop of \<open>tick\<close> is the draining of the queue the heap implements.\<close>

lemma tick_loop_drain:
  "heap_inv st h \<Longrightarrow> 0 < capacity h \<Longrightarrow> cur_size h \<noteq> 0 \<longrightarrow> tmp = slots h ! 0 \<Longrightarrow>
   tick_loop fuel cur tmp st h =
     map_option (\<lambda>(xs, r). Inr (concat (map fired xs), r)) (drain heap_pop heap_peek due cur fuel (st, h))"
proof (induction fuel arbitrary: tmp st h)
  case (Suc fuel)
  show ?case
  proof (cases "cur_size h = 0")
    case True
    then show ?thesis using heap_peek_empty [OF Suc.prems(1)] by (simp add: empty_def del: heap_peek.simps)
  next
    case False
    obtain a t h' where p: "heap_peek (st, h) = Some (a, t)" "pop_timer st h = Inr (st(a := None), h')"
        "heap_inv (st(a := None)) h'" "capacity h' = capacity h" "slots h ! 0 = Some a" "st a = Some t"
      using heap_items_pop [OF Suc.prems(1) False] by blast
    have tmp: "tmp = Some a" using Suc.prems(3) False p(5) by simp
    have r0: "rd (slots h) 0 = Inr (Some a)"
      using pop_slots [OF Suc.prems(1) False] p(5) by (simp add: rd_def)
    have r1: "rd (slots h') 0 = Inr (slots h' ! 0)"
      using heap_inv_length [OF p(3)] p(4) Suc.prems(2) by (simp add: rd_def)
    have d: "deref st (Some a) = Inr t" using p(6) by (simp add: deref_def)
    have IH: "tick_loop fuel cur (slots h' ! 0) (st(a := None)) h' =
        map_option (\<lambda>(xs, r). Inr (concat (map fired xs), r))
          (drain heap_pop heap_peek due cur fuel (st(a := None), h'))"
      by (rule Suc.IH) (use p(3,4) Suc.prems(2) in \<open>simp_all del: fun_upd_apply\<close>)
    show ?thesis
      using False p(1,2) tmp r0 r1 d
      by (simp add: IH empty_def due_def [of "(a, t)"] fired_def [of "(a, t)"] option.map_comp o_def split_beta
          del: heap_peek.simps split: option.splits)
  qed
qed simp

lemma size_items: "heap_inv st h \<Longrightarrow> size (heap_items (st, h)) = nat (cur_size h)"
  by (auto simp: heap_inv_def well_formed_def timers_def)

text \<open>What the draining leaves of the memory: the timers it took out are freed, no other.\<close>

lemma drain_store:
  "heap_inv st h \<Longrightarrow> drain heap_pop heap_peek due cur fuel (st, h) = Some (xs, st', h') \<Longrightarrow>
   st' = st |` (- fst ` set xs)"
proof (induction fuel arbitrary: st h xs)
  case (Suc fuel)
  show ?case
  proof (cases "cur_size h = 0")
    case True
    then show ?thesis using heap_peek_empty [OF Suc.prems(1)] Suc.prems(2) by (simp del: heap_peek.simps)
  next
    case False
    obtain a t g where p: "heap_peek (st, h) = Some (a, t)" "pop_timer st h = Inr (st(a := None), g)"
        "heap_inv (st(a := None)) g"
      using heap_items_pop [OF Suc.prems(1) False] by blast
    show ?thesis
    proof (cases "cur < due (a, t)")
      case True
      then show ?thesis using Suc.prems(2) p by (simp del: heap_peek.simps)
    next
      case False
      obtain ys where ys: "drain heap_pop heap_peek due cur fuel (st(a := None), g) = Some (ys, st', h')" "xs = (a, t) # ys"
        using Suc.prems(2) p False by (auto simp del: heap_peek.simps)
      show ?thesis using Suc.IH [OF p(3) ys(1)] by (auto simp: ys(2) restrict_map_def fun_eq_iff)
    qed
  qed
qed simp

lemma tick_run:
  assumes "heap_inv st h" "0 < capacity h" "nat (cur_size h) < fuel"
  shows "\<exists>xs st' h'. tick fuel cur st h = Some (Inr (concat (map fired xs), st', h')) \<and>
    heap_inv st' h' \<and> sorted (map due xs) \<and>
    mset xs = filter_mset (\<lambda>x. due x \<le> cur) (heap_items (st, h)) \<and>
    heap_items (st', h') = filter_mset (\<lambda>x. cur < due x) (heap_items (st, h)) \<and> st' = st |` (- fst ` set xs)"
proof -
  have r: "rd (slots h) 0 = Inr (slots h ! 0)"
    using heap_inv_length [OF assms(1)] assms(2) by (simp add: rd_def)
  have "heap_ok (st, h)" "size (heap_items (st, h)) < fuel" using assms size_items by simp_all
  from timer_heap.drain_due [OF this, of cur]
  obtain xs q where d: "drain heap_pop heap_peek due cur fuel (st, h) = Some (xs, q)" "heap_ok q"
    "sorted (map due xs)" "mset xs = filter_mset (\<lambda>x. due x \<le> cur) (heap_items (st, h))"
    "heap_items q = filter_mset (\<lambda>x. cur < due x) (heap_items (st, h))" by blast
  obtain st' h' where q: "q = (st', h')" by (cases q)
  have "tick fuel cur st h = Some (Inr (concat (map fired xs), q))"
    using tick_loop_drain [OF assms(1,2), of "slots h ! 0" fuel cur] d(1) r by (simp add: tick_def)
  then show ?thesis using d q drain_store [OF assms(1)] by auto
qed

section \<open>Lazy deletion\<close>

lemma key_silenced: "st a = Some t \<Longrightarrow> key (st(a \<mapsto> t\<lparr>cb_func := None\<rparr>)) p = key st p"
  by (cases p) (auto simp: key_def)

lemma live_silenced: "st a = Some t \<Longrightarrow> live (st(a \<mapsto> u)) p = live st p"
  by (auto simp: live_def)

lemma heap_inv_silenced:
  "st a = Some t \<Longrightarrow> heap_inv (st(a \<mapsto> t\<lparr>cb_func := None\<rparr>)) h = heap_inv st h"
  by (simp add: heap_inv_def well_formed_def live_silenced keys_def [abs_def] key_silenced)

definition silenced :: "addr \<Rightarrow> addr \<times> HeapTimer \<Rightarrow> addr \<times> HeapTimer" where
  "silenced a x = (if fst x = a then (a, (snd x)\<lparr>cb_func := None\<rparr>) else x)"

lemma heap_items_silenced:
  assumes "st a = Some t" "heap_inv st h"
  shows "heap_items (st(a \<mapsto> t\<lparr>cb_func := None\<rparr>), h) = image_mset (silenced a) (heap_items (st, h))"
proof -
  have "item (st(a \<mapsto> t\<lparr>cb_func := None\<rparr>)) p = silenced a (item st p)" if "live st p" for p
    using that assms(1) by (auto simp: item_def silenced_def live_def)
  then have "\<forall>p \<in> set (timers h). item (st(a \<mapsto> t\<lparr>cb_func := None\<rparr>)) p = silenced a (item st p)"
    using assms(2) by (simp add: heap_inv_def well_formed_def)
  then show ?thesis
    unfolding heap_items.simps image_mset.compositionality by (intro image_mset_cong) auto
qed

lemma fired_silenced [simp]: "fst x = a \<Longrightarrow> fired (silenced a x) = []"
  by (simp add: fired_def silenced_def)

lemma silenced_other [simp]: "fst x \<noteq> a \<Longrightarrow> silenced a x = x"
  by (simp add: silenced_def)

lemma due_silenced [simp]: "due (silenced a x) = due x"
  by (simp add: due_def silenced_def)

lemma calls_silenced:
  "mset xs = filter_mset (\<lambda>x. due x \<le> cur) (image_mset (silenced a) M) \<Longrightarrow>
   mset (concat (map fired xs)) = (\<Sum>x \<in># filter_mset (\<lambda>x. due x \<le> cur \<and> fst x \<noteq> a) M. mset (fired x))"
proof -
  assume xs: "mset xs = filter_mset (\<lambda>x. due x \<le> cur) (image_mset (silenced a) M)"
  have "mset (concat (map fired xs)) = (\<Sum>x \<in># mset xs. mset (fired x))"
    by (simp add: mset_concat o_def flip: sum_mset_sum_list)
  also have "\<dots> = (\<Sum>x \<in># filter_mset (\<lambda>x. due x \<le> cur \<and> fst x \<noteq> a) M. mset (fired x))"
    unfolding xs
  proof (induction M)
    case (add x M)
    then show ?case by (cases "fst x = a") simp_all
  qed simp
  finally show ?thesis .
qed

lemma destroy_loop_ok:
  assumes "n \<le> length xs" "\<forall>i<n. live st (xs ! i)" "distinct (take n xs)" "i \<le> n"
  shows "destroy_loop (int i) \<lparr>slots = xs, capacity = c, cur_size = int n\<rparr>
      (st |` (- {a. Some a \<in> set (take i xs)})) = Inr (st |` (- {a. Some a \<in> set (take n xs)}))"
  using assms(4)
proof (induction "n - i" arbitrary: i)
  case 0
  then show ?case by (simp add: destroy_loop.simps)
next
  case (Suc k)
  let ?S = "\<lambda>i. st |` (- {a. Some a \<in> set (take i xs)})"
  have i: "i < n" "int i + 1 = int (Suc i)" using Suc.hyps(2) by simp_all
  obtain a t where a: "xs ! i = Some a" "st a = Some t" using assms(2) i by (auto simp: live_def)
  have tk: "take (Suc i) xs = take i xs @ [Some a]" using i assms(1) a by (simp add: take_Suc_conv_app_nth)
  have "distinct (take (Suc i) xs)"
    using assms(3) i by (metis Suc_leI distinct_take min.absorb1 take_take)
  then have new: "Some a \<notin> set (take i xs)" unfolding tk by simp
  have f: "free (?S i) (xs ! i) = Inr (?S (Suc i))"
    using a new by (auto simp: free_def tk restrict_map_def fun_eq_iff)
  have "destroy_loop (int (Suc i)) \<lparr>slots = xs, capacity = c, cur_size = int n\<rparr> (?S (Suc i)) = Inr (?S n)"
    by (rule Suc.hyps(1)) (use Suc.hyps(2) i in simp_all)
  then show ?case
    by (subst destroy_loop.simps) (use i assms(1) f in \<open>simp add: i(2) del: of_nat_Suc\<close>)
qed

section \<open>Properties\<close>

text \<open>
  C19 (functional). Adding a live timer that is not in the heap succeeds on every heap with
  a non-zero capacity: the invariant is kept, the heap holds one more timer, and the array
  is doubled exactly when it was full.
\<close>

theorem add_timer_contract:
  assumes "heap_inv st h" and "st a = Some t" and "Some a \<notin> set (timers h)"
    and "0 < capacity h" and "cur_size h < 2 ^ 30"
  shows "\<exists>h'. add_timer st (Some a) h = Inr h' \<and> heap_inv st h' \<and>
    mset (timers h') = add_mset (Some a) (mset (timers h)) \<and>
    capacity h' = (if cur_size h = capacity h then 2 * capacity h else capacity h)"
  by (rule add_timer_ok [OF assms])

text \<open>
  C18 (functional). On a non-empty heap \<open>top\<close> is a timer that expires no later than any
  other, and \<open>pop_timer\<close> frees exactly this timer and keeps the invariant on the others.
\<close>

theorem pop_timer_contract:
  assumes "heap_inv st h" and "\<not> empty h"
  shows "\<exists>a t h'. top_timer h = Inr (Some a) \<and> st a = Some t \<and>
    (\<forall>x \<in># heap_items (st, h). expire t \<le> expire (snd x)) \<and>
    pop_timer st h = Inr (st(a := None), h') \<and> heap_inv (st(a := None)) h' \<and>
    heap_items (st, h) = add_mset (a, t) (heap_items (st(a := None), h'))"
proof -
  have ne: "cur_size h \<noteq> 0" using assms(2) by (simp add: empty_def)
  obtain a t h' where p: "heap_peek (st, h) = Some (a, t)" "pop_timer st h = Inr (st(a := None), h')"
    "heap_inv (st(a := None)) h'" "heap_items (st, h) = add_mset (a, t) (heap_items (st(a := None), h'))"
    "slots h ! 0 = Some a" "st a = Some t"
    using heap_items_pop [OF assms(1) ne] by blast
  have "\<forall>x \<in># heap_items (st, h). expire t \<le> expire (snd x)"
    using timer_heap.peek_least [of "(st, h)" "(a, t)"] assms(1) p(1) by (simp add: due_def)
  moreover have "top_timer h = Inr (Some a)" using heap_inv_first [OF assms(1) ne] p(5) by auto
  ultimately show ?thesis using p by blast
qed

text \<open>
  C10 (functional). \<open>tick\<close> returns, whatever the times: it makes the calls of exactly the
  timers due, in the order of their expiry, leaves a heap of exactly the others, and frees the
  timers due and nothing else.
\<close>

theorem tick_fires_due:
  assumes "heap_inv st h" and "0 < capacity h" and "nat (cur_size h) < fuel"
  shows "\<exists>xs st' h'. tick fuel cur st h = Some (Inr (concat (map fired xs), st', h')) \<and>
    heap_inv st' h' \<and> sorted (map (\<lambda>x. expire (snd x)) xs) \<and>
    mset xs = filter_mset (\<lambda>x. expire (snd x) \<le> cur) (heap_items (st, h)) \<and>
    heap_items (st', h') = filter_mset (\<lambda>x. cur < expire (snd x)) (heap_items (st, h)) \<and>
    st' = st |` (- fst ` set xs)"
  using tick_run [OF assms, of cur] by (simp add: due_def [abs_def])

text \<open>
  C39 (functional). \<open>del_timer\<close> touches no array: the heap stays a heap with
  the same timers in it, and a later \<open>tick\<close> makes the calls of the timers due but for the
  deleted one.
\<close>

theorem del_timer_silences:
  assumes "heap_inv st h" and "st a = Some t" and "0 < capacity h" and "nat (cur_size h) < fuel"
  shows "\<exists>st'. del_timer st (Some a) = Inr st' \<and> heap_inv st' h \<and>
    (\<exists>calls r. tick fuel cur st' h = Some (Inr (calls, r)) \<and>
       mset calls = (\<Sum>x \<in># filter_mset (\<lambda>x. due x \<le> cur \<and> fst x \<noteq> a) (heap_items (st, h)). mset (fired x)))"
proof -
  let ?st = "st(a \<mapsto> t\<lparr>cb_func := None\<rparr>)"
  have inv: "heap_inv ?st h" using assms(1,2) by (simp add: heap_inv_silenced)
  obtain xs st' h' where t: "tick fuel cur ?st h = Some (Inr (concat (map fired xs), st', h'))"
      "mset xs = filter_mset (\<lambda>x. due x \<le> cur) (heap_items (?st, h))"
    using tick_run [OF inv assms(3,4)] by blast
  have "mset (concat (map fired xs)) =
      (\<Sum>x \<in># filter_mset (\<lambda>x. due x \<le> cur \<and> fst x \<noteq> a) (heap_items (st, h)). mset (fired x))"
    by (rule calls_silenced) (use t(2) heap_items_silenced [OF assms(2,1)] in simp)
  moreover have "del_timer st (Some a) = Inr ?st" using assms(2) by (simp add: del_timer_def)
  ultimately show ?thesis using inv t(1) by blast
qed

text \<open>
  C36 (functional). The second constructor makes a heap of any array of distinct live
  timers that fits the capacity, whatever their order.
\<close>

theorem init_TimeHeap_heapifies:
  assumes "n \<le> length init" and "n \<le> 2 ^ 30" and "int n \<le> c"
    and "\<forall>i<n. live st (init ! i)" and "distinct (take n init)"
  shows "\<exists>h. init_TimeHeap st init (int n) c = Inr h \<and> heap_inv st h \<and>
    mset (timers h) = mset (take n init) \<and> capacity h = c"
  by (rule init_TimeHeap_ok [OF assms])

text \<open>
  A heap made with capacity 0 is of no use: \<open>resize\<close> doubles nothing to nothing,
  so the first \<open>add_timer\<close> writes outside the array, and \<open>tick\<close> reads outside it.
\<close>

theorem capacity_zero_heap:
  "\<exists>h. new_TimeHeap 0 = Inr h \<and> add_timer st (Some a) h = Inl Out_of_bounds \<and>
     tick fuel cur st h = Some (Inl Out_of_bounds)"
  by (simp add: new_TimeHeap_def new_array_def add_timer_def resize_heap_def copy_loop.simps
      add_loop.simps wr_def rd_def tick_def)

text \<open>
  The destructor frees every timer in the heap once and nothing else.
\<close>

theorem delete_TimeHeap_frees:
  assumes "heap_inv st h"
  shows "delete_TimeHeap h st = Inr (st |` (- {a. Some a \<in> set (timers h)}))"
proof -
  have "well_formed st h" using assms by (simp add: heap_inv_def)
  then obtain n xs where h: "h = \<lparr>slots = xs, capacity = int (length xs), cur_size = int n\<rparr>"
    and n: "n \<le> length xs" "\<forall>i<n. live st (xs ! i)" "distinct (take n xs)"
    by (rule well_formedE)
  show ?thesis
    using destroy_loop_ok [OF n, of 0 "int (length xs)"]
    by (simp add: delete_TimeHeap_def h timers_def restrict_map_def)
qed

section \<open>A concrete heap\<close>

definition demo_store :: store where
  "demo_store = [1 \<mapsto> \<lparr>expire = 30, cb_func = Some 7, user_data = 1\<rparr>,
     2 \<mapsto> \<lparr>expire = 10, cb_func = Some 8, user_data = 2\<rparr>,
     3 \<mapsto> \<lparr>expire = 20, cb_func = Some 9, user_data = 3\<rparr>,
     4 \<mapsto> \<lparr>expire = 5, cb_func = None, user_data = 4\<rparr>]"

definition demo_heap :: TimeHeap where
  "demo_heap = \<lparr>slots = [Some 2, Some 1, Some 3], capacity = 3, cur_size = 3\<rparr>"

lemma demo_heap_inv: "heap_inv demo_store demo_heap"
proof -
  have "heap_on 0 3 (keys demo_store [Some 2, Some 1, Some 3])"
    unfolding heap_on_def
  proof (intro allI impI)
    fix j :: nat
    assume "0 < j \<and> j < 3 \<and> 0 \<le> par j"
    then have "j = 1 \<or> j = 2" by auto
    then show "keys demo_store [Some 2, Some 1, Some 3] (par j) \<le> keys demo_store [Some 2, Some 1, Some 3] j"
      by (elim disjE) (simp_all add: keys_def key_def demo_store_def par_def)
  qed
  then show ?thesis
    by (auto simp: heap_inv_def well_formed_def timers_def demo_heap_def live_def demo_store_def)
qed

lemma demo_heap_simps [simp]:
  "capacity demo_heap = 3" "cur_size demo_heap = 3" "timers demo_heap = [Some 2, Some 1, Some 3]"
  "\<not> empty demo_heap"
  by (simp_all add: demo_heap_def timers_def empty_def)

lemma add_timer_contract_witness:
  "\<exists>h'. add_timer demo_store (Some 4) demo_heap = Inr h' \<and> heap_inv demo_store h' \<and>
    mset (timers h') = add_mset (Some 4) (mset (timers demo_heap)) \<and>
    capacity h' = (if cur_size demo_heap = capacity demo_heap then 2 * capacity demo_heap else capacity demo_heap)"
  by (rule add_timer_contract [OF demo_heap_inv]) (simp_all add: demo_store_def)

lemma pop_timer_contract_witness:
  "\<exists>a t h'. top_timer demo_heap = Inr (Some a) \<and> demo_store a = Some t \<and>
    pop_timer demo_store demo_heap = Inr (demo_store(a := None), h') \<and> heap_inv (demo_store(a := None)) h' \<and>
    heap_items (demo_store, demo_heap) = add_mset (a, t) (heap_items (demo_store(a := None), h'))"
proof -
  have "\<not> empty demo_heap" by simp
  from pop_timer_contract [OF demo_heap_inv this] show ?thesis by blast
qed

lemma tick_fires_due_witness:
  "\<exists>xs st' h'. tick 4 20 demo_store demo_heap = Some (Inr (concat (map fired xs), st', h')) \<and>
    heap_inv st' h' \<and> sorted (map (\<lambda>x. expire (snd x)) xs) \<and>
    mset xs = filter_mset (\<lambda>x. expire (snd x) \<le> 20) (heap_items (demo_store, demo_heap)) \<and>
    heap_items (st', h') = filter_mset (\<lambda>x. 20 < expire (snd x)) (heap_items (demo_store, demo_heap)) \<and>
    st' = demo_store |` (- fst ` set xs)"
  by (rule tick_fires_due [OF demo_heap_inv]) simp_all

lemma del_timer_silences_witness:
  "\<exists>st'. del_timer demo_store (Some 2) = Inr st' \<and> heap_inv st' demo_heap \<and>
    (\<exists>calls r. tick 4 20 st' demo_heap = Some (Inr (calls, r)) \<and>
       mset calls = (\<Sum>x \<in># filter_mset (\<lambda>x. due x \<le> 20 \<and> fst x \<noteq> 2) (heap_items (demo_store, demo_heap)). mset (fired x)))"
  by (rule del_timer_silences [OF demo_heap_inv]) (simp_all add: demo_store_def)

lemma init_TimeHeap_heapifies_witness:
  "\<exists>h. init_TimeHeap demo_store [Some 1, Some 3, Some 2] (int 3) 5 = Inr h \<and> heap_inv demo_store h \<and>
    mset (timers h) = mset (take 3 [Some 1, Some 3, Some 2]) \<and> capacity h = 5"
proof (rule init_TimeHeap_heapifies)
  show "\<forall>i<3. live demo_store ([Some 1, Some 3, Some 2] ! i)"
    by (auto simp: live_def demo_store_def numeral_3_eq_3 less_Suc_eq)
qed simp_all

lemma delete_TimeHeap_frees_witness:
  "delete_TimeHeap demo_heap demo_store = Inr (demo_store |` (- {a. Some a \<in> set (timers demo_heap)}))"
  by (rule delete_TimeHeap_frees [OF demo_heap_inv])

end
