(* ===== verification/Cgi_Calc.thy ===== *)
theory Cgi_Calc
  imports Net_Util "HOL-Library.Signed_Division"
begin

text \<open>
  The calculator that ships as CGI program (wwwroot/test_cgi.cc): it takes two numbers
  from the environment or its standard input and prints their sum, difference, product and
  remainder. Environment strings are \<open>NAME=value\<close>.
\<close>

section \<open>Definitions\<close>

datatype calc_error = Null_string | Endless_read | Overflow | Division_error

fun getenv :: "string list \<Rightarrow> string \<Rightarrow> string option" where
  "getenv [] name = None"
| "getenv (e # env) name = (if prefix (name @ ''='') e then Some (drop (length name + 1) e) else getenv env name)"

text \<open>
  The loop of the POST branch, \<open>n\<close> rounds: the result of \<open>read\<close> is ignored, so at the end of the
  input the last byte is appended again. A negative length counts down through all of \<open>int\<close>.
\<close>

fun read_loop :: "nat \<Rightarrow> char \<Rightarrow> string \<Rightarrow> string \<Rightarrow> string" where
  "read_loop 0 ch inp parameter = parameter"
| "read_loop (Suc n) ch [] parameter = read_loop n ch [] (parameter @ [ch])"
| "read_loop (Suc n) ch (c # inp) parameter = read_loop n c inp (parameter @ [c])"

text \<open>
  \<open>GetParameter\<close>: the answer and the parameter. Making a string of a null pointer, or \<open>atoi\<close> of it,
  ends the program; \<open>ch0\<close> is the byte the uninitialised \<open>ch\<close> holds.
\<close>

definition GetParameter :: "string list \<Rightarrow> string \<Rightarrow> char \<Rightarrow> string \<Rightarrow> calc_error + bool \<times> string" where
  "GetParameter env inp ch0 parameter =
     (case getenv env ''METHOD'' of None \<Rightarrow> Inl Null_string
      | Some method \<Rightarrow>
          if method = ''GET'' then
            (case getenv env ''PARAMETER'' of None \<Rightarrow> Inl Null_string | Some p \<Rightarrow> Inr (True, p))
          else if method = ''POST'' then
            (case getenv env ''Content-Length'' of None \<Rightarrow> Inl Null_string
             | Some l \<Rightarrow>
                 (let length = atoi l in
                  if length < 0 then Inl Endless_read
                  else Inr (True, read_loop (nat length) ch0 inp parameter)))
          else Inr (False, parameter))"

text \<open>\<open>CutString\<close> keeps the position as \<open>size_t\<close>, unlike \<open>Util::Cutstring\<close>.\<close>

definition CutString :: "string \<Rightarrow> string \<Rightarrow> string \<Rightarrow> string \<Rightarrow> string \<times> string" where
  "CutString str strsub1 strsub2 sep =
     (let pos = find_pos sep str in
      if pos \<noteq> npos then (take pos str, drop (pos + length sep) str) else (strsub1, strsub2))"

text \<open>Signed 32-bit arithmetic: leaving the range is undefined, a zero divisor traps.\<close>

definition in_int :: "int \<Rightarrow> calc_error + int" where
  "in_int x = (if - (2 ^ 31) \<le> x \<and> x < 2 ^ 31 then Inr x else Inl Overflow)"

definition rem_int :: "int \<Rightarrow> int \<Rightarrow> calc_error + int" where
  "rem_int a b = (if b = 0 \<or> (a = - (2 ^ 31) \<and> b = -1) then Inl Division_error else Inr (a smod b))"

definition heading :: "string \<Rightarrow> string \<Rightarrow> string \<Rightarrow> int \<Rightarrow> string" where
  "heading value1 op value2 r = ''<h1>'' @ value1 @ op @ value2 @ ''='' @ show_int r @ ''</h1>''"

text \<open>
  \<open>main\<close>: what it prints. Into a pipe the output is buffered until the program ends, so a trap
  loses all of it.
\<close>

definition calc_main :: "string list \<Rightarrow> string \<Rightarrow> char \<Rightarrow> calc_error + string" where
  "calc_main env inp ch0 =
     (case GetParameter env inp ch0 [] of Inl e \<Rightarrow> Inl e
      | Inr (_, parameter) \<Rightarrow>
          (case CutString parameter [] [] ''&'' of (strsub1, strsub2) \<Rightarrow>
           case CutString strsub1 [] [] ''='' of (name1, value1) \<Rightarrow>
           case CutString strsub2 [] [] ''='' of (name2, value2) \<Rightarrow>
           (let x = atoi value1; y = atoi value2 in
            case in_int (x + y) of Inl e \<Rightarrow> Inl e
            | Inr s \<Rightarrow> (case in_int (x - y) of Inl e \<Rightarrow> Inl e
              | Inr d \<Rightarrow> (case in_int (x * y) of Inl e \<Rightarrow> Inl e
                | Inr p \<Rightarrow> (case rem_int x y of Inl e \<Rightarrow> Inl e
                  | Inr r \<Rightarrow> Inr (heading value1 ''+'' value2 s @ heading value1 ''-'' value2 d @
                      heading value1 ''*'' value2 p @ heading value1 ''%'' value2 r)))))))"

section \<open>Cutting\<close>

definition cut_str :: "string \<Rightarrow> string \<Rightarrow> (string \<times> string) option" where
  "cut_str s sep = (if find_pos sep s = npos then None
     else Some (take (find_pos sep s) s, drop (find_pos sep s + length sep) s))"

definition below_npos :: "string \<Rightarrow> string \<Rightarrow> bool" where
  "below_npos s sep \<longleftrightarrow> length s < npos"

lemma CutString_cut_str: "CutString s a b sep = (case cut_str s sep of None \<Rightarrow> (a, b) | Some p \<Rightarrow> p)"
  by (simp add: CutString_def cut_str_def Let_def)

lemma cut_str_cut_of: "below_npos s sep \<Longrightarrow> cut_str s sep = cut_of s sep"
  using find_str_length [of sep s]
  by (auto simp: cut_str_def cut_of_def find_pos_def below_npos_def split: option.splits)

interpretation calc: cutter cut_str below_npos
proof
  fix s sep a b j
  assume ok: "below_npos s sep"
  show "s = a @ sep @ b" if "cut_str s sep = Some (a, b)"
    using that cut_str_cut_of [OF ok] find_str_Some_cut by (auto simp: cut_of_def)
  show "\<not> prefix sep (drop j s)" if "cut_str s sep = Some (a, b)" "j < length a"
    using that cut_str_cut_of [OF ok] find_str_first by (auto simp: cut_of_def)
  show "cut_str s sep = None \<longleftrightarrow> \<not> sublist sep s"
    using cut_str_cut_of [OF ok] find_str_None by (auto simp: cut_of_def)
qed

lemma CutString_pair:
  assumes "length (k @ x # v) < npos" "x \<notin> set k"
  shows "CutString (k @ x # v) a b [x] = (k, v)"
  using calc.cut_char_pair [of k x v] assms by (simp add: CutString_cut_str below_npos_def)

section \<open>Properties\<close>

lemma read_loop_enough: "n \<le> length inp \<Longrightarrow> read_loop n ch inp p = p @ take n inp"
proof (induction n ch inp p rule: read_loop.induct)
  case (3 n ch c inp p)
  then show ?case by simp
qed simp_all

text \<open>The query \<open>a=x&b=y\<close> a form sends.\<close>

definition calc_query :: "string \<Rightarrow> int \<Rightarrow> string \<Rightarrow> int \<Rightarrow> string" where
  "calc_query n1 x n2 y = n1 @ CHR ''='' # show_int x @ CHR ''&'' # n2 @ CHR ''='' # show_int y"

definition calc_page :: "int \<Rightarrow> int \<Rightarrow> string" where
  "calc_page x y = heading (show_int x) ''+'' (show_int y) (x + y) @ heading (show_int x) ''-'' (show_int y) (x - y) @
     heading (show_int x) ''*'' (show_int y) (x * y) @ heading (show_int x) ''%'' (show_int y) (x smod y)"

definition calc_ok :: "int \<Rightarrow> int \<Rightarrow> bool" where
  "calc_ok x y \<longleftrightarrow> (\<forall>v \<in> {x, y, x + y, x - y, x * y}. - (2 ^ 31) \<le> v \<and> v < 2 ^ 31) \<and> y \<noteq> 0"

definition name_free :: "string \<Rightarrow> bool" where
  "name_free n \<longleftrightarrow> CHR ''='' \<notin> set n \<and> CHR ''&'' \<notin> set n"

lemma show_int_chars: "c \<in> set (show_int i) \<Longrightarrow> c = CHR ''-'' \<or> isdigit c"
  using show_nat_digits by (auto simp: show_int_def split: if_splits)

lemma show_int_free: "CHR ''='' \<notin> set (show_int i)" "CHR ''&'' \<notin> set (show_int i)"
  using show_int_chars [of "CHR ''=''" i] show_int_chars [of "CHR ''&''" i] by (auto simp: isdigit_def)

lemma calc_query_split:
  assumes "name_free n1" "name_free n2" "length (calc_query n1 x n2 y) < npos"
  shows "CutString (calc_query n1 x n2 y) [] [] ''&'' = (n1 @ CHR ''='' # show_int x, n2 @ CHR ''='' # show_int y)"
    and "CutString (n1 @ CHR ''='' # show_int x) [] [] ''='' = (n1, show_int x)"
    and "CutString (n2 @ CHR ''='' # show_int y) [] [] ''='' = (n2, show_int y)"
proof -
  show "CutString (calc_query n1 x n2 y) [] [] ''&'' = (n1 @ CHR ''='' # show_int x, n2 @ CHR ''='' # show_int y)"
    using CutString_pair [of "n1 @ CHR ''='' # show_int x" "CHR ''&''" "n2 @ CHR ''='' # show_int y"] assms show_int_free
    by (simp add: calc_query_def name_free_def)
  show "CutString (n1 @ CHR ''='' # show_int x) [] [] ''='' = (n1, show_int x)"
    "CutString (n2 @ CHR ''='' # show_int y) [] [] ''='' = (n2, show_int y)"
    by (rule CutString_pair; use assms in \<open>simp add: calc_query_def name_free_def\<close>)+
qed

lemma calc_main_parameter:
  assumes "GetParameter env inp ch0 [] = Inr (True, calc_query n1 x n2 y)"
    and "name_free n1" "name_free n2" "length (calc_query n1 x n2 y) < npos" "calc_ok x y"
  shows "calc_main env inp ch0 = Inr (calc_page x y)"
proof -
  have "- (2 ^ 31) \<le> x" "x < 2 ^ 31" "- (2 ^ 31) \<le> y" "y < 2 ^ 31" and xy: "x * y < 2 ^ 31"
    using assms(5) by (simp_all add: calc_ok_def)
  then have a: "atoi (show_int x) = x" "atoi (show_int y) = y" using atoi_show_int by blast+
  have i: "in_int (x + y) = Inr (x + y)" "in_int (x - y) = Inr (x - y)" "in_int (x * y) = Inr (x * y)"
    using assms(5) by (simp_all add: in_int_def calc_ok_def)
  have "\<not> (x = - (2 ^ 31) \<and> y = -1)" using xy by auto
  then have m: "rem_int x y = Inr (x smod y)" using assms(5) by (simp add: rem_int_def calc_ok_def)
  show ?thesis
    using assms(1) calc_query_split [OF assms(2-4)] a i m by (simp add: calc_main_def calc_page_def Let_def)
qed

text \<open>
  The program as the handler runs it: its output and wait status, 8 for the trap \<open>SIGFPE\<close>. When its input does
  not end and holds fewer bytes than it wants, its \<open>read\<close> never returns.
\<close>

definition input_wanted :: "string list \<Rightarrow> nat" where
  "input_wanted env =
     (if getenv env ''METHOD'' = Some ''POST''
      then (case getenv env ''Content-Length'' of None \<Rightarrow> 0 | Some l \<Rightarrow> nat (atoi l)) else 0)"

definition calc_cgi :: "char \<Rightarrow> string list \<Rightarrow> bool \<Rightarrow> string \<Rightarrow> (string \<times> 32 word) option" where
  "calc_cgi ch0 env ended inp =
     (if \<not> ended \<and> length inp < input_wanted env then None
      else (case calc_main env inp ch0 of
        Inr out \<Rightarrow> Some (out, 0)
      | Inl Division_error \<Rightarrow> Some ([], 8)
      | Inl e \<Rightarrow> None))"

lemma calc_empty_post: "calc_cgi ch0 [''METHOD=POST'', ''Content-Length=0''] ended inp = Some ([], 8)"
proof -
  have f: "find_pos ''&'' [] = npos" "find_pos ''='' [] = npos" by (simp_all add: find_pos_def)
  have z: "atoi ''0'' = 0" "atoi [] = 0"
    by (simp_all add: atoi_def isspace_def isdigit_def digits_val_def digit_val_def strtol_clamp_def)
  have "GetParameter [''METHOD=POST'', ''Content-Length=0''] inp ch0 [] = Inr (True, [])"
    by (simp add: GetParameter_def z(1) Let_def)
  then show ?thesis
    by (simp add: calc_cgi_def input_wanted_def calc_main_def CutString_def f z in_int_def rem_int_def Let_def)
qed

text \<open>
  Given \<open>a=x&b=y\<close>, whatever the names, in the environment of a GET or on the
  standard input of a POST with its length, the program prints the four results, as long as
  they are in the range of \<open>int\<close> and \<open>y\<close> is not zero.
\<close>

theorem calc_main_results:
  assumes "name_free n1" and "name_free n2" and "calc_ok x y" and "length (calc_query n1 x n2 y) < 2 ^ 31"
  shows "calc_main [''METHOD=GET'', ''PARAMETER='' @ calc_query n1 x n2 y] inp ch0 = Inr (calc_page x y) \<and>
    calc_main [''METHOD=POST'', ''Content-Length='' @ show_nat (length (calc_query n1 x n2 y))]
      (calc_query n1 x n2 y @ rest) ch0 = Inr (calc_page x y)"
proof
  have n: "length (calc_query n1 x n2 y) < npos" using assms(4) by (simp add: npos_def)
  show "calc_main [''METHOD=GET'', ''PARAMETER='' @ calc_query n1 x n2 y] inp ch0 = Inr (calc_page x y)"
    by (rule calc_main_parameter [OF _ assms(1,2) n assms(3)]) (simp add: GetParameter_def)
  let ?q = "calc_query n1 x n2 y"
  have "show_int (int (length ?q)) = show_nat (length ?q)" by (simp add: show_int_def)
  then have "atoi (show_nat (length ?q)) = int (length ?q)"
    using atoi_show_int [of "int (length ?q)"] assms(4) by simp
  then have "GetParameter [''METHOD=POST'', ''Content-Length='' @ show_nat (length ?q)] (?q @ rest) ch0 [] = Inr (True, ?q)"
    by (simp add: GetParameter_def read_loop_enough Let_def)
  then show "calc_main [''METHOD=POST'', ''Content-Length='' @ show_nat (length ?q)] (?q @ rest) ch0 = Inr (calc_page x y)"
    by (rule calc_main_parameter [OF _ assms(1,2) n assms(3)])
qed

text \<open>
  The divisor is not checked: with \<open>y = 0\<close> the program traps and prints nothing,
  although the other three results are fine.
\<close>

theorem calc_zero_divisor:
  assumes "name_free n1" and "name_free n2" and "- (2 ^ 31) \<le> x" and "x < 2 ^ 31"
    and "length (calc_query n1 x n2 0) < 2 ^ 31"
  shows "calc_main [''METHOD=GET'', ''PARAMETER='' @ calc_query n1 x n2 0] inp ch0 = Inl Division_error"
proof -
  have n: "length (calc_query n1 x n2 0) < npos" using assms(5) by (simp add: npos_def)
  have a: "atoi (show_int x) = x" "atoi (show_int 0) = 0" using assms(3,4) by (auto intro!: atoi_show_int)
  show ?thesis using calc_query_split [OF assms(1,2) n] a assms(3,4)
    by (simp add: calc_main_def GetParameter_def in_int_def rem_int_def Let_def)
qed

lemma calc_main_results_witness:
  "calc_main [''METHOD=GET'', ''PARAMETER='' @ calc_query ''a'' 100 ''b'' (-7)] [] CHR ''x'' = Inr (calc_page 100 (-7)) \<and>
    calc_main [''METHOD=POST'', ''Content-Length='' @ show_nat (length (calc_query ''a'' 100 ''b'' (-7)))]
      (calc_query ''a'' 100 ''b'' (-7) @ []) CHR ''x'' = Inr (calc_page 100 (-7))"
  by (rule calc_main_results)
     (simp_all add: name_free_def calc_ok_def calc_query_def show_int_def show_nat.simps)

lemma calc_zero_divisor_witness:
  "calc_main [''METHOD=GET'', ''PARAMETER='' @ calc_query ''a'' 5 ''b'' 0] [] CHR ''x'' = Inl Division_error"
  by (rule calc_zero_divisor)
     (simp_all add: name_free_def calc_query_def show_int_def show_nat.simps)

end
