(* ===== verification/Web_Bench.thy ===== *)
theory Web_Bench
  imports Cstd
begin

text \<open>
  The command line and the request of the load generator that comes with the server
  (WebBench/webbench.c): the global settings, the option loop of \<open>main\<close> over \<open>getopt_long\<close>,
  and \<open>build_request\<close>. The globals are fields of a record. The three character arrays are
  buffers of their sizes: a copy that leaves its buffer, and a read that finds no NUL in it,
  are faults.
\<close>

section \<open>Settings\<close>

definition METHOD_GET :: int where "METHOD_GET = 0"
definition METHOD_HEAD :: int where "METHOD_HEAD = 1"
definition METHOD_OPTIONS :: int where "METHOD_OPTIONS = 2"
definition METHOD_TRACE :: int where "METHOD_TRACE = 3"

lemmas method_codes = METHOD_GET_def METHOD_HEAD_def METHOD_OPTIONS_def METHOD_TRACE_def

definition PROGRAM_VERSION :: string where
  "PROGRAM_VERSION = ''1.5''"

definition REQUEST_SIZE :: nat where
  "REQUEST_SIZE = 2048"

text \<open>Of \<open>sys/param.h\<close> on Linux.\<close>

definition MAXHOSTNAMELEN :: nat where
  "MAXHOSTNAMELEN = 64"

record bench_config =
  http10 :: int
  req_method :: int
  clients :: int
  force :: int
  force_reload :: int
  proxyport :: int
  proxyhost :: "string option"
  benchtime :: int
  keep_alive :: bool

definition default_config :: bench_config where
  "default_config = \<lparr>http10 = 1, req_method = METHOD_GET, clients = 1, force = 0, force_reload = 0,
     proxyport = 80, proxyhost = None, benchtime = 30, keep_alive = False\<rparr>"

text \<open>\<open>Perror\<close> is the message of \<open>perror\<close>, to which the C library adds the reason.\<close>

datatype printed = Stdout string | Stderr string | Perror string

datatype memory_fault = Host_overflow | Host_unterminated | Port_overflow | Port_unterminated | Request_overflow

text \<open>How the program stops before the benchmark: \<open>exit\<close> or \<open>return\<close> of \<open>main\<close>, or undefined behaviour.\<close>

datatype bench_stop = Exit int "printed list" | Fault memory_fault

section \<open>Options\<close>

text \<open>
  The two tables. A long option with a variable sets it; one without returns its letter.
\<close>

definition short_options :: string where
  "short_options = ''912Vfrt:p:c:?hk''"

datatype long_option = Sets "bench_config \<Rightarrow> bench_config" | Returns bool char

definition long_options :: "(string \<times> long_option) list" where
  "long_options =
     [(''force'', Sets (\<lambda>c. c\<lparr>force := 1\<rparr>)), (''reload'', Sets (\<lambda>c. c\<lparr>force_reload := 1\<rparr>)),
      (''time'', Returns True (CHR ''t'')), (''help'', Returns False (CHR ''?'')),
      (''http09'', Returns False (CHR ''9'')), (''http10'', Returns False (CHR ''1'')),
      (''http11'', Returns False (CHR ''2'')),
      (''get'', Sets (\<lambda>c. c\<lparr>req_method := METHOD_GET\<rparr>)), (''head'', Sets (\<lambda>c. c\<lparr>req_method := METHOD_HEAD\<rparr>)),
      (''options'', Sets (\<lambda>c. c\<lparr>req_method := METHOD_OPTIONS\<rparr>)), (''trace'', Sets (\<lambda>c. c\<lparr>req_method := METHOD_TRACE\<rparr>)),
      (''version'', Returns False (CHR ''V'')), (''proxy'', Returns True (CHR ''p'')),
      (''clients'', Returns True (CHR ''c''))]"

text \<open>
  \<open>getopt_long\<close> of glibc, without the messages it prints itself. Its state is the rest of the
  current cluster of short options, the arguments not yet looked at and the operands it
  passed over, which it moves behind the options. A long name may be cut to a prefix only
  one name has. An unknown option and a missing argument are the letter \<open>?\<close>.
\<close>

type_synonym opt_state = "string \<times> string list \<times> string list"

datatype gotten = Operands "string list" | Letter char string opt_state
  | Variable "bench_config \<Rightarrow> bench_config" opt_state

fun takes_argument :: "string \<Rightarrow> char \<Rightarrow> bool option" where
  "takes_argument (d # e # ds) c =
     (if d = c \<and> c \<noteq> CHR '':'' then Some (e = CHR '':'') else takes_argument (e # ds) c)"
| "takes_argument [d] c = (if d = c \<and> c \<noteq> CHR '':'' then Some False else None)"
| "takes_argument [] c = None"

definition long_match :: "string \<Rightarrow> long_option option" where
  "long_match name =
     (case map_of long_options name of
        Some l \<Rightarrow> Some l
      | None \<Rightarrow> (case filter (\<lambda>(n, l). prefix name n) long_options of
          [(n, l)] \<Rightarrow> Some l
        | _ \<Rightarrow> None))"

definition with_argument :: "char \<Rightarrow> string option \<Rightarrow> string list \<Rightarrow> string list \<Rightarrow> gotten" where
  "with_argument c given args operands =
     (case given of
        Some a \<Rightarrow> Letter c a ([], args, operands)
      | None \<Rightarrow> (case args of
          [] \<Rightarrow> Letter (CHR ''?'') [] ([], [], operands)
        | a # as \<Rightarrow> Letter c a ([], as, operands)))"

definition get_long :: "string \<Rightarrow> string list \<Rightarrow> string list \<Rightarrow> gotten" where
  "get_long arg args operands =
     (let name = takeWhile (\<lambda>c. c \<noteq> CHR ''='') arg;
          given = (if CHR ''='' \<in> set arg then Some (drop (length name + 1) arg) else None);
          bad = Letter (CHR ''?'') [] ([], args, operands)
      in case long_match name of
           None \<Rightarrow> bad
         | Some (Sets f) \<Rightarrow> if given = None then Variable f ([], args, operands) else bad
         | Some (Returns needs c) \<Rightarrow>
             if needs then with_argument c given args operands
             else if given = None then Letter c [] ([], args, operands) else bad)"

definition get_short :: "char \<Rightarrow> string \<Rightarrow> string list \<Rightarrow> string list \<Rightarrow> gotten" where
  "get_short c cs args operands =
     (case takes_argument short_options c of
        None \<Rightarrow> Letter (CHR ''?'') [] (cs, args, operands)
      | Some False \<Rightarrow> Letter c [] (cs, args, operands)
      | Some True \<Rightarrow> with_argument c (if cs = [] then None else Some cs) args operands)"

fun getopt_long :: "string \<Rightarrow> string list \<Rightarrow> string list \<Rightarrow> gotten" where
  "getopt_long (c # cs) args operands = get_short c cs args operands"
| "getopt_long [] [] operands = Operands operands"
| "getopt_long [] (a # as) operands =
     (if a = ''--'' then Operands (operands @ as)
      else if prefix ''--'' a then get_long (drop 2 a) as operands
      else if prefix ''-'' a \<and> a \<noteq> ''-'' then get_short (a ! 1) (drop 2 a) as operands
      else getopt_long [] as (operands @ [a]))"

definition usage :: string where
  "usage = concat (map (\<lambda>l. l @ [CHR 0x0A])
     [''webbench [option]... URL'',
      ''  -f|--force               Don'' @ [CHR 0x27] @ ''t wait for reply from server.'',
      ''  -r|--reload              Send reload request - Pragma: no-cache.'',
      ''  -t|--time <sec>          Run benchmark for <sec> seconds. Default 30.'',
      ''  -p|--proxy <server:port> Use proxy server for request.'',
      ''  -c|--clients <n>         Run <n> HTTP clients at once. Default one.'',
      ''  -k|--keep                Keep-Alive'',
      ''  -9|--http09              Use HTTP/0.9 style requests.'',
      ''  -1|--http10              Use HTTP/1.0 protocol.'',
      ''  -2|--http11              Use HTTP/1.1 protocol.'',
      ''  --get                    Use GET request method.'',
      ''  --head                   Use HEAD request method.'',
      ''  --options                Use OPTIONS request method.'',
      ''  --trace                  Use TRACE request method.'',
      ''  -?|-h|--help             This information.'',
      ''  -V|--version             Display program version.''])"

text \<open>The option \<open>--proxy server:port\<close>: the last colon separates the two.\<close>

definition proxy_option :: "string \<Rightarrow> bench_config \<Rightarrow> bench_stop + bench_config" where
  "proxy_option optarg cfg =
     (case rfind_char (CHR '':'') optarg of
        None \<Rightarrow> Inr (cfg\<lparr>proxyhost := Some optarg\<rparr>)
      | Some tmp \<Rightarrow>
          if tmp = 0
          then Inl (Exit 2 [Stderr (''Error in option --proxy '' @ optarg @ '': Missing hostname.'' @ [CHR 0x0A])])
          else if tmp = length optarg - 1
          then Inl (Exit 2 [Stderr (''Error in option --proxy '' @ optarg @ '' Port number is missing.'' @ [CHR 0x0A])])
          else Inr (cfg\<lparr>proxyhost := Some (take tmp optarg), proxyport := atoi (drop (tmp + 1) optarg)\<rparr>))"

text \<open>The \<open>switch\<close> of \<open>main\<close>.\<close>

definition handle_option :: "char \<Rightarrow> string \<Rightarrow> bench_config \<Rightarrow> bench_stop + bench_config" where
  "handle_option opt optarg cfg =
     (if opt = CHR ''f'' then Inr (cfg\<lparr>force := 1\<rparr>)
      else if opt = CHR ''r'' then Inr (cfg\<lparr>force_reload := 1\<rparr>)
      else if opt = CHR ''9'' then Inr (cfg\<lparr>http10 := 0\<rparr>)
      else if opt = CHR ''1'' then Inr (cfg\<lparr>http10 := 1\<rparr>)
      else if opt = CHR ''2'' then Inr (cfg\<lparr>http10 := 2\<rparr>)
      else if opt = CHR ''V'' then Inl (Exit 0 [Stdout (PROGRAM_VERSION @ [CHR 0x0A])])
      else if opt = CHR ''t'' then Inr (cfg\<lparr>benchtime := atoi optarg\<rparr>)
      else if opt = CHR ''k'' then Inr (cfg\<lparr>keep_alive := True\<rparr>)
      else if opt = CHR ''p'' then proxy_option optarg cfg
      else if opt \<in> {CHR '':'', CHR ''h'', CHR ''?''} then Inl (Exit 2 [Stderr usage])
      else if opt = CHR ''c'' then Inr (cfg\<lparr>clients := atoi optarg\<rparr>)
      else Inr cfg)"


text \<open>Every call of \<open>getopt_long\<close> that gives an option uses up a part of the arguments.\<close>

fun opt_size :: "opt_state \<Rightarrow> nat" where
  "opt_size (cluster, args, operands) = length cluster + sum_list (map (\<lambda>a. Suc (length a)) args)"

fun opt_rest :: "gotten \<Rightarrow> opt_state option" where
  "opt_rest (Operands ops) = None"
| "opt_rest (Letter c a st) = Some st"
| "opt_rest (Variable f st) = Some st"

lemma with_argument_size: "opt_rest (with_argument c given args operands) = Some st \<Longrightarrow>
    opt_size st \<le> opt_size ([], args, [])"
  by (auto simp: with_argument_def split: option.splits list.splits)

lemma get_long_size: "opt_rest (get_long arg args operands) = Some st \<Longrightarrow> opt_size st \<le> opt_size ([], args, [])"
  by (auto simp: get_long_def Let_def split: option.splits long_option.splits if_splits dest!: with_argument_size)

lemma get_short_size: "opt_rest (get_short c cs args operands) = Some st \<Longrightarrow> opt_size st \<le> opt_size (cs, args, [])"
  using with_argument_size [of c "if cs = [] then None else Some cs" args operands st]
  by (auto simp: get_short_def split: option.splits bool.splits)

lemma getopt_long_size: "opt_rest (getopt_long cluster args operands) = Some st \<Longrightarrow> opt_size st < opt_size (cluster, args, operands)"
proof (induction cluster args operands rule: getopt_long.induct)
  case (1 c cs args operands)
  then show ?case using get_short_size [of c cs args operands st] by simp
next
  case (3 a as operands)
  show ?case
    using "3.prems" "3.IH" get_long_size [of "drop 2 a" as operands st] get_short_size [of "a ! 1" "drop 2 a" as operands st]
    by (auto split: if_splits)
qed simp

lemma getopt_long_smaller:
  "getopt_long cluster args operands = Letter c a st \<Longrightarrow> opt_size st < opt_size (cluster, args, operands)"
  "getopt_long cluster args operands = Variable f st \<Longrightarrow> opt_size st < opt_size (cluster, args, operands)"
  using getopt_long_size [of cluster args operands st] by simp_all

text \<open>The loop of \<open>main\<close>: the settings and the operands at the end.\<close>

function option_loop :: "opt_state \<Rightarrow> bench_config \<Rightarrow> bench_stop + bench_config \<times> string list" where
  "option_loop (cluster, args, operands) cfg =
     (case getopt_long cluster args operands of
        Operands ops \<Rightarrow> Inr (cfg, ops)
      | Variable f st \<Rightarrow> option_loop st (f cfg)
      | Letter opt optarg st \<Rightarrow> (case handle_option opt optarg cfg of
          Inl e \<Rightarrow> Inl e
        | Inr cfg' \<Rightarrow> option_loop st cfg'))"
  by pat_completeness auto
termination option_loop
  by (relation "measure (opt_size \<circ> fst)") (simp_all add: getopt_long_smaller del: opt_size.simps)

declare option_loop.simps [simp del]

section \<open>The request\<close>

text \<open>
  \<open>strncpy\<close> into an array of zeros, and the reading of an array as a string. \<open>strcat\<close> needs
  room for the NUL.
\<close>

definition strncpy :: "nat \<Rightarrow> string \<Rightarrow> nat \<Rightarrow> string option" where
  "strncpy room src n = (if n \<le> room
     then Some (take n src @ replicate (room - length (take n src)) (CHR 0x00)) else None)"

definition buf_string :: "string \<Rightarrow> string option" where
  "buf_string buf = (if CHR 0x00 \<in> set buf then Some (c_str buf) else None)"

fun strcats :: "string list \<Rightarrow> string \<Rightarrow> string option" where
  "strcats [] request = Some request"
| "strcats (s # ss) request =
     (if length request + length s < REQUEST_SIZE then strcats ss (request @ s) else None)"

text \<open>A method that did not exist in a version of HTTP raises the version.\<close>

definition raise_version :: "bench_config \<Rightarrow> bench_config" where
  "raise_version cfg =
     (let c1 = (if force_reload cfg \<noteq> 0 \<and> proxyhost cfg \<noteq> None \<and> http10 cfg < 1 then cfg\<lparr>http10 := 1\<rparr> else cfg);
          c2 = (if req_method c1 = METHOD_HEAD \<and> http10 c1 < 1 then c1\<lparr>http10 := 1\<rparr> else c1);
          c3 = (if req_method c2 = METHOD_OPTIONS \<and> http10 c2 < 2 then c2\<lparr>http10 := 2\<rparr> else c2)
      in if req_method c3 = METHOD_TRACE \<and> http10 c3 < 2 then c3\<lparr>http10 := 2\<rparr> else c3)"

definition method_name :: "int \<Rightarrow> string" where
  "method_name m = (if m = METHOD_HEAD then ''HEAD'' else if m = METHOD_OPTIONS then ''OPTIONS''
     else if m = METHOD_TRACE then ''TRACE'' else ''GET'')"

text \<open>
  The host and the port of a URL whose part after \<open>://\<close> is \<open>rest\<close>: the settings, the array
  \<open>host\<close> and the target.
\<close>

definition host_and_port :: "bench_config \<Rightarrow> string \<Rightarrow> memory_fault + bench_config \<times> string \<times> string" where
  "host_and_port cfg rest =
     (let slash = length (takeWhile (\<lambda>c. c \<noteq> CHR ''/'') rest);
          colon = length (takeWhile (\<lambda>c. c \<noteq> CHR '':'') rest);
          target = drop slash rest
      in if CHR '':'' \<in> set rest \<and> colon < slash then
           (case strncpy MAXHOSTNAMELEN rest colon of
              None \<Rightarrow> Inl Host_overflow
            | Some host \<Rightarrow> (case strncpy 10 (drop (colon + 1) rest) (slash - colon - 1) of
                None \<Rightarrow> Inl Port_overflow
              | Some tmp \<Rightarrow> (case buf_string tmp of
                  None \<Rightarrow> Inl Port_unterminated
                | Some t \<Rightarrow> Inr (cfg\<lparr>proxyport := (if atoi t = 0 then 80 else atoi t)\<rparr>, host, target))))
         else (case strncpy MAXHOSTNAMELEN rest slash of
                 None \<Rightarrow> Inl Host_overflow
               | Some host \<Rightarrow> Inr (cfg, host, target)))"

definition crlf :: string where
  "crlf = [CHR 0x0D, CHR 0x0A]"

text \<open>
  What is appended to the request, in order; \<open>host\<close> is the array as a string. An array without
  a NUL is a fault in any case, since \<open>bench\<close> reads it as a string if \<open>build_request\<close> does not.
\<close>

definition request_pieces :: "bench_config \<Rightarrow> string \<Rightarrow> string \<Rightarrow> string list" where
  "request_pieces cfg target host =
     [method_name (req_method cfg), '' '', target] @
     (if http10 cfg = 1 then ['' HTTP/1.0''] else if http10 cfg = 2 then ['' HTTP/1.1''] else []) @
     [crlf] @
     (if 0 < http10 cfg then [''User-Agent: WebBench '' @ PROGRAM_VERSION @ crlf] else []) @
     (if proxyhost cfg = None \<and> 0 < http10 cfg then [''Host: '', host, crlf] else []) @
     (if force_reload cfg \<noteq> 0 \<and> proxyhost cfg \<noteq> None then [''Pragma: no-cache'' @ crlf] else []) @
     (if 1 < http10 cfg
      then [(if keep_alive cfg then ''Connection: Keep-Alive'' else ''Connection: close'') @ crlf] else []) @
     (if 0 < http10 cfg then [crlf] else [])"

definition build_request :: "bench_config \<Rightarrow> string \<Rightarrow> bench_stop + bench_config \<times> string \<times> string \<times> printed list" where
  "build_request cfg0 url =
     (let cfg = raise_version cfg0 in
      case find_str ''://'' url of
        None \<Rightarrow> Inl (Exit 2 [Stderr (CHR 0x0A # url @ '': is not a valid URL.'' @ [CHR 0x0A])])
      | Some d \<Rightarrow>
          if 1500 < length url then Inl (Exit 2 [Stderr (''URL is too long.'' @ [CHR 0x0A])])
          else if map toupper (take 7 url) \<noteq> map toupper ''http://'' then
            Inl (Exit 2 [Stderr (CHR 0x0A # ''Only HTTP protocol is directly supported, set --proxy for others.'' @ [CHR 0x0A])])
          else
            (let rest = drop (d + 3) url in
             if CHR ''/'' \<notin> set rest then
               Inl (Exit 2 [Stderr (CHR 0x0A # ''Invalid URL syntax - hostname don'' @ CHR 0x27 #
                 ''t ends with '' @ CHR 0x27 # ''/'' @ CHR 0x27 # ''.'' @ [CHR 0x0A])])
             else
               (case (if proxyhost cfg = None then host_and_port cfg rest
                      else Inr (cfg, replicate MAXHOSTNAMELEN (CHR 0x00), url)) of
                  Inl f \<Rightarrow> Inl (Fault f)
                | Inr (cfg', host, target) \<Rightarrow>
                    (case buf_string host of
                       None \<Rightarrow> Inl (Fault Host_unterminated)
                     | Some h \<Rightarrow> (case strcats (request_pieces cfg' target h) [] of
                         None \<Rightarrow> Inl (Fault Request_overflow)
                       | Some request \<Rightarrow>
                           Inr (cfg', host, request, [Stdout (CHR 0x0A # ''Request:'' @ CHR 0x0A # request @ [CHR 0x0A])]))))))"

section \<open>Copying and reading the arrays\<close>

lemma strncpy_fits: "n \<le> room \<Longrightarrow> strncpy room src n = Some (take n src @ replicate (room - length (take n src)) (CHR 0x00))"
  by (simp add: strncpy_def)

lemma takeWhile_stop: "x \<notin> set s \<Longrightarrow> takeWhile (\<lambda>c. c \<noteq> x) (s @ x # t) = s"
  by (rule takeWhile_append_stop) auto

lemma c_str_padded: "CHR 0x00 \<notin> set s \<Longrightarrow> c_str (s @ replicate k (CHR 0x00)) = s"
  by (cases k) (simp_all add: c_str_id, simp add: c_str_def takeWhile_stop)

lemma buf_string_padded: "CHR 0x00 \<notin> set s \<Longrightarrow> 0 < k \<Longrightarrow> buf_string (s @ replicate k (CHR 0x00)) = Some s"
  by (simp add: buf_string_def c_str_padded)

lemma buf_string_full: "CHR 0x00 \<notin> set s \<Longrightarrow> buf_string s = None"
  by (simp add: buf_string_def)

lemma buf_string_length: "buf_string buf = Some s \<Longrightarrow> length s < length buf"
proof -
  assume "buf_string buf = Some s"
  then have s: "CHR 0x00 \<in> set buf" "s = takeWhile (\<lambda>c. c \<noteq> CHR 0x00) buf"
    by (auto simp: buf_string_def c_str_def split: if_splits)
  then have "length s \<noteq> length buf" using takeWhile_eq_take [of "\<lambda>c. c \<noteq> CHR 0x00" buf]
    by (metis set_takeWhileD take_all_iff order_refl)
  then show ?thesis using length_takeWhile_le [of "\<lambda>c. c \<noteq> CHR 0x00" buf] s(2) by simp
qed

lemma strncpy_length: "strncpy room src n = Some buf \<Longrightarrow> length buf = room"
  by (auto simp: strncpy_def split: if_splits)

lemma strcats_concat: "length request + length (concat ss) < REQUEST_SIZE \<Longrightarrow> strcats ss request = Some (request @ concat ss)"
  by (induction ss arbitrary: request) auto

lemma strcats_Some: "strcats ss request = Some r \<Longrightarrow> length request < REQUEST_SIZE \<Longrightarrow>
    r = request @ concat ss \<and> length r < REQUEST_SIZE"
  by (induction ss arbitrary: request) (fastforce split: if_splits)+

lemma method_name_length: "length (method_name m) \<le> 7"
  by (simp add: method_name_def)

text \<open>Everything but the target and the host has less than 100 characters.\<close>

lemma request_pieces_length:
  "length (concat (request_pieces cfg target host)) \<le> length target + length host + 100"
  using method_name_length [of "req_method cfg"]
  by (simp add: request_pieces_def crlf_def PROGRAM_VERSION_def)

lemma host_and_port_sizes:
  assumes "host_and_port cfg rest = Inr (cfg', host, target)"
  shows "length host = MAXHOSTNAMELEN \<and> length target \<le> length rest"
proof (intro conjI)
  show "length host = MAXHOSTNAMELEN" using assms strncpy_length
    by (fastforce simp: host_and_port_def Let_def split: if_splits option.splits)
  have "target = drop (length (takeWhile (\<lambda>c. c \<noteq> CHR ''/'') rest)) rest"
    using assms by (auto simp: host_and_port_def Let_def split: if_splits option.splits)
  then show "length target \<le> length rest" by simp
qed

text \<open>
  The part between the scheme and the slash: a host, and perhaps a port after a colon.
\<close>

fun authority :: "string \<Rightarrow> string option \<Rightarrow> string" where
  "authority h None = h"
| "authority h (Some ds) = h @ CHR '':'' # ds"

definition name_text :: "string \<Rightarrow> bool" where
  "name_text h \<longleftrightarrow> CHR '':'' \<notin> set h \<and> CHR ''/'' \<notin> set h \<and> CHR 0x00 \<notin> set h"

fun port_text :: "string option \<Rightarrow> bool" where
  "port_text None \<longleftrightarrow> True"
| "port_text (Some ds) \<longleftrightarrow> CHR ''/'' \<notin> set ds \<and> CHR 0x00 \<notin> set ds"

fun port_length :: "string option \<Rightarrow> nat" where
  "port_length None = 0"
| "port_length (Some ds) = length ds"

fun with_port :: "string option \<Rightarrow> bench_config \<Rightarrow> bench_config" where
  "with_port None cfg = cfg"
| "with_port (Some ds) cfg = cfg\<lparr>proxyport := (if atoi ds = 0 then 80 else atoi ds)\<rparr>"

definition host_buffer :: "string \<Rightarrow> string" where
  "host_buffer h = h @ replicate (MAXHOSTNAMELEN - length h) (CHR 0x00)"

lemma host_and_port_eq:
  assumes "name_text h" and "port_text port"
  shows "host_and_port cfg (authority h port @ CHR ''/'' # path) =
    (if MAXHOSTNAMELEN < length h then Inl Host_overflow
     else if 10 < port_length port then Inl Port_overflow
     else if port_length port = 10 then Inl Port_unterminated
     else Inr (with_port port cfg, host_buffer h, CHR ''/'' # path))"
proof (cases port)
  case None
  have t: "takeWhile (\<lambda>c. c \<noteq> CHR ''/'') (h @ CHR ''/'' # path) = h"
    using assms(1) by (intro takeWhile_stop) (simp add: name_text_def)
  have "takeWhile (\<lambda>c. c \<noteq> CHR '':'') (h @ CHR ''/'' # path) = h @ takeWhile (\<lambda>c. c \<noteq> CHR '':'') (CHR ''/'' # path)"
    using assms(1) by (intro takeWhile_append2) (auto simp: name_text_def)
  then show ?thesis using None t
    by (simp add: host_and_port_def Let_def strncpy_def host_buffer_def)
next
  case (Some ds)
  let ?rest = "h @ CHR '':'' # ds @ CHR ''/'' # path"
  have c: "takeWhile (\<lambda>c. c \<noteq> CHR '':'') ?rest = h"
    using assms(1) by (intro takeWhile_stop) (simp add: name_text_def)
  have "takeWhile (\<lambda>c. c \<noteq> CHR ''/'') ((h @ CHR '':'' # ds) @ CHR ''/'' # path) = h @ CHR '':'' # ds"
    using assms Some by (intro takeWhile_stop) (auto simp: name_text_def)
  then have s: "takeWhile (\<lambda>c. c \<noteq> CHR ''/'') ?rest = h @ CHR '':'' # ds" by simp
  show ?thesis using Some c s assms(2)
    by (auto simp: host_and_port_def Let_def strncpy_def host_buffer_def buf_string_padded buf_string_full)
qed

lemma buf_string_host: "name_text h \<Longrightarrow> length h < MAXHOSTNAMELEN \<Longrightarrow> buf_string (host_buffer h) = Some h"
  by (simp add: host_buffer_def buf_string_padded name_text_def)

lemma raise_version_host [simp]: "proxyhost (raise_version cfg) = proxyhost cfg"
  by (simp add: raise_version_def Let_def)

text \<open>A direct request up to the choice of the host.\<close>

lemma build_request_direct:
  assumes "proxyhost cfg = None" and "length (authority h port) + length path \<le> 1492"
  shows "build_request cfg (''http://'' @ authority h port @ CHR ''/'' # path) =
    (case host_and_port (raise_version cfg) (authority h port @ CHR ''/'' # path) of
       Inl f \<Rightarrow> Inl (Fault f)
     | Inr (cfg', host, target) \<Rightarrow> (case buf_string host of
         None \<Rightarrow> Inl (Fault Host_unterminated)
       | Some h' \<Rightarrow> (case strcats (request_pieces cfg' target h') [] of
           None \<Rightarrow> Inl (Fault Request_overflow)
         | Some request \<Rightarrow>
             Inr (cfg', host, request, [Stdout (CHR 0x0A # ''Request:'' @ CHR 0x0A # request @ [CHR 0x0A])]))))"
proof -
  let ?rest = "authority h port @ CHR ''/'' # path"
  have f: "find_str ''://'' (''http://'' @ ?rest) = Some 4" by simp
  have l: "\<not> 1500 < length (''http://'' @ ?rest)" using assms(2) by simp
  have t: "map toupper (take 7 (''http://'' @ ?rest)) = map toupper ''http://''" by simp
  have d: "drop (4 + 3) (''http://'' @ ?rest) = ?rest" by simp
  show ?thesis
    unfolding build_request_def Let_def raise_version_host assms(1) f option.case d
    using l t by (simp only: if_False not_True_eq_False not_False_eq_True if_True refl)
      (simp add: split: if_splits)
qed

section \<open>Printing a command line\<close>

text \<open>The settings a command line can ask for, and arguments that bring them about.\<close>

definition int32 :: "int \<Rightarrow> bool" where
  "int32 x \<longleftrightarrow> - (2 ^ 31) \<le> x \<and> x < 2 ^ 31"

definition config_ok :: "bench_config \<Rightarrow> bool" where
  "config_ok cfg \<longleftrightarrow> http10 cfg \<in> {0, 1, 2} \<and> req_method cfg \<in> {METHOD_GET, METHOD_HEAD, METHOD_OPTIONS, METHOD_TRACE} \<and>
     force cfg \<in> {0, 1} \<and> force_reload cfg \<in> {0, 1} \<and>
     int32 (clients cfg) \<and> int32 (benchtime cfg) \<and> int32 (proxyport cfg) \<and>
     (case proxyhost cfg of None \<Rightarrow> proxyport cfg = 80 | Some h \<Rightarrow> h \<noteq> [])"

definition config_args :: "bench_config \<Rightarrow> string list" where
  "config_args cfg =
     (if force cfg = 1 then [''--force''] else []) @
     (if force_reload cfg = 1 then [''-r''] else []) @
     [if http10 cfg = 0 then ''-9'' else if http10 cfg = 1 then ''--http10'' else ''--http11''] @
     [if req_method cfg = METHOD_HEAD then ''--head'' else if req_method cfg = METHOD_OPTIONS then ''--options''
      else if req_method cfg = METHOD_TRACE then ''--trace'' else ''--get''] @
     [''--time='' @ show_int (benchtime cfg), ''-c'', show_int (clients cfg)] @
     (case proxyhost cfg of None \<Rightarrow> [] | Some h \<Rightarrow> [''-p'' @ h @ CHR '':'' # show_int (proxyport cfg)]) @
     (if keep_alive cfg then [''-k''] else [])"

lemmas getopt_defs = get_long_def get_short_def with_argument_def long_match_def long_options_def short_options_def

text \<open>One argument at a time.\<close>

lemma option_flags:
  "option_loop ([], ''--force'' # as, ops) cfg = option_loop ([], as, ops) (cfg\<lparr>force := 1\<rparr>)"
  "option_loop ([], ''-r'' # as, ops) cfg = option_loop ([], as, ops) (cfg\<lparr>force_reload := 1\<rparr>)"
  "option_loop ([], ''-9'' # as, ops) cfg = option_loop ([], as, ops) (cfg\<lparr>http10 := 0\<rparr>)"
  "option_loop ([], ''--http10'' # as, ops) cfg = option_loop ([], as, ops) (cfg\<lparr>http10 := 1\<rparr>)"
  "option_loop ([], ''--http11'' # as, ops) cfg = option_loop ([], as, ops) (cfg\<lparr>http10 := 2\<rparr>)"
  "option_loop ([], ''-k'' # as, ops) cfg = option_loop ([], as, ops) (cfg\<lparr>keep_alive := True\<rparr>)"
  by (subst option_loop.simps; simp add: getopt_defs handle_option_def)+

lemma option_methods:
  "option_loop ([], ''--get'' # as, ops) cfg = option_loop ([], as, ops) (cfg\<lparr>req_method := METHOD_GET\<rparr>)"
  "option_loop ([], ''--head'' # as, ops) cfg = option_loop ([], as, ops) (cfg\<lparr>req_method := METHOD_HEAD\<rparr>)"
  "option_loop ([], ''--options'' # as, ops) cfg = option_loop ([], as, ops) (cfg\<lparr>req_method := METHOD_OPTIONS\<rparr>)"
  "option_loop ([], ''--trace'' # as, ops) cfg = option_loop ([], as, ops) (cfg\<lparr>req_method := METHOD_TRACE\<rparr>)"
  by (subst option_loop.simps; simp add: getopt_defs)+

lemma option_values:
  "option_loop ([], (''--time='' @ a) # as, ops) cfg = option_loop ([], as, ops) (cfg\<lparr>benchtime := atoi a\<rparr>)"
  "option_loop ([], ''-c'' # a # as, ops) cfg = option_loop ([], as, ops) (cfg\<lparr>clients := atoi a\<rparr>)"
  by (subst option_loop.simps; simp add: getopt_defs handle_option_def)+

lemma show_int_text: "c \<in> set (show_int i) \<Longrightarrow> c = CHR ''-'' \<or> isdigit c"
  using show_nat_digits by (auto simp: show_int_def split: if_splits)

lemma option_proxy:
  assumes "h \<noteq> []" and "int32 i"
  shows "option_loop ([], (''-p'' @ h @ CHR '':'' # show_int i) # as, ops) cfg =
    option_loop ([], as, ops) (cfg\<lparr>proxyhost := Some h, proxyport := i\<rparr>)"
proof -
  have "\<not> isdigit CHR '':''" by (simp add: isdigit_def)
  then have "CHR '':'' \<notin> set (show_int i)" using show_int_text [of "CHR '':''" i] by auto
  then have r: "rfind_char (CHR '':'') (h @ CHR '':'' # show_int i) = Some (length h)" by (rule rfind_char_append)
  have "show_int i \<noteq> []" using show_nat_nonempty by (simp add: show_int_def)
  then have "proxy_option (h @ CHR '':'' # show_int i) cfg = Inr (cfg\<lparr>proxyhost := Some h, proxyport := i\<rparr>)"
    using assms r by (simp add: proxy_option_def int32_def atoi_show_int)
  then show ?thesis
    by (subst option_loop.simps) (simp add: getopt_defs handle_option_def)
qed

lemma option_operand:
  "\<not> prefix ''-'' url \<Longrightarrow> option_loop ([], [url], ops) cfg = Inr (cfg, ops @ [url])"
  by (subst option_loop.simps) (cases url; auto)

lemmas option_steps = option_flags option_methods option_values option_proxy option_operand

lemma config_eq: "\<lparr>http10 = http10 c, req_method = req_method c, clients = clients c, force = force c,
    force_reload = force_reload c, proxyport = proxyport c, proxyhost = proxyhost c, benchtime = benchtime c,
    keep_alive = keep_alive c\<rparr> = c"
  by simp

lemma options_roundtrip_lemma:
  assumes "config_ok cfg" and "\<not> prefix ''-'' url"
  shows "option_loop ([], config_args cfg @ [url], []) default_config = Inr (cfg, [url])"
proof -
  obtain v m c f r p ph t k where cfg: "cfg = \<lparr>http10 = v, req_method = m, clients = c, force = f, force_reload = r,
      proxyport = p, proxyhost = ph, benchtime = t, keep_alive = k\<rparr>" by (cases cfg) auto
  have n: "atoi (show_int t) = t" "atoi (show_int c) = c"
    using assms(1) by (auto simp: cfg config_ok_def int32_def intro: atoi_show_int)
  show ?thesis
  proof (cases ph)
    case None
    then have "p = 80" using assms(1) by (simp add: cfg config_ok_def)
    then show ?thesis using assms n None
      by (auto simp: cfg config_ok_def config_args_def default_config_def method_codes
          option_steps [simplified method_codes, simplified])
  next
    case (Some h)
    then show ?thesis using assms n
      by (auto simp: cfg config_ok_def config_args_def default_config_def method_codes
          option_steps [simplified method_codes, simplified])
  qed
qed

section \<open>Properties of the command line and the request\<close>

lemma with_port_host [simp]: "proxyhost (with_port port cfg) = proxyhost cfg"
  by (cases port) simp_all

lemma host_buffer_full: "name_text h \<Longrightarrow> length h = MAXHOSTNAMELEN \<Longrightarrow> buf_string (host_buffer h) = None"
  by (simp add: host_buffer_def buf_string_full name_text_def)

lemma direct_request_fits:
  assumes "length (authority h port) + length path \<le> 1492"
  shows "strcats (request_pieces cfg (CHR ''/'' # path) h) [] = Some (concat (request_pieces cfg (CHR ''/'' # path) h))"
proof -
  have "length h \<le> length (authority h port)" by (cases port) simp_all
  then have "length (concat (request_pieces cfg (CHR ''/'' # path) h)) < REQUEST_SIZE"
    using request_pieces_length [of cfg "CHR ''/'' # path" h] assms by (simp add: REQUEST_SIZE_def)
  then show ?thesis using strcats_concat [of "[]" "request_pieces cfg (CHR ''/'' # path) h"] by simp
qed

text \<open>
  C22 (functional, every branch of a direct request). For a URL of the permitted length the
  arrays decide: a host of more than 64 characters is copied out of its array, one of 64 leaves
  it without a NUL, and the same holds for a port text and its 10 characters; below these
  bounds the request is the concatenation of its parts, for the host and target of the URL,
  and a port that is not a number or 0 is port 80.
\<close>

theorem build_request_cases:
  assumes "name_text h" and "port_text port" and "proxyhost cfg = None"
    and "length (authority h port) + length path \<le> 1492"
  shows "build_request cfg (''http://'' @ authority h port @ CHR ''/'' # path) =
    (if 64 < length h then Inl (Fault Host_overflow)
     else if 10 < port_length port then Inl (Fault Port_overflow)
     else if port_length port = 10 then Inl (Fault Port_unterminated)
     else if length h = 64 then Inl (Fault Host_unterminated)
     else let cfg' = with_port port (raise_version cfg);
              request = concat (request_pieces cfg' (CHR ''/'' # path) h)
          in Inr (cfg', host_buffer h, request,
               [Stdout (CHR 0x0A # ''Request:'' @ CHR 0x0A # request @ [CHR 0x0A])]))"
proof -
  have m: "MAXHOSTNAMELEN = 64" by (simp add: MAXHOSTNAMELEN_def)
  have "\<not> 64 < length h \<Longrightarrow> length h \<noteq> 64 \<Longrightarrow> buf_string (host_buffer h) = Some h"
    using buf_string_host [OF assms(1)] by (simp add: m)
  moreover have "length h = 64 \<Longrightarrow> buf_string (host_buffer h) = None"
    using host_buffer_full [OF assms(1)] by (simp add: m)
  ultimately show ?thesis
    unfolding build_request_direct [OF assms(3,4)] host_and_port_eq [OF assms(1,2)] m
    using direct_request_fits [OF assms(4)] by (simp add: Let_def)
qed

lemma request_too_long: "strcats (request_pieces cfg target h) [] = None \<Longrightarrow> 1948 \<le> length target + length h"
  using request_pieces_length [of cfg target h] strcats_concat [of "[]" "request_pieces cfg target h"]
  by (cases "length target + length h < 1948") (simp_all add: REQUEST_SIZE_def)

lemma host_and_port_fault: "host_and_port cfg rest \<noteq> Inl Request_overflow"
  by (auto simp: host_and_port_def Let_def split: option.splits)

text \<open>
  C23 (bounds). Whatever the settings and the URL, no \<open>strcat\<close> leaves the request's 2048 bytes;
  the check of the URL's length is enough. A request that was built leaves a host with its NUL.
\<close>

theorem request_never_overflows:
  "case build_request cfg url of
     Inl (Fault f) \<Rightarrow> f \<noteq> Request_overflow
   | Inl (Exit code out) \<Rightarrow> code = 2
   | Inr (cfg', host, request, out) \<Rightarrow> length request < REQUEST_SIZE \<and> length host = MAXHOSTNAMELEN \<and> CHR 0x00 \<in> set host"
proof -
  have host: "CHR 0x00 \<in> set host" if "buf_string host = Some h" for host h
    using that by (simp add: buf_string_def split: if_splits)
  show ?thesis
  proof (cases "build_request cfg url")
    case (Inr r)
    then obtain cfg' host request out where r: "build_request cfg url = Inr (cfg', host, request, out)" by (cases r) auto
    then obtain target h c where q: "buf_string host = Some h" "length host = MAXHOSTNAMELEN"
      "strcats (request_pieces c target h) [] = Some request"
      by (auto simp: build_request_def Let_def split: option.splits if_splits sum.splits
          dest!: host_and_port_sizes)
    have "length ([] :: string) < REQUEST_SIZE" by (simp add: REQUEST_SIZE_def)
    with strcats_Some [OF q(3)] have "length request < REQUEST_SIZE" by blast
    then show ?thesis using r q(2) host [OF q(1)] by simp
  next
    case (Inl e)
    show ?thesis
    proof (cases e)
      case (Exit code out)
      then show ?thesis using Inl
        by (auto simp: build_request_def Let_def split: option.splits if_splits sum.splits)
    next
      case (Fault f)
      have "f \<noteq> Request_overflow"
      proof
        assume "f = Request_overflow"
        then have "build_request cfg url = Inl (Fault Request_overflow)" using Inl Fault by simp
        then show False
          by (auto simp: build_request_def Let_def host_and_port_fault MAXHOSTNAMELEN_def
              split: option.splits if_splits sum.splits
              dest!: host_and_port_sizes buf_string_length request_too_long)
      qed
      then show ?thesis using Inl Fault by simp
    qed
  qed
qed

text \<open>
  C21 (round trip). Any settings the options can express are brought about by the arguments
  printed from them, and the URL after them is the one operand.
\<close>

theorem options_roundtrip:
  assumes "config_ok cfg" and "\<not> prefix ''-'' url"
  shows "option_loop ([], config_args cfg @ [url], []) default_config = Inr (cfg, [url])"
  by (rule options_roundtrip_lemma [OF assms])

text \<open>A host of 64 letters, and settings with a proxy.\<close>

lemma build_request_cases_witness:
  "build_request default_config (''http://'' @ authority (replicate 64 (CHR ''a'')) None @ CHR ''/'' # []) =
    Inl (Fault Host_unterminated)"
  using build_request_cases [of "replicate 64 (CHR ''a'')" None default_config "[]"]
  by (simp add: name_text_def default_config_def)

lemma options_roundtrip_witness:
  "option_loop ([], config_args \<lparr>http10 = 2, req_method = METHOD_HEAD, clients = 5, force = 1, force_reload = 0,
     proxyport = 3128, proxyhost = Some ''proxy'', benchtime = 10, keep_alive = True\<rparr> @ [''http://a/''], []) default_config =
   Inr (\<lparr>http10 = 2, req_method = METHOD_HEAD, clients = 5, force = 1, force_reload = 0,
     proxyport = 3128, proxyhost = Some ''proxy'', benchtime = 10, keep_alive = True\<rparr>, [''http://a/''])"
  by (rule options_roundtrip) (simp_all add: config_ok_def int32_def)

end
