(* ===== verification/Bench_Core.thy ===== *)
theory Bench_Core
  imports Web_Bench
begin

text \<open>
  The running part of the load generator (WebBench/webbench.c, WebBench/socket.c): \<open>Socket\<close>,
  the loops of \<open>benchcore\<close>, \<open>bench\<close> with its children and the pipe, and \<open>main\<close>. The network, the
  alarm and the processes answer through a record of functions of the events so far. The
  loops end when the alarm has rung, so they have fuel; \<open>None\<close> is a run that used it up. Every call of the
  network answers; of the calls of the parent the reading of the pipe may not (\<open>Waits_forever\<close>). The
  counters wrap, as the addition of two's complement numbers does.
  The locale \<open>polled_loop\<close> is what the loops with and without \<open>--keep\<close> have in common, and the accounting
  of the counters is proved in it once.
\<close>

section \<open>The network\<close>

datatype net_event =
    NvResolve string "32 word option"
  | NvSocket int
  | NvConnect int "32 word" "16 word" int
  | NvWrite int string int
  | NvRead int int
  | NvShutdown int int
  | NvClose int int
  | NvTimer bool
  | NvAlarm int
  | NvPipe bool
  | NvFork int

record net =
  n_inet_addr :: "string \<Rightarrow> 32 word"
  n_hostent :: "net_event list \<Rightarrow> string \<Rightarrow> 32 word option"
  n_socket :: "net_event list \<Rightarrow> int"
  n_connect :: "net_event list \<Rightarrow> int \<Rightarrow> int"
  n_write :: "net_event list \<Rightarrow> int \<Rightarrow> string \<Rightarrow> int"
  n_read :: "net_event list \<Rightarrow> int \<Rightarrow> int"
  n_shutdown :: "net_event list \<Rightarrow> int \<Rightarrow> int"
  n_close :: "net_event list \<Rightarrow> int \<Rightarrow> int"
  n_timer :: "net_event list \<Rightarrow> bool"
    \<comment> \<open>the value of \<open>timerexpired\<close> when it is read\<close>
  n_sigaction :: bool
    \<comment> \<open>whether the handler could be installed\<close>
  n_pipe :: "net_event list \<Rightarrow> bool"
  n_fork :: "net_event list \<Rightarrow> int"
  n_fdopen :: "net_event list \<Rightarrow> bool"
  n_pipe_text :: "net_event list \<Rightarrow> string"
    \<comment> \<open>what the children wrote into the pipe\<close>

record bench_state =
  speed :: int
  failed :: int
  bytes :: int
  net_log :: "net_event list"

definition start_state :: bench_state where
  "start_state = \<lparr>speed = 0, failed = 0, bytes = 0, net_log = []\<rparr>"

definition record_event :: "net_event \<Rightarrow> bench_state \<Rightarrow> bench_state" where
  "record_event e st = st\<lparr>net_log := net_log st @ [e]\<rparr>"

definition net_write :: "net \<Rightarrow> int \<Rightarrow> string \<Rightarrow> bench_state \<Rightarrow> int \<times> bench_state" where
  "net_write net s req st = (let r = n_write net (net_log st) s req in (r, record_event (NvWrite s req r) st))"

definition net_read :: "net \<Rightarrow> int \<Rightarrow> bench_state \<Rightarrow> int \<times> bench_state" where
  "net_read net s st = (let r = n_read net (net_log st) s in (r, record_event (NvRead s r) st))"

definition net_shutdown :: "net \<Rightarrow> int \<Rightarrow> bench_state \<Rightarrow> int \<times> bench_state" where
  "net_shutdown net s st = (let r = n_shutdown net (net_log st) s in (r, record_event (NvShutdown s r) st))"

definition net_close :: "net \<Rightarrow> int \<Rightarrow> bench_state \<Rightarrow> int \<times> bench_state" where
  "net_close net s st = (let r = n_close net (net_log st) s in (r, record_event (NvClose s r) st))"

definition poll_timer :: "net \<Rightarrow> bench_state \<Rightarrow> bool \<times> bench_state" where
  "poll_timer net st = (let r = n_timer net (net_log st) in (r, record_event (NvTimer r) st))"

definition net_socket :: "net \<Rightarrow> bench_state \<Rightarrow> int \<times> bench_state" where
  "net_socket net st = (let r = n_socket net (net_log st) in (r, record_event (NvSocket r) st))"

definition net_connect :: "net \<Rightarrow> int \<Rightarrow> 32 word \<Rightarrow> 16 word \<Rightarrow> bench_state \<Rightarrow> int \<times> bench_state" where
  "net_connect net s addr port st =
     (let r = n_connect net (net_log st) s in (r, record_event (NvConnect s addr port r) st))"

lemmas net_calls [os_calls] = net_write_def net_read_def net_shutdown_def net_close_def poll_timer_def
  net_socket_def net_connect_def

section \<open>Socket\<close>

definition INADDR_NONE :: "32 word" where
  "INADDR_NONE = 0xFFFFFFFF"

text \<open>\<open>Socket\<close> of WebBench/socket.c: a dotted address, or a name that is looked up.\<close>

definition Socket_to :: "net \<Rightarrow> string \<Rightarrow> int \<Rightarrow> bench_state \<Rightarrow> int \<times> bench_state" where
  "Socket_to net host clientPort st =
     (let inaddr = n_inet_addr net host;
          addr = (if inaddr \<noteq> INADDR_NONE then Some inaddr else n_hostent net (net_log st) host);
          st1 = record_event (NvResolve host addr) st
      in case addr of
           None \<Rightarrow> (-1, st1)
         | Some a \<Rightarrow>
             (case net_socket net st1 of (sock, st2) \<Rightarrow>
                if sock < 0 then (sock, st2)
                else (case net_connect net sock a (htons (word_of_int clientPort)) st2 of (c, st3) \<Rightarrow>
                  if c < 0 then (-1, snd (net_close net sock st3)) else (sock, st3))))"

section \<open>The loops\<close>

definition add_failed :: "bench_state \<Rightarrow> bench_state" where
  "add_failed st = st\<lparr>failed := to_int (failed st + 1)\<rparr>"

definition add_page :: "bench_state \<Rightarrow> bench_state" where
  "add_page st = st\<lparr>speed := to_int (speed st + 1)\<rparr>"

definition add_bytes :: "int \<Rightarrow> bench_state \<Rightarrow> bench_state" where
  "add_bytes i st = st\<lparr>bytes := to_int (bytes st + i)\<rparr>"

text \<open>What the loops do when they find the alarm rung: the last failure is put down to it.\<close>

definition correct_failed :: "bench_state \<Rightarrow> bench_state" where
  "correct_failed st = (if 0 < failed st then st\<lparr>failed := failed st - 1\<rparr> else st)"

text \<open>
  Reading a reply to its end; \<open>False\<close> when a read failed and the socket was closed. Every call answers here.
  A \<open>read\<close> that starts after the flag was tested and the alarm has rung is not interrupted any more; where
  the server never answers it would not return.
\<close>

fun read_reply :: "net \<Rightarrow> nat \<Rightarrow> int \<Rightarrow> bench_state \<Rightarrow> (bool \<times> bench_state) option" where
  "read_reply net 0 s st = None"
| "read_reply net (Suc n) s st =
     (case poll_timer net st of (expired, st1) \<Rightarrow>
        if expired then Some (True, st1)
        else (case net_read net s st1 of (i, st2) \<Rightarrow>
          if i < 0 then Some (False, snd (net_close net s (add_failed st2)))
          else if i = 0 then Some (True, st2)
          else read_reply net n s (add_bytes i st2)))"

text \<open>A connection for every request.\<close>

fun close_loop :: "net \<Rightarrow> bench_config \<Rightarrow> string \<Rightarrow> int \<Rightarrow> string \<Rightarrow> nat \<Rightarrow> bench_state \<Rightarrow> bench_state option" where
  "close_loop net cfg host port req 0 st = None"
| "close_loop net cfg host port req (Suc n) st =
     (case poll_timer net st of (expired, st1) \<Rightarrow>
        if expired then Some (correct_failed st1)
        else (case Socket_to net host port st1 of (s, st2) \<Rightarrow>
          if s < 0 then close_loop net cfg host port req n (add_failed st2)
          else (case net_write net s req st2 of (r, st3) \<Rightarrow>
            if int (length req) \<noteq> r
            then close_loop net cfg host port req n (snd (net_close net s (add_failed st3)))
            else (case (if http10 cfg = 0 then net_shutdown net s st3 else (0, st3)) of (q, st4) \<Rightarrow>
              if q \<noteq> 0 then close_loop net cfg host port req n (snd (net_close net s (add_failed st4)))
              else (case (if force cfg = 0 then read_reply net n s st4 else Some (True, st4)) of
                  None \<Rightarrow> None
                | Some (False, st5) \<Rightarrow> close_loop net cfg host port req n st5
                | Some (True, st5) \<Rightarrow>
                    (case net_close net s st5 of (c, st6) \<Rightarrow>
                       if c \<noteq> 0 then close_loop net cfg host port req n (add_failed st6)
                       else close_loop net cfg host port req n (add_page st6)))))))"

text \<open>\<open>while ((s = Socket(host,port)) == -1)\<close>: the alarm is not looked at.\<close>

fun connect_loop :: "net \<Rightarrow> string \<Rightarrow> int \<Rightarrow> nat \<Rightarrow> bench_state \<Rightarrow> (int \<times> bench_state) option" where
  "connect_loop net host port 0 st = None"
| "connect_loop net host port (Suc n) st =
     (case Socket_to net host port st of (s, st1) \<Rightarrow>
        if s = -1 then connect_loop net host port n st1 else Some (s, st1))"

text \<open>One connection for all requests: a single read, and no new connection when it fails.\<close>

fun keep_loop :: "net \<Rightarrow> bench_config \<Rightarrow> string \<Rightarrow> int \<Rightarrow> string \<Rightarrow> nat \<Rightarrow> int \<Rightarrow> bench_state \<Rightarrow> bench_state option" where
  "keep_loop net cfg host port req 0 s st = None"
| "keep_loop net cfg host port req (Suc n) s st =
     (case poll_timer net st of (expired, st1) \<Rightarrow>
        if expired then Some (correct_failed st1)
        else if s < 0 then keep_loop net cfg host port req n s (add_failed st1)
        else (case net_write net s req st1 of (r, st2) \<Rightarrow>
          if int (length req) \<noteq> r then
            (case connect_loop net host port n (snd (net_close net s (add_failed st2))) of
               None \<Rightarrow> None
             | Some (s', st3) \<Rightarrow> keep_loop net cfg host port req n s' st3)
          else if force cfg = 0 then
            (case poll_timer net st2 of (expired2, st3) \<Rightarrow>
               if expired2 then keep_loop net cfg host port req n s (add_page st3)
               else (case net_read net s st3 of (i, st4) \<Rightarrow>
                 if i < 0 then keep_loop net cfg host port req n s (snd (net_close net s (add_failed st4)))
                 else if i = 0 then keep_loop net cfg host port req n s (add_page st4)
                 else keep_loop net cfg host port req n s (add_page (add_bytes i st4))))
          else keep_loop net cfg host port req n s (add_page st2)))"

text \<open>\<open>Inl\<close> is the status of an \<open>exit\<close>.\<close>

definition benchcore :: "net \<Rightarrow> bench_config \<Rightarrow> string \<Rightarrow> int \<Rightarrow> string \<Rightarrow> nat \<Rightarrow> bench_state \<Rightarrow> (int + bench_state) option" where
  "benchcore net cfg host port req fuel st =
     (if \<not> n_sigaction net then Some (Inl 3)
      else
        (let st1 = record_event (NvAlarm (benchtime cfg)) st in
         map_option Inr
           (if keep_alive cfg then
              (case connect_loop net host port fuel st1 of
                 None \<Rightarrow> None
               | Some (s, st2) \<Rightarrow> keep_loop net cfg host port req fuel s st2)
            else close_loop net cfg host port req fuel st1)))"


section \<open>Children and parent\<close>

text \<open>The line a child writes.\<close>

definition report_line :: "int \<Rightarrow> int \<Rightarrow> int \<Rightarrow> string" where
  "report_line sp fl by = show_int sp @ '' '' @ show_int fl @ '' '' @ show_int by @ [CHR 0x0A]"

text \<open>
  \<open>fscanf\<close> of one number from the pipe. \<open>held\<close> says that some process still holds the write end of the
  pipe. Then a read past the bytes the children write does not return: neither does one that needs the byte
  behind the last digit. Only when no process holds the write end is the end of the bytes the end of the
  file. What a failed conversion leaves is the text behind the blanks and a sign.
\<close>

datatype scanned = Waiting | Ended | Mismatch string | Number int string

definition scan_int :: "bool \<Rightarrow> string \<Rightarrow> scanned" where
  "scan_int held s =
     (let t = dropWhile isspace s;
          u = (if t \<noteq> [] \<and> (hd t = CHR ''-'' \<or> hd t = CHR ''+'') then tl t else t);
          ds = takeWhile isdigit u;
          rest = dropWhile isdigit u
      in if rest = [] \<and> held then Waiting
         else if t = [] then Ended
         else if ds = [] then Mismatch rest
         else Number (to_int (strtol_clamp ((if hd t = CHR ''-'' then -1 else 1) * int (digits_val ds)))) rest)"

text \<open>
  \<open>fscanf(f, "%d %d %d", &i, &j, &k)\<close>: its answer, the three variables and the rest of the text;
  \<open>None\<close> when the call never returns. The end of the file before the first number is \<open>EOF\<close>, -1.
\<close>

definition fscanf3 :: "bool \<Rightarrow> string \<Rightarrow> int \<times> int \<times> int \<Rightarrow> (int \<times> (int \<times> int \<times> int) \<times> string) option" where
  "fscanf3 held s v = (case v of (i, j, k) \<Rightarrow>
     (case scan_int held s of
        Waiting \<Rightarrow> None
      | Ended \<Rightarrow> Some (-1, (i, j, k), [])
      | Mismatch r \<Rightarrow> Some (0, (i, j, k), r)
      | Number i' s1 \<Rightarrow> (case scan_int held s1 of
          Waiting \<Rightarrow> None
        | Ended \<Rightarrow> Some (1, (i', j, k), [])
        | Mismatch r \<Rightarrow> Some (1, (i', j, k), r)
        | Number j' s2 \<Rightarrow> (case scan_int held s2 of
            Waiting \<Rightarrow> None
          | Ended \<Rightarrow> Some (2, (i', j', k), [])
          | Mismatch r \<Rightarrow> Some (2, (i', j', k), r)
          | Number k' s3 \<Rightarrow> Some (3, (i', j', k'), s3)))))"

lemma scan_int_shorter:
  assumes "scan_int held s = Number x s' \<or> scan_int held s = Mismatch s'"
  shows "length s' \<le> length s" and "scan_int held s = Number x s' \<Longrightarrow> length s' < length s"
proof -
  define t where "t = dropWhile isspace s"
  define u where "u = (if t \<noteq> [] \<and> (hd t = CHR ''-'' \<or> hd t = CHR ''+'') then tl t else t)"
  have le: "length u \<le> length s" using length_dropWhile_le [of isspace s] by (auto simp: u_def t_def)
  have s': "s' = dropWhile isdigit u"
    using assms by (auto simp: scan_int_def t_def u_def Let_def split: if_splits)
  then show "length s' \<le> length s" using le length_dropWhile_le [of isdigit u] by simp
  assume "scan_int held s = Number x s'"
  then have "takeWhile isdigit u \<noteq> []" by (auto simp: scan_int_def t_def u_def Let_def split: if_splits)
  then have "length s' < length u"
    by (metis s' append_self_conv2 length_dropWhile_le nat_less_le takeWhile_dropWhile_id same_append_eq
        length_append add_cancel_right_left length_0_conv)
  then show "length s' < length s" using le by simp
qed

lemma fscanf3_shorter:
  assumes "fscanf3 held s v = Some (r, v', s')" and "2 \<le> r"
  shows "length s' < length s"
proof -
  obtain i s1 where 1: "scan_int held s = Number i s1"
    using assms by (cases v) (auto simp: fscanf3_def split: scanned.splits)
  obtain j s2 where 2: "scan_int held s1 = Number j s2"
    using assms 1 by (cases v) (auto simp: fscanf3_def split: scanned.splits)
  have "length s' \<le> length s2"
    using assms 1 2 scan_int_shorter(1) [of held s2] by (cases v) (auto simp: fscanf3_def split: scanned.splits)
  then show ?thesis using scan_int_shorter(2) [of held s i s1] scan_int_shorter(2) [of held s1 j s2] 1 2 by simp
qed

text \<open>
  The loop of the parent over the pipe: \<open>v\<close> is \<open>i\<close>, \<open>j\<close>, \<open>k\<close>. The answer is the final counters,
  \<open>i\<close>, and whether it complained of dead children; \<open>None\<close> when a read of the pipe never returns.
\<close>

function collect :: "bool \<Rightarrow> string \<Rightarrow> int \<Rightarrow> int \<times> int \<times> int \<Rightarrow> int \<times> int \<times> int \<Rightarrow>
    ((int \<times> int \<times> int) \<times> int \<times> bool) option" where
  "collect held s cl v (sp, fl, by) =
     (case fscanf3 held s v of
        None \<Rightarrow> None
      | Some (r, (i, j, k), s') \<Rightarrow>
          if r < 2 then Some ((sp, fl, by), i, True)
          else (let t = (to_int (sp + i), to_int (fl + j), to_int (by + k))
                in if cl - 1 = 0 then Some (t, i, False) else collect held s' (cl - 1) (i, j, k) t))"
  by pat_completeness auto
termination collect
  by (relation "measure (\<lambda>(held, s, cl, v, t). length s)") (auto dest: fscanf3_shorter)

declare collect.simps [simp del]

text \<open>The loop over \<open>fork\<close>, from child \<open>i\<close> on: the number it stopped at and the last answer.\<close>

function fork_loop :: "net \<Rightarrow> int \<Rightarrow> int \<Rightarrow> int \<Rightarrow> bench_state \<Rightarrow> int \<times> int \<times> bench_state" where
  "fork_loop net cl i pid st =
     (if i < cl then
        (let pid' = n_fork net (net_log st); st' = record_event (NvFork pid') st
         in if pid' \<le> 0 then (i, pid', st') else fork_loop net cl (i + 1) pid' st')
      else (i, pid, st))"
  by pat_completeness auto
termination fork_loop
  by (relation "measure (\<lambda>(net, cl, i, pid, st). nat (cl - i))") auto

declare fork_loop.simps [simp del]

text \<open>
  \<open>bench\<close>: the status it returns, what it prints, and what it writes into the pipe as a child.
  The two rates of the last line are computed in single precision floating point; \<open>rates\<close> stands for
  that computation. \<open>junk\<close> is what the memory of \<open>j\<close> and \<open>k\<close> holds. \<open>pipe\<close> leaves both ends
  open; \<open>mypipe_1_open\<close> says so of the write end in the parent, where no statement closes it before the
  reports are read. \<open>n_pipe_text\<close> is all the children ever write. \<open>None\<close> is a child whose fuel does not
  suffice, \<open>Waits_forever\<close> a parent whose \<open>fscanf\<close> never returns.
\<close>

record bench_result =
  status :: int
  printed :: "printed list"
  piped :: string

datatype bench_end = Returns bench_result | Waits_forever

definition return_with :: "int \<Rightarrow> printed list \<Rightarrow> bench_result" where
  "return_with i out = \<lparr>status = i, printed = out, piped = []\<rparr>"

definition parent_report :: "(int \<Rightarrow> int \<Rightarrow> int \<Rightarrow> int \<Rightarrow> int \<times> int) \<Rightarrow> int \<Rightarrow> int \<times> int \<times> int \<Rightarrow> string" where
  "parent_report rates btime t = (case t of (sp, fl, by) \<Rightarrow> (case rates sp fl by btime of (per_min, per_sec) \<Rightarrow>
     CHR 0x0A # ''Speed='' @ show_int per_min @ '' pages/min, '' @ show_int per_sec @ '' bytes/sec.'' @ CHR 0x0A #
     ''Requests: '' @ show_int sp @ '' susceed, '' @ show_int fl @ '' failed.'' @ [CHR 0x0A]))"

type_synonym rates = "int \<Rightarrow> int \<Rightarrow> int \<Rightarrow> int \<Rightarrow> int \<times> int"

definition bench :: "rates \<Rightarrow> int \<times> int \<Rightarrow> net \<Rightarrow> bench_config \<Rightarrow> string \<Rightarrow> string \<Rightarrow> nat \<Rightarrow> bench_state \<Rightarrow>
    bench_end option" where
  "bench rates junk net cfg host request fuel st =
     (let server = (case proxyhost cfg of None \<Rightarrow> host | Some p \<Rightarrow> p) in
      case Socket_to net server (proxyport cfg) st of (i, st1) \<Rightarrow>
        if i < 0 then
          Some (Returns (return_with 1 [Stderr (CHR 0x0A # ''Connect to server failed. Aborting benchmark.'' @ [CHR 0x0A])]))
        else
          (let st2 = snd (net_close net i st1);
               piped_ok = n_pipe net (net_log st2);
               mypipe_1_open = True;
               st3 = record_event (NvPipe piped_ok) st2
           in if \<not> piped_ok then Some (Returns (return_with 3 [Perror ''pipe failed.'']))
              else (case fork_loop net (clients cfg) 0 0 st3 of (i, pid, st4) \<Rightarrow>
                if pid < 0 then
                  Some (Returns (return_with 3
                    [Stderr (''problems forking worker no. '' @ show_int i @ [CHR 0x0A]), Perror ''fork failed.'']))
                else if pid = 0 then
                  (case benchcore net cfg server (proxyport cfg) request fuel st4 of
                     None \<Rightarrow> None
                   | Some (Inl code) \<Rightarrow> Some (Returns (return_with code []))
                   | Some (Inr st5) \<Rightarrow>
                       if \<not> n_fdopen net (net_log st5)
                       then Some (Returns (return_with 3 [Perror ''open pipe for writing failed.'']))
                       else Some (Returns \<lparr>status = 0, printed = [],
                         piped = report_line (speed st5) (failed st5) (bytes st5)\<rparr>))
                else if \<not> n_fdopen net (net_log st4)
                then Some (Returns (return_with 3 [Perror ''open pipe for reading failed.'']))
                else
                  (case collect mypipe_1_open (n_pipe_text net (net_log st4)) (clients cfg) (i, junk) (0, 0, 0) of
                     None \<Rightarrow> Some Waits_forever
                   | Some (t, i', died) \<Rightarrow>
                       Some (Returns (return_with i'
                         ((if died then [Stderr (''Some of our childrens died.'' @ [CHR 0x0A])] else []) @
                          [Stdout (parent_report rates (benchtime cfg) t)])))))))"

section \<open>main\<close>

definition copyright :: string where
  "copyright = ''Webbench - Simple Web Benchmark '' @ PROGRAM_VERSION @ [CHR 0x0A] @
     ''Copyright (c) Radim Kolar 1997-2004, GPL Open Source Software.'' @ [CHR 0x0A]"

definition running_info :: "bench_config \<Rightarrow> string" where
  "running_info cfg = ''Runing info: '' @
     (if clients cfg = 1 then ''1 client'' else show_int (clients cfg) @ '' clients'') @
     '', running '' @ show_int (benchtime cfg) @ '' sec'' @
     (if force cfg \<noteq> 0 then '', early socket close'' else []) @
     (case proxyhost cfg of None \<Rightarrow> [] | Some p \<Rightarrow> '', via proxy server '' @ p @ '':'' @ show_int (proxyport cfg)) @
     (if force_reload cfg \<noteq> 0 then '', forcing reload'' else []) @ ''.'' @ [CHR 0x0A]"

text \<open>\<open>main\<close> up to the call of \<open>bench\<close>: the settings, the array \<open>host\<close>, the request and what was printed.\<close>

definition bench_setup :: "string list \<Rightarrow> bench_stop + bench_config \<times> string \<times> string \<times> printed list" where
  "bench_setup argv =
     (if length argv = 1 then Inl (Exit 2 [Stderr usage])
      else (case option_loop ([], tl argv, []) default_config of
        Inl e \<Rightarrow> Inl e
      | Inr (cfg, ops) \<Rightarrow>
          (case ops of
             [] \<Rightarrow> Inl (Exit 2 [Stderr (''webbench: Missing URL!'' @ [CHR 0x0A]), Stderr usage])
           | url # _ \<Rightarrow>
               (let cfg1 = (if clients cfg = 0 then cfg\<lparr>clients := 1\<rparr> else cfg);
                    cfg2 = (if benchtime cfg1 = 0 then cfg1\<lparr>benchtime := 30\<rparr> else cfg1)
                in case build_request cfg2 url of
                     Inl (Exit code out) \<Rightarrow> Inl (Exit code (Stderr copyright # out))
                   | Inl (Fault f) \<Rightarrow> Inl (Fault f)
                   | Inr (cfg3, host, request, out) \<Rightarrow>
                       Inr (cfg3, host, request, Stderr copyright # out @ [Stdout (running_info cfg3)])))))"

definition webbench_main :: "rates \<Rightarrow> int \<times> int \<Rightarrow> net \<Rightarrow> nat \<Rightarrow> string list \<Rightarrow> (memory_fault + bench_end) option" where
  "webbench_main rates junk net fuel argv =
     (case bench_setup argv of
        Inl (Exit code out) \<Rightarrow> Some (Inr (Returns (return_with code out)))
      | Inl (Fault f) \<Rightarrow> Some (Inl f)
      | Inr (cfg, host, request, out) \<Rightarrow>
          map_option (\<lambda>e. Inr (case e of
              Returns r \<Rightarrow> Returns (r\<lparr>printed := out @ printed r\<rparr>)
            | Waits_forever \<Rightarrow> Waits_forever))
            (bench rates junk net cfg (c_str host) request fuel start_state))"

section \<open>What the events of a run add up to\<close>

fun polls :: "net_event list \<Rightarrow> nat" where
  "polls [] = 0"
| "polls (NvTimer b # es) = Suc (polls es)"
| "polls (_ # es) = polls es"

text \<open>One look-up is made for every call of \<open>Socket\<close>.\<close>

fun attempts :: "net_event list \<Rightarrow> nat" where
  "attempts [] = 0"
| "attempts (NvResolve h a # es) = Suc (attempts es)"
| "attempts (_ # es) = attempts es"

fun writes :: "net_event list \<Rightarrow> nat" where
  "writes [] = 0"
| "writes (NvWrite s d r # es) = Suc (writes es)"
| "writes (_ # es) = writes es"

fun received :: "net_event list \<Rightarrow> int" where
  "received [] = 0"
| "received (NvRead s i # es) = (if 0 < i then i else 0) + received es"
| "received (_ # es) = received es"

fun opened_by :: "net_event list \<Rightarrow> int list" where
  "opened_by [] = []"
| "opened_by (NvSocket r # es) = (if 0 \<le> r then [r] else []) @ opened_by es"
| "opened_by (_ # es) = opened_by es"

fun closed_by :: "net_event list \<Rightarrow> int list" where
  "closed_by [] = []"
| "closed_by (NvClose s r # es) = s # closed_by es"
| "closed_by (_ # es) = closed_by es"

lemma event_sums_append [simp]:
  "polls (xs @ ys) = polls xs + polls ys"
  "attempts (xs @ ys) = attempts xs + attempts ys"
  "writes (xs @ ys) = writes xs + writes ys"
  "received (xs @ ys) = received xs + received ys"
  "opened_by (xs @ ys) = opened_by xs @ opened_by ys"
  "closed_by (xs @ ys) = closed_by xs @ closed_by ys"
proof -
  show "polls (xs @ ys) = polls xs + polls ys" by (induction xs rule: polls.induct) auto
  show "attempts (xs @ ys) = attempts xs + attempts ys" by (induction xs rule: attempts.induct) auto
  show "writes (xs @ ys) = writes xs + writes ys" by (induction xs rule: writes.induct) auto
  show "received (xs @ ys) = received xs + received ys" by (induction xs rule: received.induct) auto
  show "opened_by (xs @ ys) = opened_by xs @ opened_by ys" by (induction xs rule: opened_by.induct) auto
  show "closed_by (xs @ ys) = closed_by xs @ closed_by ys" by (induction xs rule: closed_by.induct) auto
qed

lemma to_int_add [simp]: "to_int (to_int x + y) = to_int (x + y)"
proof -
  have "take_bit (Suc 31) (signed_take_bit 31 x + y) = take_bit (Suc 31) (x + y)"
    using take_bit_add [of "Suc 31" "signed_take_bit 31 x" y] take_bit_add [of "Suc 31" x y]
    by (simp add: take_bit_signed_take_bit)
  then show ?thesis by (simp add: to_int_def signed_take_bit_eq_iff_take_bit_eq)
qed

lemma to_int_idem [simp]: "to_int (to_int x) = to_int x"
  using to_int_add [of x 0] by simp

text \<open>
  A step of the counters: \<open>dp\<close> pages and \<open>df\<close> failures more, and the bytes that were received.
\<close>

definition in_range :: "bench_state \<Rightarrow> bool" where
  "in_range st \<longleftrightarrow> to_int (speed st) = speed st \<and> to_int (failed st) = failed st \<and> to_int (bytes st) = bytes st"

definition counts :: "bench_state \<Rightarrow> net_event list \<Rightarrow> int \<Rightarrow> int \<Rightarrow> bench_state \<Rightarrow> bool" where
  "counts st es dp df st' \<longleftrightarrow> net_log st' = net_log st @ es \<and> to_int (speed st') = to_int (speed st + dp) \<and>
     to_int (failed st') = to_int (failed st + df) \<and> to_int (bytes st') = to_int (bytes st + received es) \<and>
     (in_range st \<longrightarrow> in_range st')"

lemma to_int_plus_cong: "to_int x = to_int y \<Longrightarrow> to_int (x + z) = to_int (y + z)"
  by (metis to_int_add)

lemma counts_refl: "counts st [] 0 0 st"
  by (simp add: counts_def)

lemma counts_trans:
  assumes "counts st es dp df st1" and "counts st1 fs dq dg st2"
  shows "counts st (es @ fs) (dp + dq) (df + dg) st2"
  using assms to_int_plus_cong [of "speed st1" "speed st + dp" dq] to_int_plus_cong [of "failed st1" "failed st + df" dg]
    to_int_plus_cong [of "bytes st1" "bytes st + received es" "received fs"]
  by (simp add: counts_def add.assoc)

lemma counts_event: "received [e] = 0 \<Longrightarrow> counts st [e] 0 0 (record_event e st)"
  by (simp add: counts_def in_range_def record_event_def)

lemma counts_updates:
  "counts st [] 0 1 (add_failed st)" "counts st [] 1 0 (add_page st)"
  by (simp_all add: counts_def in_range_def add_failed_def add_page_def)

lemma counts_read: "0 < i \<Longrightarrow> counts st [NvRead s i] 0 0 (add_bytes i (record_event (NvRead s i) st))"
  by (simp add: counts_def in_range_def record_event_def add_bytes_def)

lemma counts_calls:
  "net_write net s req st = (r, st') \<Longrightarrow> counts st [NvWrite s req r] 0 0 st'"
  "net_shutdown net s st = (r, st') \<Longrightarrow> counts st [NvShutdown s r] 0 0 st'"
  "net_close net s st = (r, st') \<Longrightarrow> counts st [NvClose s r] 0 0 st'"
  "poll_timer net st = (b, st') \<Longrightarrow> counts st [NvTimer b] 0 0 st'"
  "net_read net s st = (r, st') \<Longrightarrow> r \<le> 0 \<Longrightarrow> counts st [NvRead s r] 0 0 st'"
  by (auto simp: net_calls Let_def intro!: counts_event)

lemma counts_close: "\<exists>r. counts st [NvClose s r] 0 0 (snd (net_close net s st))"
  using counts_calls(3) by (metis prod.collapse)

lemma counts_correct: "\<exists>d \<in> {0, 1}. counts st [] 0 (- d) (correct_failed st)"
proof (cases "0 < failed st")
  case True
  have "to_int (failed st - 1) = failed st - 1" if "to_int (failed st) = failed st"
    using that to_int_range [of "failed st"] True by (intro to_int_id) auto
  then have "counts st [] 0 (- 1) (correct_failed st)" using True
    by (simp add: counts_def in_range_def correct_failed_def)
  then show ?thesis by blast
next
  case False
  then have "counts st [] 0 (- 0) (correct_failed st)" by (simp add: counts_def correct_failed_def)
  then show ?thesis by blast
qed

text \<open>A call of \<open>Socket\<close>: a failing one closes what it opened.\<close>

lemma counts_Socket_to:
  assumes "Socket_to net host port st = (s, st')"
  shows "\<exists>es. counts st es 0 0 st' \<and> attempts es = 1 \<and> polls es = 0 \<and> writes es = 0 \<and>
    opened_by es = closed_by es @ (if s < 0 then [] else [s])"
proof -
  define addr where "addr = (if n_inet_addr net host \<noteq> INADDR_NONE then Some (n_inet_addr net host)
    else n_hostent net (net_log st) host)"
  let ?st1 = "record_event (NvResolve host addr) st"
  have 1: "counts st [NvResolve host addr] 0 0 ?st1" by (rule counts_event) simp
  have eq: "(s, st') = (case addr of None \<Rightarrow> (-1, ?st1)
    | Some a \<Rightarrow> (case net_socket net ?st1 of (sock, st2) \<Rightarrow>
        if sock < 0 then (sock, st2)
        else (case net_connect net sock a (htons (word_of_int port)) st2 of (c, st3) \<Rightarrow>
          if c < 0 then (-1, snd (net_close net sock st3)) else (sock, st3))))"
    using assms [unfolded Socket_to_def Let_def, folded addr_def] by (rule sym)
  show ?thesis
  proof (cases addr)
    case None
    then show ?thesis using eq 1 by (intro exI [of _ "[NvResolve host addr]"]) simp
  next
    case (Some a)
    obtain sock st2 where s: "net_socket net ?st1 = (sock, st2)" by (metis surj_pair)
    have 2: "counts ?st1 [NvSocket sock] 0 0 st2"
      using s counts_event [of "NvSocket sock" ?st1] by (auto simp: net_socket_def Let_def)
    note 12 = counts_trans [OF 1 2]
    obtain c st3 where c: "net_connect net sock a (htons (word_of_int port)) st2 = (c, st3)" by (metis surj_pair)
    have 3: "counts st2 [NvConnect sock a (htons (word_of_int port)) c] 0 0 st3"
      using c counts_event [of "NvConnect sock a (htons (word_of_int port)) c" st2]
      by (auto simp: net_connect_def Let_def)
    note 123 = counts_trans [OF 12 3]
    obtain q where 4: "counts st3 [NvClose sock q] 0 0 (snd (net_close net sock st3))"
      using counts_close by blast
    consider "sock < 0" "s = sock" "st' = st2" | "0 \<le> sock" "c < 0" "s = -1" "st' = snd (net_close net sock st3)"
      | "0 \<le> sock" "0 \<le> c" "s = sock" "st' = st3"
      using eq Some s c by (auto split: if_splits)
    then show ?thesis
    proof cases
      case 1
      then show ?thesis using 12 by (intro exI [of _ "[NvResolve host addr] @ [NvSocket sock]"]) simp
    next
      case 2
      then show ?thesis using counts_trans [OF 123 4] by (intro exI) auto
    next
      case 3
      then show ?thesis using 123 by (intro exI) auto
    qed
  qed
qed

text \<open>Reading a reply: a failed read closes the socket and counts as a failure.\<close>

lemma counts_read_reply:
  "read_reply net n s st = Some (ok, st') \<Longrightarrow>
   \<exists>es. counts st es 0 (if ok then 0 else 1) st' \<and> attempts es = 0 \<and> opened_by es = [] \<and>
     closed_by es = (if ok then [] else [s])"
proof (induction n arbitrary: st)
  case (Suc n)
  obtain b st1 where b: "poll_timer net st = (b, st1)" by (metis surj_pair)
  note 1 = counts_calls(4) [OF b]
  obtain i st2 where i: "net_read net s st1 = (i, st2)" by (metis surj_pair)
  show ?case
  proof (cases "b \<or> i = 0")
    case True
    have "i \<le> 0 \<Longrightarrow> counts st1 [NvRead s i] 0 0 st2" using counts_calls(5) [OF i] by simp
    then show ?thesis using Suc.prems b i True 1 counts_trans [OF 1]
      by (cases b) (force, force)
  next
    case False
    show ?thesis
    proof (cases "i < 0")
      case True
      have 2: "counts st1 [NvRead s i] 0 0 st2" using counts_calls(5) [OF i] True by simp
      obtain q where "counts (add_failed st2) [NvClose s q] 0 0 (snd (net_close net s (add_failed st2)))"
        using counts_close by blast
      from counts_trans [OF counts_trans [OF counts_trans [OF 1 2] counts_updates(1)] this]
      show ?thesis using Suc.prems b i False True by (intro exI) auto
    next
      case pos: False
      with False have i0: "0 < i" by simp
      have 2: "counts st1 [NvRead s i] 0 0 (add_bytes i st2)"
        using counts_read [OF i0, of st1 s] i by (auto simp: net_read_def Let_def)
      obtain es where "counts (add_bytes i st2) es 0 (if ok then 0 else 1) st'" "attempts es = 0" "opened_by es = []"
          "closed_by es = (if ok then [] else [s])"
        using Suc.IH [of "add_bytes i st2"] Suc.prems b i False pos by auto
      with counts_trans [OF counts_trans [OF 1 2] this(1)] show ?thesis by (intro exI) auto
    qed
  qed
qed simp

text \<open>
  One round that does not find the alarm rung: an attempt, and one page or one failure; every
  socket it opened is closed.
\<close>

definition round_of :: "bench_state \<Rightarrow> bench_state \<Rightarrow> bool" where
  "round_of st st' \<longleftrightarrow> (\<exists>es dp df. counts st es dp df st' \<and> 0 \<le> dp \<and> 0 \<le> df \<and> dp + df = 1 \<and> attempts es = 1 \<and>
     opened_by es = closed_by es)"

lemma round_failed:
  assumes "counts st es 0 0 st1" and "attempts es = 1" and "opened_by es = closed_by es @ [s]"
  shows "round_of st (snd (net_close net s (add_failed st1)))"
proof -
  obtain q where "counts (add_failed st1) [NvClose s q] 0 0 (snd (net_close net s (add_failed st1)))"
    using counts_close by blast
  from counts_trans [OF counts_trans [OF assms(1) counts_updates(1)] this]
  show ?thesis unfolding round_of_def using assms(2,3)
    by (intro exI [of _ "es @ [] @ [NvClose s q]"] exI [of _ 0] exI [of _ 1]) simp
qed

lemma round_more:
  assumes "counts st es 0 0 st1" and "counts st1 fs dp df st2" and "0 \<le> dp" "0 \<le> df" "dp + df = 1"
    and "attempts es = 1" "attempts fs = 0" "opened_by es @ opened_by fs = closed_by es @ closed_by fs"
  shows "round_of st st2"
  unfolding round_of_def
  using counts_trans [OF assms(1,2)] assms(3-8) by (intro exI [of _ "es @ fs"] exI [of _ dp] exI [of _ df]) simp

lemma close_loop_step:
  assumes "close_loop net cfg host port req (Suc n) st = Some st'" and "poll_timer net st = (b, st1)"
  shows "if b then st' = correct_failed st1 else \<exists>st2. round_of st1 st2 \<and> close_loop net cfg host port req n st2 = Some st'"
proof (cases b)
  case True
  then show ?thesis using assms by simp
next
  case False
  obtain s st2 where s: "Socket_to net host port st1 = (s, st2)" by (metis surj_pair)
  obtain es where es: "counts st1 es 0 0 st2" "attempts es = 1"
      "opened_by es = closed_by es @ (if s < 0 then [] else [s])"
    using counts_Socket_to [OF s] by blast
  show ?thesis
  proof (cases "s < 0")
    case True
    have "round_of st1 (add_failed st2)"
      by (rule round_more [OF es(1) counts_updates(1)]) (use es True in simp_all)
    then show ?thesis using assms False s True by auto
  next
    case s0: False
    obtain r st3 where w: "net_write net s req st2 = (r, st3)" by (metis surj_pair)
    note 3 = counts_trans [OF es(1) counts_calls(1) [OF w]]
    obtain q st4 where q: "(if http10 cfg = 0 then net_shutdown net s st3 else (0, st3)) = (q, st4)" by (metis surj_pair)
    obtain fs where 4: "counts st3 fs 0 0 st4" "attempts fs = 0" "opened_by fs = []" "closed_by fs = []"
    proof (cases "http10 cfg = 0")
      case True
      with q counts_calls(2) [of net s st3 q st4] that [of "[NvShutdown s q]"] show ?thesis by simp
    next
      case False
      with q counts_refl [of st3] that [of "[]"] show ?thesis by simp
    qed
    note 34 = counts_trans [OF 3 4(1)]
    show ?thesis
    proof (cases "int (length req) \<noteq> r \<or> q \<noteq> 0")
      case True
      have "round_of st1 (snd (net_close net s (add_failed st3)))"
        by (rule round_failed [OF 3 [simplified]]) (use es s0 in simp_all)
      moreover have "round_of st1 (snd (net_close net s (add_failed st4)))"
        by (rule round_failed [OF 34 [simplified]]) (use es s0 4 in simp_all)
      ultimately show ?thesis using assms False s s0 w q True by (auto split: if_splits)
    next
      case fine: False
      obtain ok st5 where 5: "(if force cfg = 0 then read_reply net n s st4 else Some (True, st4)) = Some (ok, st5)"
        using assms False s s0 w q fine by (auto split: option.splits)
      obtain gs where gs: "counts st4 gs 0 (if ok then 0 else 1) st5" "attempts gs = 0" "opened_by gs = []"
          "closed_by gs = (if ok then [] else [s])"
        using 5 counts_read_reply [of net n s st4 ok st5] counts_refl [of st4]
        by (cases "force cfg = 0") (fastforce, auto)
      show ?thesis
      proof (cases ok)
        case True
        obtain c st6 where c: "net_close net s st5 = (c, st6)" by (metis surj_pair)
        note 6 = counts_trans [OF gs(1) counts_calls(3) [OF c]]
        have "round_of st1 (add_failed st6)" "round_of st1 (add_page st6)"
          using True es s0 4 gs
          by (auto intro!: round_more [OF 34 [simplified] counts_trans [OF 6 counts_updates(1)]]
              round_more [OF 34 [simplified] counts_trans [OF 6 counts_updates(2)]])
        then show ?thesis using assms False s s0 w q fine 5 True c by (auto split: if_splits)
      next
        case notok: False
        have "round_of st1 st5"
          by (rule round_more [OF 34 [simplified] gs(1)]) (use notok es s0 4 gs in simp_all)
        then show ?thesis using assms False s s0 w q fine 5 notok by auto
      qed
    qed
  qed
qed

text \<open>
  The contract of a loop that reads the flag of the alarm at the start of every round: a round counts
  one page or one failure, and its events have tally 1 and keep a property. The loop may carry a
  value \<open>a\<close>, such as its socket.
\<close>

locale polled_loop =
  fixes net :: net
    and loop :: "nat \<Rightarrow> int \<Rightarrow> bench_state \<Rightarrow> bench_state option"
    and live :: "int \<Rightarrow> bool"
    and tally :: "net_event list \<Rightarrow> nat"
    and tidy :: "net_event list \<Rightarrow> bool"
  assumes no_fuel: "loop 0 a st = None"
    and step: "loop (Suc n) a st = Some st' \<Longrightarrow> live a \<Longrightarrow> poll_timer net st = (b, st1) \<Longrightarrow>
      if b then st' = correct_failed st1
      else \<exists>a' st2 es dp df. live a' \<and> counts st1 es dp df st2 \<and> 0 \<le> dp \<and> 0 \<le> df \<and> dp + df = 1 \<and> tally es = 1 \<and>
        tidy es \<and> loop n a' st2 = Some st'"
    and tally: "tally (xs @ ys) = tally xs + tally ys" "tally [NvTimer b] = 0"
    and tidy: "tidy xs \<Longrightarrow> tidy ys \<Longrightarrow> tidy (xs @ ys)" "tidy [NvTimer b]"
begin

lemma counted:
  "loop n a st = Some st' \<Longrightarrow> live a \<Longrightarrow>
   \<exists>es dp df. \<exists>d \<in> {0, 1}. counts st es dp (df - d) st' \<and> 0 \<le> dp \<and> 0 \<le> df \<and> dp + df = int (tally es) \<and>
     tally es < n \<and> tidy es"
proof (induction n arbitrary: a st)
  case 0
  then show ?case by (simp add: no_fuel)
next
  case (Suc n)
  obtain b st1 where b: "poll_timer net st = (b, st1)" by (metis surj_pair)
  note 1 = counts_calls(4) [OF b] and s = step [OF Suc.prems b]
  show ?case
  proof (cases b)
    case True
    obtain d where d: "d \<in> {0, 1}" "counts st1 [] 0 (- d) (correct_failed st1)" using counts_correct by blast
    show ?thesis using counts_trans [OF 1 d(2)] d(1) s True tally(2) [of b] tidy(2) [of b]
      by (intro exI [of _ "[NvTimer b] @ []"] exI [of _ 0] bexI [of _ d]) simp_all
  next
    case False
    then obtain a' st2 es dp df where 2: "live a'" "counts st1 es dp df st2" "0 \<le> dp" "0 \<le> df" "dp + df = 1"
        "tally es = 1" "tidy es" "loop n a' st2 = Some st'"
      using s by auto
    obtain fs dq dg d where 3: "d \<in> {0, 1}" "counts st2 fs dq (dg - d) st'" "0 \<le> dq" "0 \<le> dg"
        "dq + dg = int (tally fs)" "tally fs < n" "tidy fs"
      using Suc.IH [OF 2(8,1)] by blast
    have "tidy (([NvTimer b] @ es) @ fs)" using tidy 2(7) 3(7) by blast
    moreover have "tally (([NvTimer b] @ es) @ fs) = Suc (tally fs)" by (simp only: tally 2(6))
    ultimately show ?thesis using counts_trans [OF counts_trans [OF 1 2(2)] 3(2)] 2(3-5) 3
      by (intro exI [of _ "([NvTimer b] @ es) @ fs"] exI [of _ "dp + dq"] exI [of _ "df + dg"] bexI [of _ d])
        (simp_all add: algebra_simps)
  qed
qed

end

interpretation closing: polled_loop net "\<lambda>n s. close_loop net cfg host port req n" "\<lambda>s. True" attempts
  "\<lambda>es. opened_by es = closed_by es" for net cfg host port req
proof (unfold_locales, goal_cases)
  case (2 n a st st' b st1)
  show ?case using close_loop_step [OF 2(1,3)] unfolding round_of_def by (cases b) (simp, simp, blast)
qed simp_all

lemmas close_loop_counts = closing.counted [OF _ TrueI]

section \<open>The loops end when the alarm has rung\<close>

definition later :: "bench_state \<Rightarrow> bench_state \<Rightarrow> bool" where
  "later st st' \<longleftrightarrow> prefix (net_log st) (net_log st')"

lemma later_refl [intro]: "later st st"
  by (simp add: later_def)

lemma later_trans [trans]: "later a b \<Longrightarrow> later b c \<Longrightarrow> later a c"
  unfolding later_def by (rule prefix_order.trans)

lemma later_polls: "later st st' \<Longrightarrow> polls (net_log st) \<le> polls (net_log st')"
  by (auto simp: later_def prefix_def)

lemma later_calls:
  "net_write net s req st = (r, st') \<Longrightarrow> later st st'"
  "net_shutdown net s st = (r, st') \<Longrightarrow> later st st'"
  "net_close net s st = (r, st') \<Longrightarrow> later st st'"
  "net_read net s st = (r, st') \<Longrightarrow> later st st'"
  "poll_timer net st = (b, st') \<Longrightarrow> later st st'"
  "later st (snd (net_close net s st))"
  by (auto simp: net_calls record_event_def later_def Let_def)

lemma later_Socket_to: "Socket_to net host port st = (s, st') \<Longrightarrow> later st st'"
  using counts_Socket_to [of net host port st s st'] by (auto simp: later_def counts_def)

lemma later_updates [simp]:
  "later st (add_failed st') \<longleftrightarrow> later st st'" "later st (add_page st') \<longleftrightarrow> later st st'"
  "later st (add_bytes i st') \<longleftrightarrow> later st st'" "later (add_failed st) st' \<longleftrightarrow> later st st'"
  by (simp_all add: later_def add_failed_def add_page_def add_bytes_def)

lemma later_closed: "later st st' \<Longrightarrow> later st (snd (net_close net s st'))"
  using later_trans later_calls(6) by blast

text \<open>The alarm rings before the flag was read more than \<open>N\<close> times.\<close>

definition rings_by :: "net \<Rightarrow> nat \<Rightarrow> bool" where
  "rings_by net N \<longleftrightarrow> (\<forall>h. N \<le> polls h \<longrightarrow> n_timer net h)"

lemma rings_poll: "rings_by net N \<Longrightarrow> poll_timer net st = (b, st') \<Longrightarrow>
    (N \<le> polls (net_log st) \<longrightarrow> b) \<and> polls (net_log st') = Suc (polls (net_log st))"
  by (auto simp: rings_by_def poll_timer_def record_event_def Let_def)

lemma read_reply_returns:
  "rings_by net N \<Longrightarrow> N < n + polls (net_log st) \<Longrightarrow> 0 < n \<Longrightarrow>
   \<exists>ok st'. read_reply net n s st = Some (ok, st') \<and> later st st'"
proof (induction n arbitrary: st)
  case (Suc n)
  obtain b st1 where b: "poll_timer net st = (b, st1)" by (metis surj_pair)
  note p = rings_poll [OF Suc.prems(1) b]
  obtain i st2 where i: "net_read net s st1 = (i, st2)" by (metis surj_pair)
  have l: "later st st1" "later st1 st2" using later_calls(5) [OF b] later_calls(4) [OF i] by auto
  note l2 = later_trans [OF l]
  show ?case
  proof (cases "b \<or> i \<le> 0")
    case True
    then show ?thesis using b i l(1) l2 later_closed [of st "add_failed st2" net s] by auto
  next
    case False
    then have "polls (net_log st) < N" using p by auto
    then have "0 < n" "N < n + polls (net_log st1)" using Suc.prems(2) p by auto
    moreover have "polls (net_log st1) \<le> polls (net_log (add_bytes i st2))"
      using later_polls [OF l(2)] by (simp add: add_bytes_def)
    ultimately have "0 < n" "N < n + polls (net_log (add_bytes i st2))" by simp_all
    from Suc.IH [OF Suc.prems(1) this(2,1)]
    obtain ok st' where "read_reply net n s (add_bytes i st2) = Some (ok, st')" "later (add_bytes i st2) st'" by blast
    moreover have "later st st'"
      by (rule later_trans [of _ "add_bytes i st2"]) (use l2 \<open>later (add_bytes i st2) st'\<close> in simp_all)
    ultimately show ?thesis using b i False by auto
  qed
qed simp

lemma close_loop_progress:
  assumes rings: "rings_by net N" and b: "poll_timer net st = (False, st1)" and n: "0 < n" "N < n + polls (net_log st1)"
  shows "\<exists>st2. later st1 st2 \<and> close_loop net cfg host port req (Suc n) st = close_loop net cfg host port req n st2"
proof -
  obtain s st2 where s: "Socket_to net host port st1 = (s, st2)" by (metis surj_pair)
  obtain r st3 where w: "net_write net s req st2 = (r, st3)" by (metis surj_pair)
  obtain q st4 where q: "(if http10 cfg = 0 then net_shutdown net s st3 else (0, st3)) = (q, st4)" by (metis surj_pair)
  have l: "later st1 st2" "later st2 st3" "later st3 st4"
    using later_Socket_to [OF s] later_calls(1) [OF w] later_calls(2) [of net s st3 q st4] q
    by (auto split: if_splits)
  note l3 = later_trans [OF l(1,2)]
  note l4 = later_trans [OF l3 l(3)]
  have "N < n + polls (net_log st4)" using n(2) later_polls [OF l4] by simp
  from read_reply_returns [OF rings this n(1), of s]
  have "\<exists>ok st5. (if force cfg = 0 then read_reply net n s st4 else Some (True, st4)) = Some (ok, st5) \<and> later st4 st5"
    by auto
  then obtain ok st5 where 5: "(if force cfg = 0 then read_reply net n s st4 else Some (True, st4)) = Some (ok, st5)"
    and l5: "later st4 st5" by blast
  obtain c st6 where c: "net_close net s st5 = (c, st6)" by (metis surj_pair)
  have l6: "later st1 st5" "later st1 st6" using later_trans [OF l4 l5] later_calls(3) [OF c] later_trans by blast+
  consider "s < 0" | "0 \<le> s" "int (length req) \<noteq> r" | "0 \<le> s" "int (length req) = r" "q \<noteq> 0"
    | "0 \<le> s" "int (length req) = r" "q = 0" by linarith
  then show ?thesis
  proof cases
    case 1
    then show ?thesis using b s l(1) by (intro exI [of _ "add_failed st2"]) simp
  next
    case 2
    then show ?thesis using b s w later_closed [of st1 "add_failed st3" net s] l3
      by (intro exI [of _ "snd (net_close net s (add_failed st3))"]) simp
  next
    case 3
    then show ?thesis using b s w q later_closed [of st1 "add_failed st4" net s] l4
      by (intro exI [of _ "snd (net_close net s (add_failed st4))"]) simp
  next
    case 4
    then show ?thesis using b s w q 5 c l6
      by (cases ok; cases "c = 0") (auto intro: exI [of _ "add_page st6"] exI [of _ "add_failed st6"])
  qed
qed

lemma close_loop_returns:
  "rings_by net N \<Longrightarrow> N < n + polls (net_log st) \<Longrightarrow> 0 < n \<Longrightarrow> \<exists>st'. close_loop net cfg host port req n st = Some st'"
proof (induction n arbitrary: st)
  case (Suc n)
  obtain b st1 where b: "poll_timer net st = (b, st1)" by (metis surj_pair)
  note p = rings_poll [OF Suc.prems(1) b]
  show ?case
  proof (cases b)
    case False
    then have "polls (net_log st) < N" using p by auto
    then have n: "0 < n" "N < n + polls (net_log st1)" using Suc.prems(2) p by auto
    obtain st2 where st2: "later st1 st2" "close_loop net cfg host port req (Suc n) st = close_loop net cfg host port req n st2"
      using close_loop_progress [OF Suc.prems(1) _ n, of st cfg host port req] b False by (metis (full_types))
    have "N < n + polls (net_log st2)" using n(2) later_polls [OF st2(1)] by simp
    from Suc.IH [OF Suc.prems(1) this n(1)] show ?thesis using st2(2) by simp
  qed (use b in simp)
qed simp

section \<open>One connection for all requests\<close>

lemma connect_loop_never:
  assumes "\<And>h. -1 \<le> n_socket net h" and "\<And>h s. n_connect net h s < 0"
  shows "connect_loop net host port n st = None"
proof (induction n arbitrary: st)
  case (Suc n)
  have "n_socket net h < 0 \<longleftrightarrow> n_socket net h = -1" for h using assms(1) [of h] by linarith
  then have "fst (Socket_to net host port st) = -1" using assms(2)
    by (auto simp: Socket_to_def net_calls Let_def split: option.splits)
  then obtain st1 where "Socket_to net host port st = (-1, st1)" by (metis prod.collapse)
  then show ?case using Suc.IH [of st1] by simp
qed simp

lemma to_int_add_right [simp]: "to_int (x + to_int y) = to_int (x + y)"
  using to_int_add [of y x] by (simp add: add.commute)

text \<open>Every round but the last makes one write and counts one page or one failure.\<close>

lemma Socket_to_range: "\<forall>h. -1 \<le> n_socket net h \<Longrightarrow> Socket_to net host port st = (s, st') \<Longrightarrow> -1 \<le> s"
  by (auto simp: Socket_to_def net_calls Let_def split: option.splits if_splits)

lemma counts_connect_loop:
  assumes "\<forall>h. -1 \<le> n_socket net h"
  shows "connect_loop net host port n st = Some (s, st') \<Longrightarrow> 0 \<le> s \<and> (\<exists>es. counts st es 0 0 st' \<and> writes es = 0)"
proof (induction n arbitrary: st)
  case (Suc n)
  obtain s1 st1 where s1: "Socket_to net host port st = (s1, st1)" by (metis surj_pair)
  obtain es where es: "counts st es 0 0 st1" "writes es = 0" using counts_Socket_to [OF s1] by blast
  show ?case
  proof (cases "s1 = -1")
    case True
    then obtain fs where fs: "0 \<le> s" "counts st1 fs 0 0 st'" "writes fs = 0" using Suc s1 by auto
    show ?thesis using fs counts_trans [OF es(1) fs(2)] es(2) by (auto intro!: exI [of _ "es @ fs"])
  next
    case False
    then show ?thesis using Suc.prems s1 es Socket_to_range [OF assms s1] by auto
  qed
qed simp

definition write_round :: "bench_state \<Rightarrow> bench_state \<Rightarrow> bool" where
  "write_round st st' \<longleftrightarrow> (\<exists>es dp df. counts st es dp df st' \<and> 0 \<le> dp \<and> 0 \<le> df \<and> dp + df = 1 \<and> writes es = 1)"

lemma write_roundI:
  assumes "counts st es 0 0 st1" and "writes es = 1" and "counts st1 fs dp df st2" and "writes fs = 0"
    and "0 \<le> dp" "0 \<le> df" "dp + df = 1"
  shows "write_round st st2"
  unfolding write_round_def using counts_trans [OF assms(1,3)] assms by (intro exI [of _ "es @ fs"] exI) auto

lemma keep_loop_step:
  assumes sock: "\<forall>h. -1 \<le> n_socket net h" and run: "keep_loop net cfg host port req (Suc n) s st = Some st'"
    and b: "poll_timer net st = (b, st1)" and s: "0 \<le> s"
  shows "if b then st' = correct_failed st1
    else \<exists>s' st2. 0 \<le> s' \<and> write_round st1 st2 \<and> keep_loop net cfg host port req n s' st2 = Some st'"
proof (cases b)
  case False
  obtain r st2 where w: "net_write net s req st1 = (r, st2)" by (metis surj_pair)
  note 1 = counts_calls(1) [OF w]
  obtain c st3 where c: "poll_timer net st2 = (c, st3)" by (metis surj_pair)
  note 2 = counts_trans [OF 1 counts_calls(4) [OF c]]
  obtain i st4 where i: "net_read net s st3 = (i, st4)" by (metis surj_pair)
  have page: "write_round st1 (add_page st2)" "write_round st1 (add_page st3)"
    by (rule write_roundI [OF 1 _ counts_updates(2)], simp_all)
      (rule write_roundI [OF 2 [simplified] _ counts_updates(2)], simp_all)
  consider "int (length req) \<noteq> r" | "int (length req) = r" "force cfg \<noteq> 0" | "int (length req) = r" "force cfg = 0" "c"
    | "int (length req) = r" "force cfg = 0" "\<not> c" "i < 0" | "int (length req) = r" "force cfg = 0" "\<not> c" "i = 0"
    | "int (length req) = r" "force cfg = 0" "\<not> c" "0 < i" by linarith
  then show ?thesis
  proof cases
    case 1
    then obtain s' st5 where l: "connect_loop net host port n (snd (net_close net s (add_failed st2))) = Some (s', st5)"
        "keep_loop net cfg host port req n s' st5 = Some st'"
      using run b w s False by (auto split: option.splits)
    obtain fs where fs: "0 \<le> s'" "counts (snd (net_close net s (add_failed st2))) fs 0 0 st5" "writes fs = 0"
      using counts_connect_loop [OF sock l(1)] by blast
    obtain q where "counts (add_failed st2) [NvClose s q] 0 0 (snd (net_close net s (add_failed st2)))"
      using counts_close by blast
    from counts_trans [OF counts_trans [OF counts_updates(1) this] fs(2)]
    have "counts st2 (([] @ [NvClose s q]) @ fs) 0 1 st5" by simp
    from write_roundI [OF \<open>counts st1 [NvWrite s req r] 0 0 st2\<close> _ this] fs l(2) False show ?thesis by auto
  next
    case 4
    obtain q where "counts (add_failed st4) [NvClose s q] 0 0 (snd (net_close net s (add_failed st4)))"
      using counts_close by blast
    moreover have "counts st3 [NvRead s i] 0 0 st4" using counts_calls(5) [OF i] 4 by simp
    ultimately have "counts st3 (([NvRead s i] @ []) @ [NvClose s q]) 0 1 (snd (net_close net s (add_failed st4)))"
      using counts_trans [OF counts_trans [OF _ counts_updates(1)]] by fastforce
    from write_roundI [OF 2 [simplified] _ this] run b w c i s False 4 show ?thesis by auto
  next
    case 5
    have "counts st3 [NvRead s i] 0 0 st4" using counts_calls(5) [OF i] 5 by simp
    from write_roundI [OF 2 [simplified] _ counts_trans [OF this counts_updates(2)]] run b w c i s False 5
    show ?thesis by auto
  next
    case 6
    have "counts st3 [NvRead s i] 0 0 (add_bytes i st4)"
      using counts_read [of i st3 s] i 6 by (auto simp: net_read_def Let_def)
    from write_roundI [OF 2 [simplified] _ counts_trans [OF this counts_updates(2)]] run b w c i s False 6
    show ?thesis by auto
  qed (use run b w c s False page in auto)
qed (use run b in simp)

interpretation keeping: polled_loop net "keep_loop net cfg host port req" "\<lambda>s. 0 \<le> s \<and> (\<forall>h. -1 \<le> n_socket net h)" writes
  "\<lambda>es. True" for net cfg host port req
proof (unfold_locales, goal_cases)
  case (2 n a st st' b st1)
  show ?case using keep_loop_step [OF conjunct2 [OF 2(2)] 2(1,3) conjunct1 [OF 2(2)]] 2(2) unfolding write_round_def
    by (cases b) (simp, simp, blast)
qed simp_all

lemmas keep_loop_counts = keeping.counted [OF _ conjI]

text \<open>
  A peer that takes every request and has closed its side: every read gives the end of the
  stream. The alarm rings when the flag was read \<open>2 * k\<close> times.
\<close>

definition closed_peer :: "net \<Rightarrow> nat \<Rightarrow> bool" where
  "closed_peer net k \<longleftrightarrow> (\<forall>h s r. n_write net h s r = int (length r)) \<and> (\<forall>h s. n_read net h s = 0) \<and>
     (\<forall>h s. n_shutdown net h s = 0) \<and> (\<forall>h s. n_close net h s = 0) \<and> (\<forall>h. n_timer net h \<longleftrightarrow> 2 * k \<le> polls h)"

lemma keep_loop_empty:
  assumes "closed_peer net k" and "force cfg = 0" and "0 \<le> s"
  shows "m \<le> k \<Longrightarrow> m < n \<Longrightarrow> polls (net_log st) = 2 * (k - m) \<Longrightarrow> failed st = 0 \<Longrightarrow> to_int (speed st) = speed st \<Longrightarrow>
    \<exists>st'. keep_loop net cfg host port req n s st = Some st' \<and> speed st' = to_int (speed st + int m) \<and>
      bytes st' = bytes st \<and> failed st' = 0"
proof (induction m arbitrary: n st)
  case 0
  then obtain n' where n: "n = Suc n'" by (cases n) auto
  have "poll_timer net st = (True, record_event (NvTimer True) st)"
    using assms(1) 0 by (simp add: closed_peer_def poll_timer_def Let_def)
  then show ?case using 0 by (simp add: n correct_failed_def record_event_def)
next
  case (Suc m)
  obtain n' where n: "n = Suc n'" using Suc.prems(2) by (cases n) auto
  let ?st1 = "record_event (NvTimer False) st"
  let ?st2 = "record_event (NvWrite s req (int (length req))) ?st1"
  let ?st3 = "record_event (NvTimer False) ?st2"
  let ?st4 = "record_event (NvRead s 0) ?st3"
  have p: "polls (net_log st) + 1 < 2 * k" using Suc.prems(1,3) by simp
  have log: "net_log ?st1 = net_log st @ [NvTimer False]"
    "net_log ?st2 = net_log st @ [NvTimer False, NvWrite s req (int (length req))]"
    "net_log ?st4 = net_log st @ [NvTimer False, NvWrite s req (int (length req)), NvTimer False, NvRead s 0]"
    by (simp_all add: record_event_def)
  have "poll_timer net st = (False, ?st1)" "net_write net s req ?st1 = (int (length req), ?st2)"
    "poll_timer net ?st2 = (False, ?st3)" "net_read net s ?st3 = (0, ?st4)"
    using assms(1) p by (simp_all add: closed_peer_def net_calls Let_def log)
  then have step: "keep_loop net cfg host port req n s st = keep_loop net cfg host port req n' s (add_page ?st4)"
    using assms(2,3) by (simp add: n)
  have "polls (net_log (add_page ?st4)) = 2 * (k - m)" using Suc.prems(1,3)
    by (simp add: add_page_def log) 
  then obtain st' where "keep_loop net cfg host port req n' s (add_page ?st4) = Some st'"
    "speed st' = to_int (speed (add_page ?st4) + int m)" "bytes st' = bytes (add_page ?st4)" "failed st' = 0"
    using Suc.IH [of n' "add_page ?st4"] Suc.prems by (auto simp: n add_page_def record_event_def)
  then show ?case using step by (auto simp: add_page_def record_event_def algebra_simps)
qed

section \<open>The pipe\<close>

lemma scan_int_show:
  assumes "int32 i" and "\<not> isdigit c"
  shows "scan_int held (show_int i @ c # r) = Number i (c # r)"
proof -
  have tw: "takeWhile isdigit (show_nat n @ c # r) = show_nat n" "dropWhile isdigit (show_nat n @ c # r) = c # r" for n
    using show_nat_digits assms(2) by (simp_all add: takeWhile_append2 dropWhile_append2)
  have sp: "\<not> isspace (CHR ''-'')" by (simp add: isspace_def)
  show ?thesis
  proof (cases "i < 0")
    case True
    then have s: "show_int i @ c # r = CHR ''-'' # show_nat (nat (- i)) @ c # r" by (simp add: show_int_def)
    show ?thesis unfolding s using True assms tw sp show_nat_nonempty
      by (simp add: scan_int_def Let_def strtol_clamp_def int32_def to_int_id)
  next
    case False
    obtain d t where d: "show_nat (nat i) = d # t" "isdigit d" using show_nat_hd by blast
    then have nd: "\<not> isspace d" "d \<noteq> CHR ''-''" "d \<noteq> CHR ''+''" using isdigit_not_space isdigit_not_sign by blast+
    have s: "show_int i @ c # r = show_nat (nat i) @ c # r" using False by (simp add: show_int_def)
    have "dropWhile isspace (show_nat (nat i) @ c # r) = show_nat (nat i) @ c # r" using nd by (simp add: d(1))
    moreover have "hd (show_nat (nat i) @ c # r) = d" by (simp add: d(1))
    ultimately show ?thesis unfolding s scan_int_def using nd tw False assms show_nat_nonempty
      by (simp add: Let_def strtol_clamp_def int32_def to_int_id)
  qed
qed

lemma scan_int_skip: "isspace c \<Longrightarrow> scan_int held (c # s) = scan_int held s"
  by (simp add: scan_int_def)

lemma separators [simp]: "isspace (CHR '' '')" "isspace (CHR 0x0A)" "\<not> isdigit (CHR '' '')" "\<not> isdigit (CHR 0x0A)"
  by (simp_all add: isspace_def isdigit_def)

lemma fscanf3_report:
  assumes "int32 a" "int32 b" "int32 c"
  shows "fscanf3 held (report_line a b c @ r) v = Some (3, (a, b, c), CHR 0x0A # r)"
    and "fscanf3 held (CHR 0x0A # report_line a b c @ r) v = Some (3, (a, b, c), CHR 0x0A # r)"
proof -
  show 1: "fscanf3 held (report_line a b c @ r) v = Some (3, (a, b, c), CHR 0x0A # r)"
    using scan_int_show [OF assms(1)] scan_int_show [OF assms(2)] scan_int_show [OF assms(3)]
    by (simp add: fscanf3_def report_line_def scan_int_skip split: prod.split)
  then show "fscanf3 held (CHR 0x0A # report_line a b c @ r) v = Some (3, (a, b, c), CHR 0x0A # r)"
    using scan_int_show [OF assms(1)]
    by (simp add: fscanf3_def scan_int_skip report_line_def split: prod.split)
qed

definition report_ok :: "int \<times> int \<times> int \<Rightarrow> bool" where
  "report_ok t \<longleftrightarrow> (case t of (a, b, c) \<Rightarrow> int32 a \<and> int32 b \<and> int32 c)"

definition report_text :: "(int \<times> int \<times> int) list \<Rightarrow> string" where
  "report_text rs = concat (map (\<lambda>(a, b, c). report_line a b c) rs)"

text \<open>
  Reading the reports of \<open>rs\<close>, when \<open>cl\<close> are expected and the write end of the pipe stays open: a
  missing report is waited for.
\<close>

abbreviation add_report :: "int \<times> int \<times> int \<Rightarrow> int \<times> int \<times> int \<Rightarrow> int \<times> int \<times> int" where
  "add_report \<equiv> (\<lambda>(a, b, c) (x, y, z). (to_int (x + a), to_int (y + b), to_int (z + c)))"

lemma collect_reports:
  "\<forall>t \<in> set rs. report_ok t \<Longrightarrow> int (length rs) \<le> cl \<Longrightarrow> 0 < cl \<Longrightarrow> pre \<in> {[], [CHR 0x0A]} \<Longrightarrow>
   collect True (pre @ report_text rs) cl v (sp, fl, by) =
     (if int (length rs) < cl then None
      else Some (fold add_report rs (sp, fl, by), fst (last rs), False))"
proof (induction rs arbitrary: pre cl v sp fl "by")
  case Nil
  have "scan_int True pre = Waiting" using Nil.prems(4) by (auto simp: scan_int_def)
  then have "fscanf3 True pre v = None" by (cases v) (simp add: fscanf3_def)
  then show ?case using Nil.prems(3) by (subst collect.simps) (simp add: report_text_def)
next
  case (Cons t rs)
  obtain a b c where t: "t = (a, b, c)" by (cases t) auto
  have ok: "int32 a" "int32 b" "int32 c" using Cons.prems(1) by (simp_all add: t report_ok_def)
  have f: "fscanf3 True (pre @ report_text (t # rs)) v = Some (3, (a, b, c), CHR 0x0A # report_text rs)"
    using Cons.prems(4) fscanf3_report [OF ok, of True "report_text rs" v] by (auto simp: report_text_def t)
  show ?case
  proof (cases "cl = 1")
    case True
    then show ?thesis using Cons.prems(2) by (subst collect.simps) (use f t in simp)
  next
    case False
    then have "collect True ([CHR 0x0A] @ report_text rs) (cl - 1) (a, b, c)
        (to_int (sp + a), to_int (fl + b), to_int (by + c)) =
      (if int (length rs) < cl - 1 then None
       else Some (fold add_report rs (to_int (sp + a), to_int (fl + b), to_int (by + c)), fst (last rs), False))"
      using Cons.IH [of "cl - 1" "[CHR 0x0A]" "(a, b, c)"] Cons.prems by simp
    then show ?thesis using False Cons.prems(2,3)
      by (subst collect.simps) (use f t in \<open>auto simp: Let_def\<close>)
  qed
qed

lemma fold_totals:
  "fold add_report rs (to_int x, to_int y, to_int z) =
    (to_int (x + (\<Sum>(a, b, c) \<leftarrow> rs. a)), to_int (y + (\<Sum>(a, b, c) \<leftarrow> rs. b)), to_int (z + (\<Sum>(a, b, c) \<leftarrow> rs. c)))"
  by (induction rs arbitrary: x y z) (auto simp: add.assoc)

section \<open>Forking\<close>

lemma fork_loop_parent:
  assumes "\<And>h. 0 < n_fork net h"
  shows "i \<le> cl \<Longrightarrow> i < cl \<or> 0 < pid \<Longrightarrow> \<exists>pid' st'. fork_loop net cl i pid st = (cl, pid', st') \<and> 0 < pid'"
proof (induction "nat (cl - i)" arbitrary: i pid st)
  case 0
  then show ?case by (subst fork_loop.simps) simp
next
  case (Suc m)
  then have i: "i < cl" by simp
  let ?pid = "n_fork net (net_log st)" and ?st = "record_event (NvFork (n_fork net (net_log st))) st"
  have "\<exists>pid' st'. fork_loop net cl (i + 1) ?pid ?st = (cl, pid', st') \<and> 0 < pid'"
    by (rule Suc.hyps(1)) (use Suc.hyps(2) i assms in simp_all)
  then show ?case by (subst fork_loop.simps) (use i assms [of "net_log st"] in \<open>simp add: Let_def not_le [symmetric]\<close>)
qed

section \<open>The counters stay in range\<close>

lemma in_range_updates [simp]:
  "in_range (record_event e st) \<longleftrightarrow> in_range st"
  "in_range st \<Longrightarrow> in_range (add_failed st)" "in_range st \<Longrightarrow> in_range (add_page st)"
  "in_range st \<Longrightarrow> in_range (add_bytes i st)"
  by (simp_all add: in_range_def record_event_def add_failed_def add_page_def add_bytes_def)

lemma in_range_correct [simp]: "in_range st \<Longrightarrow> in_range (correct_failed st)"
  using counts_correct [of st] by (auto simp: counts_def)

lemma in_range_calls:
  "net_write net s req st = (r, st') \<Longrightarrow> in_range st' \<longleftrightarrow> in_range st"
  "net_read net s st = (r, st') \<Longrightarrow> in_range st' \<longleftrightarrow> in_range st"
  "poll_timer net st = (b, st') \<Longrightarrow> in_range st' \<longleftrightarrow> in_range st"
  by (auto simp: net_calls Let_def)

lemma in_range_close [simp]: "in_range (snd (net_close net s st)) \<longleftrightarrow> in_range st"
  by (simp add: net_calls Let_def)

lemma in_range_Socket_to: "Socket_to net host port st = (s, st') \<Longrightarrow> in_range st \<Longrightarrow> in_range st'"
  using counts_Socket_to [of net host port st s st'] by (auto simp: counts_def)

lemma in_range_connect_loop: "connect_loop net host port n st = Some (s, st') \<Longrightarrow> in_range st \<Longrightarrow> in_range st'"
  by (induction n arbitrary: st) (auto split: prod.splits if_splits dest: in_range_Socket_to)

lemma in_range_keep_loop: "keep_loop net cfg host port req n s st = Some st' \<Longrightarrow> in_range st \<Longrightarrow> in_range st'"
proof (induction n arbitrary: s st)
  case (Suc n)
  obtain b st1 where b: "poll_timer net st = (b, st1)" by (metis surj_pair)
  obtain r st2 where w: "net_write net s req st1 = (r, st2)" by (metis surj_pair)
  obtain c st3 where c: "poll_timer net st2 = (c, st3)" by (metis surj_pair)
  obtain i st4 where i: "net_read net s st3 = (i, st4)" by (metis surj_pair)
  have ok: "in_range st1" "in_range st2" "in_range st3" "in_range st4"
    using Suc.prems(2) in_range_calls(1) [OF w] in_range_calls(2) [OF i] in_range_calls(3) [OF b]
      in_range_calls(3) [OF c] by simp_all
  show ?case using Suc.prems(1) Suc.IH ok b w c i
    by (auto split: if_splits option.splits dest: in_range_connect_loop)
qed simp

lemma in_range_benchcore:
  assumes "benchcore net cfg host port req fuel st = Some (Inr st')" and "in_range st"
  shows "in_range st'"
proof -
  let ?st1 = "record_event (NvAlarm (benchtime cfg)) st"
  have 1: "in_range ?st1" using assms(2) by simp
  show ?thesis
  proof (cases "keep_alive cfg")
    case True
    then show ?thesis using assms(1) 1
      by (auto simp: benchcore_def Let_def split: if_splits option.splits dest: in_range_connect_loop in_range_keep_loop)
  next
    case False
    then have "close_loop net cfg host port req fuel ?st1 = Some st'"
      using assms(1) by (auto simp: benchcore_def Let_def split: if_splits)
    from close_loop_counts [OF this] show ?thesis using 1 by (auto simp: counts_def)
  qed
qed

section \<open>Properties of a client\<close>

lemma start_in_range [simp]: "in_range start_state"
  by (simp add: in_range_def start_state_def)

lemma counted_from_zero:
  assumes "counts st es dp (df - d) st'" and "0 \<le> dp" "0 \<le> df" "dp + df < 2 ^ 31" "d \<in> {0, 1}" and "in_range st'"
    and "speed st = 0" "failed st = 0" "bytes st = 0"
  shows "speed st' = dp" "failed st' = df - d" "bytes st' = to_int (received es)"
proof -
  have "to_int dp = dp" "to_int (df - d) = df - d" using assms(2-5) by (auto intro!: to_int_id)
  then show "speed st' = dp" "failed st' = df - d" "bytes st' = to_int (received es)"
    using assms(1,6-9) by (simp_all add: counts_def in_range_def)
qed

lemma alarm_state [simp]:
  "speed (record_event e start_state) = 0" "failed (record_event e start_state) = 0"
  "bytes (record_event e start_state) = 0" "net_log (record_event e start_state) = [e]"
  by (simp_all add: record_event_def start_state_def)

text \<open>
  C13 (functional, accounting). With a connection for every request (no \<open>--keep\<close>), in at most \<open>2 ^ 31\<close>
  rounds and whatever the calls answer, the pages and the failures of a client add up to its
  attempts, but for one failure that may be put down to the alarm; the bytes are those
  received, modulo \<open>2 ^ 32\<close>; and every socket that was opened was closed, in this order.
\<close>

theorem benchcore_accounts:
  assumes "\<not> keep_alive cfg" and "benchcore net cfg host port req fuel start_state = Some (Inr st')"
    and "fuel \<le> 2 ^ 31"
  shows "\<exists>d \<in> {0, 1}. speed st' + failed st' + d = int (attempts (net_log st')) \<and>
    bytes st' = to_int (received (net_log st')) \<and> opened_by (net_log st') = closed_by (net_log st')"
proof -
  let ?st1 = "record_event (NvAlarm (benchtime cfg)) start_state"
  have loop: "close_loop net cfg host port req fuel ?st1 = Some st'"
    using assms(1,2) by (auto simp: benchcore_def Let_def split: if_splits)
  obtain es dp df d where d: "d \<in> {0, 1}" and c: "counts ?st1 es dp (df - d) st'" "0 \<le> dp" "0 \<le> df"
      "dp + df = int (attempts es)" "attempts es < fuel" "opened_by es = closed_by es"
    using close_loop_counts [OF loop] by blast
  have r: "in_range st'" by (rule in_range_benchcore [OF assms(2) start_in_range])
  have small: "dp + df < 2 ^ 31" using c(4,5) assms(3) by simp
  note sums = counted_from_zero [OF c(1-3) small d r alarm_state(1-3)]
  have "net_log st' = NvAlarm (benchtime cfg) # es" using c(1) by (simp add: counts_def)
  then show ?thesis using sums c(4,6) d by (intro bexI [of _ d]) simp_all
qed

text \<open>
  C14 (invariant, accounting with \<open>--keep\<close>). On one connection, too, every request that was written
  is one page or one failure, but for one failure that may be put down to the alarm: a failed
  write, a failed read, and the write after a failed read on the closed socket.
\<close>

theorem keep_alive_accounts:
  assumes "keep_alive cfg" and "benchcore net cfg host port req fuel start_state = Some (Inr st')"
    and "fuel \<le> 2 ^ 31" and "\<And>h. -1 \<le> n_socket net h"
  shows "\<exists>d \<in> {0, 1}. speed st' + failed st' + d = int (writes (net_log st')) \<and>
    bytes st' = to_int (received (net_log st'))"
proof -
  let ?st1 = "record_event (NvAlarm (benchtime cfg)) start_state"
  have sock: "\<forall>h. -1 \<le> n_socket net h" using assms(4) by blast
  obtain s st2 where conn: "connect_loop net host port fuel ?st1 = Some (s, st2)"
    and loop: "keep_loop net cfg host port req fuel s st2 = Some st'"
    using assms(1,2) by (auto simp: benchcore_def Let_def split: if_splits option.splits)
  obtain es where s: "0 \<le> s" "counts ?st1 es 0 0 st2" "writes es = 0" using counts_connect_loop [OF sock conn] by blast
  obtain fs dp df d where d: "d \<in> {0, 1}" and c: "counts st2 fs dp (df - d) st'" "0 \<le> dp" "0 \<le> df"
      "dp + df = int (writes fs)" "writes fs < fuel"
    using keep_loop_counts [OF loop s(1) sock] by blast
  have all: "counts ?st1 (es @ fs) dp (df - d) st'" using counts_trans [OF s(2) c(1)] by simp
  have small: "dp + df < 2 ^ 31" using c(4,5) assms(3) by simp
  have r: "in_range st'" by (rule in_range_benchcore [OF assms(2) start_in_range])
  note sums = counted_from_zero [OF all c(2,3) small d r alarm_state(1-3)]
  have "net_log st' = NvAlarm (benchtime cfg) # es @ fs" using all by (simp add: counts_def)
  then show ?thesis using sums c(4) s(3) d by (intro bexI [of _ d]) simp_all
qed

text \<open>
  C24 (termination). A client that makes a connection for every request returns once the alarm
  rings: when it rings before the flag was read more than \<open>N\<close> times, \<open>N + 1\<close> rounds are
  enough, whatever the network does.
\<close>

theorem benchcore_returns:
  assumes "rings_by net N" and "n_sigaction net" and "\<not> keep_alive cfg" and "N < fuel"
  shows "\<exists>st'. benchcore net cfg host port req fuel start_state = Some (Inr st')"
proof -
  let ?st1 = "record_event (NvAlarm (benchtime cfg)) start_state"
  have "\<exists>st'. close_loop net cfg host port req fuel ?st1 = Some st'"
    by (rule close_loop_returns [OF assms(1)]) (use assms(4) in \<open>auto simp: record_event_def start_state_def\<close>)
  then show ?thesis using assms(2,3) by (auto simp: benchcore_def Let_def)
qed

text \<open>
  C35 (liveness, negative). With \<open>--keep\<close>, a client whose server cannot be reached never returns,
  however often the alarm rings: the loop that connects does not read the flag.
\<close>

theorem keep_alive_hangs:
  assumes "\<And>h. -1 \<le> n_socket net h" and "\<And>h s. n_connect net h s < 0" and "n_sigaction net" and "keep_alive cfg"
  shows "benchcore net cfg host port req fuel st = None"
  using assms connect_loop_never [OF assms(1,2)] by (simp add: benchcore_def Let_def)

lemma Socket_to_connects:
  assumes "n_inet_addr net host \<noteq> INADDR_NONE" and "\<And>h. 0 \<le> n_socket net h" and "\<And>h s. 0 \<le> n_connect net h s"
  shows "\<exists>s st'. Socket_to net host port st = (s, st') \<and> 0 \<le> s \<and> speed st' = speed st \<and> failed st' = failed st \<and>
    bytes st' = bytes st \<and> polls (net_log st') = polls (net_log st) \<and> closed_by (net_log st') = closed_by (net_log st)"
  using assms by (simp add: Socket_to_def net_calls Let_def record_event_def not_less)

lemma close_loop_empty:
  assumes "closed_peer net k" and "force cfg = 0" and "n_inet_addr net host \<noteq> INADDR_NONE"
    and "\<And>h. 0 \<le> n_socket net h" and "\<And>h s. 0 \<le> n_connect net h s"
  shows "m \<le> k \<Longrightarrow> m < n \<Longrightarrow> polls (net_log st) = 2 * (k - m) \<Longrightarrow> failed st = 0 \<Longrightarrow> to_int (speed st) = speed st \<Longrightarrow>
    \<exists>st'. close_loop net cfg host port req n st = Some st' \<and> speed st' = to_int (speed st + int m) \<and>
      bytes st' = bytes st \<and> failed st' = 0"
proof (induction m arbitrary: n st)
  case 0
  then obtain n' where n: "n = Suc n'" by (cases n) auto
  have "poll_timer net st = (True, record_event (NvTimer True) st)"
    using assms(1) 0 by (simp add: closed_peer_def poll_timer_def Let_def)
  then show ?case using 0 by (simp add: n correct_failed_def record_event_def)
next
  case (Suc m)
  obtain n' where n: "n = Suc n'" "0 < n'" using Suc.prems(2) by (cases n) auto
  then obtain n2 where n2: "n' = Suc n2" by (cases n') auto
  have p: "polls (net_log st) + 1 < 2 * k" using Suc.prems(1,3) by simp
  let ?st1 = "record_event (NvTimer False) st"
  have 1: "poll_timer net st = (False, ?st1)" using assms(1) p by (simp add: closed_peer_def net_calls Let_def)
  obtain s st2 where s: "Socket_to net host port ?st1 = (s, st2)" "0 \<le> s" "speed st2 = speed st" "failed st2 = 0"
      "bytes st2 = bytes st" "polls (net_log st2) = polls (net_log st) + 1"
    using Socket_to_connects [OF assms(3-5), of port ?st1] Suc.prems(4) by (auto simp: record_event_def)
  define st3 where "st3 = snd (net_write net s req st2)"
  define st4 where "st4 = snd (if http10 cfg = 0 then net_shutdown net s st3 else (0, st3))"
  have w: "net_write net s req st2 = (int (length req), st3)"
    "(if http10 cfg = 0 then net_shutdown net s st3 else (0, st3)) = (0, st4)"
    using assms(1) by (simp_all add: closed_peer_def net_calls Let_def st3_def st4_def)
  have same: "polls (net_log st4) = polls (net_log st) + 1" "speed st4 = speed st" "failed st4 = 0" "bytes st4 = bytes st"
    using s by (simp_all add: st4_def st3_def net_calls Let_def record_event_def)
  define st5 where "st5 = record_event (NvRead s 0) (record_event (NvTimer False) st4)"
  define st6 where "st6 = record_event (NvClose s 0) st5"
  have r: "read_reply net n' s st4 = Some (True, st5)"
    using assms(1) p same(1) by (simp add: n2 st5_def closed_peer_def net_calls Let_def)
  have c: "net_close net s st5 = (0, st6)" using assms(1) by (simp add: st6_def closed_peer_def net_calls Let_def)
  have step: "close_loop net cfg host port req n st = close_loop net cfg host port req n' (add_page st6)"
    using 1 s(1,2) w r c assms(2) by (simp add: n(1))
  have same6: "polls (net_log (add_page st6)) = 2 * (k - m)" "failed (add_page st6) = 0"
    "speed (add_page st6) = to_int (speed st + 1)" "bytes (add_page st6) = bytes st"
    using same Suc.prems(1,3) by (simp_all add: st6_def st5_def add_page_def record_event_def)
  obtain st' where "close_loop net cfg host port req n' (add_page st6) = Some st'"
      "speed st' = to_int (speed (add_page st6) + int m)" "bytes st' = bytes (add_page st6)" "failed st' = 0"
    using Suc.IH [of n' "add_page st6"] Suc.prems(1,2) same6 n(1) by auto
  then show ?case using step same6 by (simp add: algebra_simps)
qed

text \<open>
  A page is counted for every request that was taken, also when the
  server answers nothing: a peer that has closed its side is \<open>k\<close> pages, no failure and no
  bytes, with one connection for every request and with \<open>--keep\<close>.
\<close>

theorem empty_replies_are_pages:
  assumes "closed_peer net k" and "n_inet_addr net host \<noteq> INADDR_NONE" and "\<And>h. 0 \<le> n_socket net h"
    and "\<And>h s. 0 \<le> n_connect net h s" and "n_sigaction net" and "force cfg = 0"
    and "k < fuel" and "k < 2 ^ 31"
  shows "\<exists>st'. benchcore net cfg host port req fuel start_state = Some (Inr st') \<and>
    speed st' = int k \<and> failed st' = 0 \<and> bytes st' = 0"
proof -
  let ?st1 = "record_event (NvAlarm (benchtime cfg)) start_state"
  have st1: "polls (net_log ?st1) = 0" "speed ?st1 = 0" "failed ?st1 = 0" "bytes ?st1 = 0"
    by (simp_all add: record_event_def start_state_def)
  show ?thesis
  proof (cases "keep_alive cfg")
    case True
    obtain s st2 where s: "Socket_to net host port ?st1 = (s, st2)" "0 \<le> s" "speed st2 = 0" "failed st2 = 0"
        "bytes st2 = 0" "polls (net_log st2) = 0"
      using Socket_to_connects [OF assms(2-4), of port ?st1] st1 by auto
    obtain n where n: "fuel = Suc n" using assms(7) by (cases fuel) auto
    have "connect_loop net host port fuel ?st1 = Some (s, st2)" using s by (simp add: n)
    moreover obtain st' where "keep_loop net cfg host port req fuel s st2 = Some st'"
        "speed st' = to_int (speed st2 + int k)" "bytes st' = bytes st2" "failed st' = 0"
      using keep_loop_empty [OF assms(1,6) s(2), of k fuel st2 host port req] s assms(7) by auto
    ultimately show ?thesis using assms(5,8) True s by (simp add: benchcore_def Let_def)
  next
    case False
    obtain st' where "close_loop net cfg host port req fuel ?st1 = Some st'" "speed st' = to_int (int k)" "bytes st' = 0"
        "failed st' = 0"
      using close_loop_empty [OF assms(1,6,2-4), of k fuel ?st1 port req] st1 assms(7) by auto
    then show ?thesis using assms(5,8) False by (simp add: benchcore_def Let_def)
  qed
qed

section \<open>Properties of the whole run\<close>

text \<open>A system on which the server answers and every call of the parent succeeds.\<close>

definition net_ok :: "net \<Rightarrow> string \<Rightarrow> bool" where
  "net_ok net server \<longleftrightarrow> n_inet_addr net server \<noteq> INADDR_NONE \<and> (\<forall>h. 0 \<le> n_socket net h) \<and>
     (\<forall>h s. 0 \<le> n_connect net h s) \<and> (\<forall>h. n_pipe net h) \<and> (\<forall>h. 0 < n_fork net h) \<and> (\<forall>h. n_fdopen net h)"

definition server_of :: "bench_config \<Rightarrow> string \<Rightarrow> string" where
  "server_of cfg host = (case proxyhost cfg of None \<Rightarrow> host | Some p \<Rightarrow> p)"

definition report_of :: "bench_state \<Rightarrow> int \<times> int \<times> int" where
  "report_of st = (speed st, failed st, bytes st)"

definition client_ended :: "bench_config \<Rightarrow> string \<Rightarrow> string \<Rightarrow> bench_state \<Rightarrow> bool" where
  "client_ended cfg server req st \<longleftrightarrow> (\<exists>net fuel st0. in_range st0 \<and>
     benchcore net cfg server (proxyport cfg) req fuel st0 = Some (Inr st))"

lemma client_report_ok: "client_ended cfg server req st \<Longrightarrow> report_ok (report_of st)"
  using in_range_benchcore to_int_range [of "speed st"] to_int_range [of "failed st"] to_int_range [of "bytes st"]
  by (fastforce simp: client_ended_def report_ok_def report_of_def in_range_def int32_def)

definition totals :: "(int \<times> int \<times> int) list \<Rightarrow> int \<times> int \<times> int" where
  "totals rs = (to_int (\<Sum>(a, b, c) \<leftarrow> rs. a), to_int (\<Sum>(a, b, c) \<leftarrow> rs. b), to_int (\<Sum>(a, b, c) \<leftarrow> rs. c))"

lemma bench_parent:
  assumes "net_ok net (server_of cfg host)" and "0 < clients cfg"
  shows "\<exists>h. bench rates junk net cfg host req fuel st =
    (case collect True (n_pipe_text net h) (clients cfg) (clients cfg, junk) (0, 0, 0) of
       None \<Rightarrow> Some Waits_forever
     | Some (t, i, died) \<Rightarrow>
         Some (Returns (return_with i ((if died then [Stderr (''Some of our childrens died.'' @ [CHR 0x0A])] else []) @
           [Stdout (parent_report rates (benchtime cfg) t)]))))"
proof -
  obtain i st1 where 1: "Socket_to net (server_of cfg host) (proxyport cfg) st = (i, st1)" "0 \<le> i"
    using Socket_to_connects assms(1) unfolding net_ok_def by blast
  let ?st2 = "snd (net_close net i st1)"
  let ?st3 = "record_event (NvPipe (n_pipe net (net_log ?st2))) ?st2"
  obtain pid st4 where 4: "fork_loop net (clients cfg) 0 0 ?st3 = (clients cfg, pid, st4)" "0 < pid"
    using fork_loop_parent [of net 0 "clients cfg" 0 ?st3] assms by (auto simp: net_ok_def)
  show ?thesis
    using 1 4 assms(1) by (auto simp: bench_def Let_def server_of_def [symmetric] net_ok_def
        intro!: exI [of _ "net_log st4"] split: prod.split option.split)
qed

lemma bench_prints:
  assumes "net_ok net (server_of cfg host)" and "0 < clients cfg" and "int (length sts) \<le> clients cfg"
    and "\<And>st. st \<in> set sts \<Longrightarrow> client_ended cfg (server_of cfg host) req st"
    and "\<And>h. n_pipe_text net h = report_text (map report_of sts)"
  shows "bench rates junk net cfg host req fuel st0 = Some
    (if int (length sts) < clients cfg then Waits_forever
     else Returns (return_with (speed (last sts))
       [Stdout (parent_report rates (benchtime cfg) (totals (map report_of sts)))]))"
proof -
  let ?rs = "map report_of sts"
  have ok: "\<forall>t \<in> set ?rs. report_ok t" using client_report_ok [OF assms(4)] by auto
  have len: "int (length ?rs) \<le> clients cfg" and nil: "[] \<in> {[], [CHR 0x0A]}" using assms(3) by simp_all
  have f: "fold add_report ?rs (0, 0, 0) = totals ?rs"
    using fold_totals [of ?rs 0 0 0] by (simp only: to_int_0 add_0 totals_def)
  have "sts \<noteq> []" if "\<not> int (length sts) < clients cfg" using that assms(2) by auto
  then have "collect True ([] @ report_text ?rs) (clients cfg) (clients cfg, junk) (0, 0, 0) =
      (if int (length sts) < clients cfg then None else Some (totals ?rs, speed (last sts), False))"
    unfolding collect_reports [OF ok len assms(2) nil] f by (simp add: last_map report_of_def)
  moreover obtain h where "bench rates junk net cfg host req fuel st0 =
    (case collect True (n_pipe_text net h) (clients cfg) (clients cfg, junk) (0, 0, 0) of
       None \<Rightarrow> Some Waits_forever
     | Some (t, i, died) \<Rightarrow>
         Some (Returns (return_with i ((if died then [Stderr (''Some of our childrens died.'' @ [CHR 0x0A])] else []) @
           [Stdout (parent_report rates (benchtime cfg) t)]))))"
    using bench_parent [OF assms(1,2), of rates junk req fuel st0] by blast
  ultimately show ?thesis by (simp add: assms(5))
qed

lemma sum_list_mset_cong:
  fixes f :: "'a \<Rightarrow> int"
  assumes "mset xs = mset ys"
  shows "sum_list (map f xs) = sum_list (map f ys)"
proof -
  have "sum_mset (image_mset f (mset xs)) = sum_mset (image_mset f (mset ys))" by (simp only: assms)
  then show ?thesis by (simp only: mset_map [symmetric] sum_mset_sum_list)
qed

lemma totals_mset: "mset rs' = mset rs \<Longrightarrow> totals rs' = totals rs"
  by (simp only: totals_def sum_list_mset_cong [of rs' rs])

text \<open>
  C15 (round trip, parent and children together). The lines the clients write into the pipe are
  read back as they were meant: when every client reports, the parent prints the rates of the sums of their
  counters, modulo \<open>2 ^ 32\<close>, and no complaint, and its exit status is the number of pages of the client that
  reported last. When a report is missing the parent never returns: it holds the write end of the pipe
  itself, so the end of the file it would complain about does not come.
\<close>

theorem bench_totals:
  assumes "net_ok net (server_of cfg host)" and "0 < clients cfg" and "int (length sts) \<le> clients cfg"
    and "\<And>st. st \<in> set sts \<Longrightarrow> client_ended cfg (server_of cfg host) req st"
    and "\<And>h. n_pipe_text net h = report_text (map report_of sts)"
  shows "bench rates junk net cfg host req fuel st0 = Some
    (if int (length sts) < clients cfg then Waits_forever
     else Returns (return_with (speed (last sts))
       [Stdout (parent_report rates (benchtime cfg) (totals (map report_of sts)))]))"
  by (rule bench_prints [OF assms])

text \<open>
  The report does not depend on the order in which the clients finish; only
  the exit status does.
\<close>

fun printed_at_end :: "bench_end \<Rightarrow> printed list option" where
  "printed_at_end (Returns r) = Some (printed r)"
| "printed_at_end Waits_forever = None"

theorem bench_order_irrelevant:
  assumes "net_ok net (server_of cfg host)" and "0 < clients cfg" and "int (length sts) \<le> clients cfg"
    and "\<And>st. st \<in> set sts \<Longrightarrow> client_ended cfg (server_of cfg host) req st" and "mset sts' = mset sts"
  shows "map_option printed_at_end (bench rates junk (net\<lparr>n_pipe_text := \<lambda>h. report_text (map report_of sts')\<rparr>) cfg host req fuel st0) =
    map_option printed_at_end (bench rates junk (net\<lparr>n_pipe_text := \<lambda>h. report_text (map report_of sts)\<rparr>) cfg host req fuel st0)"
proof -
  have run: "map_option printed_at_end (bench rates junk (net\<lparr>n_pipe_text := \<lambda>h. report_text (map report_of ss)\<rparr>) cfg host req fuel st0) =
    Some (if int (length sts) < clients cfg then None
      else Some [Stdout (parent_report rates (benchtime cfg) (totals (map report_of sts)))])" if "mset ss = mset sts" for ss
  proof -
    have "length ss = length sts" "set ss = set sts" using that mset_eq_length mset_eq_setD by blast+
    moreover have "totals (map report_of ss) = totals (map report_of sts)" by (rule totals_mset) (simp add: that)
    moreover have "net_ok (net\<lparr>n_pipe_text := \<lambda>h. report_text (map report_of ss)\<rparr>) (server_of cfg host)"
      using assms(1) by (simp add: net_ok_def)
    ultimately show ?thesis
      using bench_prints [of "net\<lparr>n_pipe_text := \<lambda>h. report_text (map report_of ss)\<rparr>" cfg host ss req rates junk fuel st0]
        assms(2-4) by (simp add: return_with_def)
  qed
  show ?thesis by (simp only: run [OF assms(5)] run [OF refl])
qed

lemma benchcore_Inr: "n_sigaction net \<Longrightarrow> benchcore net cfg host port req fuel st \<noteq> Some (Inl code)"
  by (simp add: benchcore_def Let_def)

text \<open>
  A negative number of clients is not refused: no process is made, the program itself
  runs the client, writes its line into the pipe nobody reads, prints no result and returns 0.
\<close>

theorem negative_clients_no_report:
  assumes "clients cfg < 0" and "net_ok net (server_of cfg host)"
    and "bench rates junk net cfg host req fuel st0 = Some (Returns r)" and "n_sigaction net"
  shows "status r = 0 \<and> printed r = [] \<and> (\<exists>sp fl by. piped r = report_line sp fl by)"
proof -
  obtain i st1 where 1: "Socket_to net (server_of cfg host) (proxyport cfg) st0 = (i, st1)" "0 \<le> i"
    using Socket_to_connects assms(2) unfolding net_ok_def by blast
  have f: "fork_loop net (clients cfg) 0 0 st = (0, 0, st)" for st using assms(1) by (subst fork_loop.simps) simp
  let ?run = "benchcore net cfg (server_of cfg host) (proxyport cfg) req fuel
    (record_event (NvPipe (n_pipe net (net_log (snd (net_close net i st1))))) (snd (net_close net i st1)))"
  have "bench rates junk net cfg host req fuel st0 = (case ?run of None \<Rightarrow> None
    | Some (Inl code) \<Rightarrow> Some (Returns (return_with code []))
    | Some (Inr st5) \<Rightarrow> Some (Returns \<lparr>status = 0, printed = [],
        piped = report_line (speed st5) (failed st5) (bytes st5)\<rparr>))"
    using assms(2) 1 by (simp add: bench_def Let_def server_of_def [symmetric] net_ok_def f split: option.split sum.split)
  moreover from this obtain st5 where "?run = Some (Inr st5)"
    using assms(3) benchcore_Inr [OF assms(4)] by (auto split: option.splits sum.splits)
  ultimately show ?thesis using assms(3) by auto
qed

section \<open>Concrete runs\<close>

text \<open>
  A server on 127.0.0.1 that answers every request with 100 bytes, and an alarm that rings when
  the flag is read for the seventh time.
\<close>

definition demo_net :: net where
  "demo_net = \<lparr>n_inet_addr = \<lambda>s. 0x0100007F, n_hostent = \<lambda>h s. None, n_socket = \<lambda>h. 3, n_connect = \<lambda>h s. 0,
     n_write = \<lambda>h s r. int (length r), n_read = \<lambda>h s. if polls h mod 3 = 2 then 100 else 0,
     n_shutdown = \<lambda>h s. 0, n_close = \<lambda>h s. 0, n_timer = \<lambda>h. 6 \<le> polls h, n_sigaction = True,
     n_pipe = \<lambda>h. True, n_fork = \<lambda>h. 77, n_fdopen = \<lambda>h. True, n_pipe_text = \<lambda>h. []\<rparr>"

lemma demo_net_ok [simp]: "net_ok demo_net server" "n_sigaction demo_net" "rings_by demo_net 6"
  by (simp_all add: net_ok_def demo_net_def INADDR_NONE_def rings_by_def)

text \<open>Two pages in seven readings of the flag.\<close>

lemma demo_client:
  "\<exists>st. benchcore demo_net default_config ''h'' 80 ''GET'' 10 start_state = Some (Inr st) \<and>
    speed st = 2 \<and> failed st = 0 \<and> bytes st = 200"
proof -
  have "(case benchcore demo_net default_config ''h'' 80 ''GET'' 10 start_state of
     Some (Inr st) \<Rightarrow> speed st = 2 \<and> failed st = 0 \<and> bytes st = 200 | _ \<Rightarrow> False)"
    by code_simp
  then show ?thesis by (auto split: option.splits sum.splits)
qed

lemma benchcore_accounts_witness:
  "\<exists>st d. benchcore demo_net default_config ''h'' 80 ''GET'' 10 start_state = Some (Inr st) \<and> d \<in> {0, 1} \<and>
    speed st + failed st + d = int (attempts (net_log st)) \<and> bytes st = to_int (received (net_log st)) \<and>
    opened_by (net_log st) = closed_by (net_log st)"
proof -
  obtain st where st: "benchcore demo_net default_config ''h'' 80 ''GET'' 10 start_state = Some (Inr st)"
    using demo_client by blast
  have "\<not> keep_alive default_config" "(10::nat) \<le> 2 ^ 31" by (simp_all add: default_config_def)
  from benchcore_accounts [OF this(1) st this(2)] st show ?thesis by blast
qed

definition keep_config :: bench_config where
  "keep_config = default_config\<lparr>keep_alive := True\<rparr>"

lemma keep_alive_accounts_witness:
  "\<exists>st d. benchcore demo_net keep_config ''h'' 80 ''GET'' 10 start_state = Some (Inr st) \<and> d \<in> {0, 1} \<and>
    speed st + failed st + d = int (writes (net_log st)) \<and> bytes st = to_int (received (net_log st))"
proof -
  have "(case benchcore demo_net keep_config ''h'' 80 ''GET'' 10 start_state of
     Some (Inr st) \<Rightarrow> speed st = 3 | _ \<Rightarrow> False)" by code_simp
  then obtain st where st: "benchcore demo_net keep_config ''h'' 80 ''GET'' 10 start_state = Some (Inr st)"
    by (auto split: option.splits sum.splits)
  have "keep_alive keep_config" "(10::nat) \<le> 2 ^ 31" "\<And>h. -1 \<le> n_socket demo_net h"
    by (simp_all add: keep_config_def demo_net_def)
  from keep_alive_accounts [OF this(1) st this(2,3)] st show ?thesis by blast
qed

lemma benchcore_returns_witness:
  "\<exists>st. benchcore demo_net default_config ''h'' 80 ''GET'' 7 start_state = Some (Inr st)"
  by (rule benchcore_returns [OF demo_net_ok(3,2)]) (simp_all add: default_config_def)

text \<open>A server that refuses connections, and one that takes requests and sends nothing.\<close>

lemma keep_alive_hangs_witness:
  "benchcore (demo_net\<lparr>n_connect := \<lambda>h s. -1\<rparr>) keep_config ''h'' 80 ''GET'' 1000000 start_state = None"
  by (rule keep_alive_hangs) (simp_all add: demo_net_def keep_config_def)

lemma empty_replies_are_pages_witness:
  "\<exists>st. benchcore (demo_net\<lparr>n_read := \<lambda>h s. 0, n_timer := \<lambda>h. 2 * 1000 \<le> polls h\<rparr>) keep_config ''h'' 80 ''GET'' 1001
     start_state = Some (Inr st) \<and> speed st = int 1000 \<and> failed st = 0 \<and> bytes st = 0"
  by (rule empty_replies_are_pages)
    (simp_all add: closed_peer_def demo_net_def INADDR_NONE_def keep_config_def default_config_def)

text \<open>Two reports: of the two clients, or of three.\<close>

lemma demo_ended: "client_ended cfg server req st" if "\<not> keep_alive cfg" "in_range st" "failed st = 0"
    "net_log st = [NvAlarm (benchtime cfg), NvTimer True]"
proof -
  let ?st0 = "st\<lparr>net_log := []\<rparr>"
  have "benchcore (demo_net\<lparr>n_timer := \<lambda>h. True\<rparr>) cfg server (proxyport cfg) req (Suc 0) ?st0 = Some (Inr st)"
    using that by (simp add: benchcore_def demo_net_def Let_def poll_timer_def record_event_def correct_failed_def)
  moreover have "in_range ?st0" using that(2) by (simp add: in_range_def)
  ultimately show ?thesis unfolding client_ended_def by blast
qed

definition demo_reports :: "bench_state list" where
  "demo_reports = [\<lparr>speed = 5, failed = 0, bytes = 500, net_log = [NvAlarm 30, NvTimer True]\<rparr>,
     \<lparr>speed = 2, failed = 0, bytes = 200, net_log = [NvAlarm 30, NvTimer True]\<rparr>]"

lemma demo_reports_ended:
  "st \<in> set demo_reports \<Longrightarrow> client_ended (default_config\<lparr>clients := n\<rparr>) server req st"
  by (auto simp: demo_reports_def default_config_def in_range_def intro!: demo_ended)

lemma bench_totals_witness:
  "bench (\<lambda>sp fl by t. (sp + fl, by)) (0, 0) (demo_net\<lparr>n_pipe_text := \<lambda>h. report_text (map report_of demo_reports)\<rparr>)
    (default_config\<lparr>clients := 2\<rparr>) ''h'' ''GET'' 0 start_state = Some (Returns (return_with 2
      [Stdout (parent_report (\<lambda>sp fl by t. (sp + fl, by)) 30 (7, 0, 700))])) \<and>
   bench (\<lambda>sp fl by t. (sp + fl, by)) (0, 0) (demo_net\<lparr>n_pipe_text := \<lambda>h. report_text (map report_of demo_reports)\<rparr>)
    (default_config\<lparr>clients := 3\<rparr>) ''h'' ''GET'' 0 start_state = Some Waits_forever"
proof -
  let ?net = "demo_net\<lparr>n_pipe_text := \<lambda>h. report_text (map report_of demo_reports)\<rparr>"
  have "bench (\<lambda>sp fl by t. (sp + fl, by)) (0, 0) ?net (default_config\<lparr>clients := n\<rparr>) ''h'' ''GET'' 0 start_state =
    Some (if 2 < n then Waits_forever
      else Returns (return_with 2 [Stdout (parent_report (\<lambda>sp fl by t. (sp + fl, by)) 30 (7, 0, 700))]))" if "2 \<le> n" for n
    using bench_totals [of ?net "default_config\<lparr>clients := n\<rparr>" "''h''" demo_reports "''GET''" "\<lambda>sp fl by t. (sp + fl, by)"
        "(0, 0)" 0 start_state] demo_net_ok(1) demo_reports_ended that
    by (simp add: net_ok_def demo_net_def default_config_def demo_reports_def totals_def report_of_def INADDR_NONE_def)
  from this [of 2] this [of 3] show ?thesis by simp
qed

lemma bench_order_irrelevant_witness:
  "map_option printed_at_end (bench (\<lambda>sp fl by t. (sp, by)) (0, 0)
     (demo_net\<lparr>n_pipe_text := \<lambda>h. report_text (map report_of (rev demo_reports))\<rparr>)
     (default_config\<lparr>clients := 2\<rparr>) ''h'' ''GET'' 0 start_state) =
   map_option printed_at_end (bench (\<lambda>sp fl by t. (sp, by)) (0, 0)
     (demo_net\<lparr>n_pipe_text := \<lambda>h. report_text (map report_of demo_reports)\<rparr>)
     (default_config\<lparr>clients := 2\<rparr>) ''h'' ''GET'' 0 start_state)"
  by (rule bench_order_irrelevant [OF demo_net_ok(1) _ _ demo_reports_ended])
    (simp_all add: default_config_def demo_reports_def)

lemma negative_clients_no_report_witness:
  "\<exists>r sp fl by. bench (\<lambda>sp fl by t. (sp, by)) (0, 0) demo_net (default_config\<lparr>clients := -5\<rparr>) ''h'' ''GET'' 10 start_state = Some (Returns r) \<and>
     status r = 0 \<and> printed r = [] \<and> piped r = report_line sp fl by"
proof -
  have "bench (\<lambda>sp fl by t. (sp, by)) (0, 0) demo_net (default_config\<lparr>clients := -5\<rparr>) ''h'' ''GET'' 10 start_state \<notin> {None, Some Waits_forever}"
    by code_simp
  then obtain r where r: "bench (\<lambda>sp fl by t. (sp, by)) (0, 0) demo_net (default_config\<lparr>clients := -5\<rparr>) ''h'' ''GET'' 10
    start_state = Some (Returns r)" by (metis bench_end.exhaust insertCI option.exhaust)
  have "clients (default_config\<lparr>clients := -5\<rparr>) < 0" by simp
  from negative_clients_no_report [OF this demo_net_ok(1) r demo_net_ok(2)] r show ?thesis by blast
qed

end
