(* ===== verification/Bench_Server.thy ===== *)
theory Bench_Server
  imports Http_Send Bench_Core
begin

text \<open>
  The load generator as a client of the server: the request \<open>build_request\<close> (WebBench/webbench.c)
  makes, read and answered by \<open>HandlerRequest\<close> (src/protocal.cc).
\<close>

section \<open>The request on the wire\<close>

text \<open>The parts a direct GET request has on the wire.\<close>

definition version_name :: "bench_config \<Rightarrow> string" where
  "version_name cfg = (if http10 cfg = 1 then ''HTTP/1.0'' else ''HTTP/1.1'')"

definition bench_headers :: "bench_config \<Rightarrow> string \<Rightarrow> string list" where
  "bench_headers cfg h = [''User-Agent: WebBench '' @ PROGRAM_VERSION, ''Host: '' @ h] @
     (if http10 cfg = 1 then [] else [if keep_alive cfg then ''Connection: Keep-Alive'' else ''Connection: close''])"

lemma crlf_bytes: "map RByte crlf = [RByte CR, RByte LF]"
  by (simp add: crlf_def)

lemma direct_request_bytes:
  assumes "req_method cfg = METHOD_GET" and "http10 cfg \<in> {1, 2}" and "proxyhost cfg = None"
  shows "map RByte (concat (request_pieces cfg u h)) =
    map RByte (request_line ''GET'' u (version_name cfg)) @ RByte CR # RByte LF # header_block (bench_headers cfg h)"
  using assms by (auto simp: request_pieces_def method_name_def method_codes request_line_def version_name_def
      bench_headers_def header_block_def crlf_def)

lemma raise_version_get: "req_method cfg = METHOD_GET \<Longrightarrow> proxyhost cfg = None \<Longrightarrow> raise_version cfg = cfg"
  by (simp add: raise_version_def method_codes)

text \<open>What a host and a path must be for the request line and the host header to be single lines.\<close>

definition url_ok :: "string \<Rightarrow> string option \<Rightarrow> string \<Rightarrow> bool" where
  "url_ok h port path \<longleftrightarrow> name_text h \<and> plain h \<and> length h < 64 \<and> port_text port \<and> port_length port < 10 \<and>
     word_ok (CHR ''/'' # path) \<and> CHR 0x00 \<notin> set path \<and> length (authority h port) + length path \<le> 1492"

lemma build_request_direct_ok:
  assumes "url_ok h port path" and "proxyhost cfg = None"
  shows "build_request cfg (''http://'' @ authority h port @ CHR ''/'' # path) =
    (let cfg' = with_port port (raise_version cfg);
         request = concat (request_pieces cfg' (CHR ''/'' # path) h)
     in Inr (cfg', host_buffer h, request, [Stdout (CHR 0x0A # ''Request:'' @ CHR 0x0A # request @ [CHR 0x0A])]))"
proof -
  have u: "name_text h" "length h < MAXHOSTNAMELEN" "port_text port" "port_length port < 10"
    "length (authority h port) + length path \<le> 1492"
    using assms(1) by (simp_all add: url_ok_def MAXHOSTNAMELEN_def)
  show ?thesis
    unfolding build_request_direct [OF assms(2) u(5)] host_and_port_eq [OF u(1,3)]
    using u(2,4) buf_string_host [OF u(1,2)] direct_request_fits [OF u(5)] by (simp add: Let_def)
qed

lemma bench_headers_ok:
  assumes "plain h" and "length h < 64" and "x \<in> set (bench_headers cfg h)"
  shows "header_ok x"
  using assms by (auto simp: bench_headers_def header_ok_def plain_def PROGRAM_VERSION_def split: if_splits)

lemma with_port_keeps [simp]: "req_method (with_port port cfg) = req_method cfg" "http10 (with_port port cfg) = http10 cfg"
  by (cases port; simp)+

lemma bench_request_ok:
  assumes "url_ok h port path"
  shows "request_ok ''GET'' (CHR ''/'' # path) (version_name cfg) (bench_headers cfg h)"
proof -
  have "length (authority h port) + length path \<le> 1492" using assms by (simp add: url_ok_def)
  then show ?thesis using assms bench_headers_ok [of h _ cfg]
    by (auto simp: url_ok_def request_ok_def request_line_def version_name_def word_ok_def isspace_def)
qed

section \<open>Properties of the load generator and the server\<close>

text \<open>
  The request WebBench builds for a GET in
  HTTP/1.0 or 1.1 is one the server understands: for a target that is a plain file the server
  answers with the status line, the blank line and the file, and closes the connection.
\<close>

theorem webbench_gets_page:
  assumes "url_ok h port path" and "proxyhost cfg = None" and "req_method cfg = METHOD_GET" and "http10 cfg \<in> {1, 2}"
    and "build_request cfg (''http://'' @ authority h port @ CHR ''/'' # path) = Inr (cfg', host, request, out)"
    and "sock_in w = map RByte request" and "p = resource_path (fst (query_split (CHR ''/'' # path)))"
    and "plain_file os p st" and "full_send os" and "0 \<le> st_size st" "st_size st < 2 ^ 31"
  shows "\<exists>f1 f2 body w'. HandlerRequest os False fd0 size0 sock w = Inr w' \<and>
    trace w' = trace w @
      [EvLog INFO (request_line ''GET'' (CHR ''/'' # path) (version_name cfg)), EvOut (''path:'' @ p @ [LF]), EvStat p,
       EvOut (''not cgi begining'' @ [LF]), EvOpen p f1, EvOpen p f2,
       EvSend sock (status_line_of 200) (int (length (status_line_of 200))),
       EvSend sock [CR, LF] 2, EvSendfile sock f2 (st_size st) body, EvClose f2,
       EvLog INFO ''SendHttpRespone'', EvClose sock]"
proof -
  let ?u = "CHR ''/'' # path" and ?cfg = "with_port port cfg"
  have "request = concat (request_pieces ?cfg ?u h)"
    using assms(5) build_request_direct_ok [OF assms(1,2)] raise_version_get [OF assms(3,2)]
    by (auto simp: Let_def)
  then have "map RByte request = map RByte (request_line ''GET'' ?u (version_name ?cfg)) @
      RByte CR # RByte LF # header_block (bench_headers ?cfg h)"
    using direct_request_bytes [of ?cfg ?u h] assms(2-4) by simp
  then have inp: "sock_in w = map RByte (request_line ''GET'' ?u (version_name cfg)) @
      RByte CR # RByte LF # header_block (bench_headers ?cfg h) @ []"
    using assms(6) by (simp add: version_name_def)
  have ok: "request_ok ''GET'' ?u (version_name cfg) (bench_headers ?cfg h)"
    using bench_request_ok [OF assms(1), of ?cfg] by (simp add: version_name_def)
  have nul: "CHR 0x00 \<notin> set ?u" and get: "map toupper ''GET'' = ''GET''"
    using assms(1) by (simp_all add: url_ok_def toupper_def)
  show ?thesis
    using static_file_run [OF ok get inp nul assms(7-9), of fd0 size0 sock] assms(10,11)
    by (fastforce simp: to_int_id to_size_nonneg)
qed

text \<open>
  C28 (error, load generator and server end to end). In HTTP/0.9 WebBench sends a bare request line and closes
  its side. The server waits for the end of a header block, so it closes the
  connection without a byte of reply, whatever the file system holds. (The client counts such a
  connection as a page, see \<open>Bench_Core\<close>.)
\<close>

theorem http09_gets_nothing:
  assumes "url_ok h port path" and "proxyhost cfg = None" and "req_method cfg = METHOD_GET" and "http10 cfg = 0"
    and "build_request cfg (''http://'' @ authority h port @ CHR ''/'' # path) = Inr (cfg', host, request, out)"
    and "sock_in w = map RByte request"
  shows "\<exists>w'. HandlerRequest os stop0 fd0 size0 sock w = Inr w' \<and>
    trace w' = trace w @ [EvLog INFO (''GET '' @ CHR ''/'' # path), EvClose sock]"
proof -
  let ?l = "''GET '' @ CHR ''/'' # path" and ?cfg = "with_port port cfg" and ?ep = "new_EndPoint sock stop0 fd0 size0"
  have "request = concat (request_pieces ?cfg (CHR ''/'' # path) h)"
    using assms(5) build_request_direct_ok [OF assms(1,2)] raise_version_get [OF assms(3,2)]
    by (auto simp: Let_def)
  then have inp: "sock_in w = map RByte ?l @ RByte CR # RByte LF # []"
    using assms(2-4,6) by (simp add: request_pieces_def method_name_def method_codes crlf_def)
  have pl: "plain ?l" "length ?l < 2147483647"
    using assms(1) by (auto simp: url_ok_def word_ok_plain plain_def dest: word_ok_plain)
  have "m_request_line (m_http_request ?ep) = []" by (simp add: new_EndPoint_def new_HttpRequest_def)
  note line = RecvHttpRequestLine_hit [OF inp pl this]
  have "RecvHttpRequestHeader_loop ep w0 = (ep\<lparr>m_stop := True\<rparr>, w0)" if "sock_in w0 = []" for ep w0
    by (subst RecvHttpRequestHeader_loop.simps) (simp add: that ReaLine_def ReaLine_loop.simps size_int_def)
  then show ?thesis using line
    by (simp add: HandlerRequest_def RecvHttpRequest_def RecvHttpRequestHeader_def sys_close_def Let_def)
qed

section \<open>Concrete runs\<close>

text \<open>WebBench on the start page of the demonstration system.\<close>

lemma demo_url_ok: "url_ok ''h'' (Some ''8081'') ''index.html''"
  by (simp add: url_ok_def name_text_def plain_def word_ok_def isspace_def)

lemma demo_url_built: "proxyhost cfg = None \<Longrightarrow> \<exists>cfg' host request out.
    build_request cfg (''http://'' @ authority ''h'' (Some ''8081'') @ CHR ''/'' # ''index.html'') = Inr (cfg', host, request, out)"
  using build_request_direct_ok [OF demo_url_ok, of cfg] by (simp add: Let_def)

lemma webbench_gets_page_witness:
  "\<exists>cfg' host request out f1 f2 body w'.
    build_request default_config (''http://'' @ authority ''h'' (Some ''8081'') @ CHR ''/'' # ''index.html'') =
      Inr (cfg', host, request, out) \<and>
    HandlerRequest demo_os False 0 0 8 \<lparr>sock_in = map RByte request, trace = []\<rparr> = Inr w' \<and>
    trace w' = [] @
      [EvLog INFO (request_line ''GET'' (CHR ''/'' # ''index.html'') (version_name default_config)),
       EvOut (''path:'' @ ''wwwroot/index.html'' @ [LF]), EvStat ''wwwroot/index.html'',
       EvOut (''not cgi begining'' @ [LF]), EvOpen ''wwwroot/index.html'' f1, EvOpen ''wwwroot/index.html'' f2,
       EvSend 8 (status_line_of 200) (int (length (status_line_of 200))),
       EvSend 8 [CR, LF] 2, EvSendfile 8 f2 5 body, EvClose f2,
       EvLog INFO ''SendHttpRespone'', EvClose 8]"
proof -
  have d: "proxyhost default_config = None" "req_method default_config = METHOD_GET" "http10 default_config \<in> {1, 2}"
    by (simp_all add: default_config_def)
  obtain cfg' host request out where b: "build_request default_config
      (''http://'' @ authority ''h'' (Some ''8081'') @ CHR ''/'' # ''index.html'') = Inr (cfg', host, request, out)"
    using demo_url_built [OF d(1)] by blast
  let ?w = "\<lparr>sock_in = map RByte request, trace = []\<rparr>" and ?st = "\<lparr>st_mode = 0x81A4, st_size = 5\<rparr> :: stat"
  have w: "sock_in ?w = map RByte request" by simp
  have p: "''wwwroot/index.html'' = resource_path (fst (query_split (CHR ''/'' # ''index.html'')))"
    by (simp add: query_split_def cut_of_def resource_path_def WWW_ROOT_def HOME_PAGE_def)
  have st: "plain_file demo_os ''wwwroot/index.html'' ?st" "0 \<le> st_size ?st" "st_size ?st < 2 ^ 31"
    by (simp_all add: plain_file_def demo_os_def S_ISDIR_def executable_def)
  from webbench_gets_page [OF demo_url_ok d b w p st(1) demo_os_laws(1) st(2,3), of 0 0 8] b show ?thesis
    unfolding world.simps stat.simps by blast
qed

lemma http09_gets_nothing_witness:
  "\<exists>cfg' host request out w'.
    build_request (default_config\<lparr>http10 := 0\<rparr>) (''http://'' @ authority ''h'' (Some ''8081'') @ CHR ''/'' # ''index.html'') =
      Inr (cfg', host, request, out) \<and>
    HandlerRequest demo_os False 0 0 8 \<lparr>sock_in = map RByte request, trace = []\<rparr> = Inr w' \<and>
    trace w' = [] @ [EvLog INFO (''GET '' @ CHR ''/'' # ''index.html''), EvClose 8]"
proof -
  let ?cfg = "default_config\<lparr>http10 := 0\<rparr>"
  have d: "proxyhost ?cfg = None" "req_method ?cfg = METHOD_GET" "http10 ?cfg = 0"
    by (simp_all add: default_config_def)
  obtain cfg' host request out where b: "build_request ?cfg
      (''http://'' @ authority ''h'' (Some ''8081'') @ CHR ''/'' # ''index.html'') = Inr (cfg', host, request, out)"
    using demo_url_built [OF d(1)] by blast
  let ?w = "\<lparr>sock_in = map RByte request, trace = []\<rparr>"
  have w: "sock_in ?w = map RByte request" by simp
  from http09_gets_nothing [OF demo_url_ok d b w, of demo_os False 0 0 8] b show ?thesis
    unfolding world.simps by blast
qed

end
