(* ===== verification/Bench_Pages.thy ===== *)
theory Bench_Pages
  imports Bench_Server Http_Spec
begin

text \<open>
  WebBench (WebBench/webbench.c) measuring this server (src/protocal.cc): what the handler replies to
  its requests of every method, and what its counters make of these replies.
\<close>

section \<open>Every direct request\<close>

text \<open>The request of any method on the wire, for a version with a header block.\<close>

lemma direct_request_wire:
  assumes "http10 cfg \<in> {1, 2}" and "proxyhost cfg = None"
  shows "map RByte (concat (request_pieces cfg u h)) =
    map RByte (request_line (method_name (req_method cfg)) u (version_name cfg)) @ RByte CR # RByte LF #
      header_block (bench_headers cfg h)"
  using assms by (auto simp: request_pieces_def request_line_def version_name_def
      bench_headers_def header_block_def crlf_def)

lemma raise_version_keeps [simp]: "req_method (raise_version cfg) = req_method cfg"
  by (simp add: raise_version_def Let_def)

lemma raise_version_range: "http10 cfg \<in> {0, 1, 2} \<Longrightarrow> http10 (raise_version cfg) \<in> {0, 1, 2}"
  by (auto simp: raise_version_def Let_def method_codes)

lemma method_name_word: "word_ok (method_name m)" "length (method_name m) \<le> 7"
  by (simp_all add: method_name_def word_ok_def isspace_def)

lemma direct_request_ok:
  assumes "url_ok h port path"
  shows "request_ok (method_name m) (CHR ''/'' # path) (version_name cfg) (bench_headers cfg h)"
proof -
  have "length (authority h port) + length path \<le> 1492" using assms by (simp add: url_ok_def)
  then show ?thesis using assms bench_headers_ok [of h _ cfg] method_name_word [of m]
    by (auto simp: url_ok_def request_ok_def request_line_def version_name_def word_ok_def isspace_def)
qed

lemma built_request:
  assumes "url_ok h port path" and "proxyhost cfg = None" and "http10 cfg \<in> {0, 1, 2}" and "0 < http10 (raise_version cfg)"
    and "build_request cfg (''http://'' @ authority h port @ CHR ''/'' # path) = Inr (cfg', host, request, out)"
  obtains v hs where "request_ok (method_name (req_method cfg)) (CHR ''/'' # path) v hs"
    "map RByte request = map RByte (request_line (method_name (req_method cfg)) (CHR ''/'' # path) v) @
       RByte CR # RByte LF # header_block hs @ []"
proof -
  let ?cfg = "with_port port (raise_version cfg)" and ?u = "CHR ''/'' # path"
  have req: "request = concat (request_pieces ?cfg ?u h)"
    using assms(5) build_request_direct_ok [OF assms(1,2)] by (auto simp: Let_def)
  have v: "http10 ?cfg \<in> {1, 2}" "proxyhost ?cfg = None" "req_method ?cfg = req_method cfg"
    using raise_version_range [OF assms(3)] assms(2,4) by (auto simp: raise_version_def Let_def split: option.split)
  show thesis
    by (rule that [OF direct_request_ok [OF assms(1)]]) (use direct_request_wire [OF v(1,2)] v(3) in \<open>simp add: req\<close>)
qed

lemma webbench_reply:
  assumes "url_ok h port path" and "proxyhost cfg = None" and "http10 cfg \<in> {0, 1, 2}" and "0 < http10 (raise_version cfg)"
    and "build_request cfg (''http://'' @ authority h port @ CHR ''/'' # path) = Inr (cfg', host, request, out)"
    and "serves os fs" and "sock_in w = map RByte request" and "EvSignal ''SIGCHLD'' \<in> set (trace w)"
  shows "case http_spec fs (method_name (req_method cfg)) (CHR ''/'' # path) of
      None \<Rightarrow> HandlerRequest os False fd0 size0 sock w = Inl Blocked_forever
    | Some r \<Rightarrow> \<exists>w'. HandlerRequest os False fd0 size0 sock w = Inr w' \<and>
        wire sock (trace w') = wire sock (trace w) @ reply_bytes r"
proof -
  obtain v hs where ok: "request_ok (method_name (req_method cfg)) (CHR ''/'' # path) v hs"
    and bytes: "map RByte request = map RByte (request_line (method_name (req_method cfg)) (CHR ''/'' # path) v) @
       RByte CR # RByte LF # header_block hs @ []"
    by (rule built_request [OF assms(1-5)])
  have nul: "CHR 0x00 \<notin> set (CHR ''/'' # path)" using assms(1) by (simp add: url_ok_def)
  show ?thesis
    by (rule handler_refines_spec [OF assms(6) ok nul _ assms(8)]) (use assms(7) bytes in simp)
qed

section \<open>A server that answers\<close>

text \<open>
  What is left on a connection of a reply of \<open>n\<close> bytes: it is there when the request was written, and
  every read takes its part.
\<close>

fun left_step :: "nat \<Rightarrow> int \<Rightarrow> net_event \<Rightarrow> nat \<Rightarrow> nat" where
  "left_step n s (NvWrite s' d r) a = (if s' = s then n else a)"
| "left_step n s (NvRead s' r) a = (if s' = s then a - nat r else a)"
| "left_step n s _ a = a"

definition left :: "nat \<Rightarrow> int \<Rightarrow> net_event list \<Rightarrow> nat" where
  "left n s h = fold (left_step n s) h 0"

text \<open>
  A peer that answers every request with \<open>n\<close> bytes and closes its side. A read gives some of the bytes left,
  at least one and not more than the buffer holds, and 0 when there are none; the alarm rings when the
  client has closed \<open>k\<close> connections.
\<close>

definition page_peer :: "net \<Rightarrow> nat \<Rightarrow> nat \<Rightarrow> bool" where
  "page_peer net n k \<longleftrightarrow> (\<forall>h s r. n_write net h s r = int (length r)) \<and>
     (\<forall>h s. if left n s h = 0 then n_read net h s = 0
        else 0 < n_read net h s \<and> n_read net h s \<le> int (min 1500 (left n s h))) \<and>
     (\<forall>h s. n_shutdown net h s = 0) \<and> (\<forall>h s. n_close net h s = 0) \<and>
     (\<forall>h. n_timer net h \<longleftrightarrow> k \<le> length (closed_by h))"

lemma left_append [simp]: "left n s (h @ es) = fold (left_step n s) es (left n s h)"
  by (simp add: left_def)

lemma page_peer_read:
  assumes "page_peer net n k"
  shows "left n s (net_log st) = 0 \<Longrightarrow> net_read net s st = (0, record_event (NvRead s 0) st)"
    and "0 < left n s (net_log st) \<Longrightarrow> \<exists>x. 0 < x \<and> x \<le> left n s (net_log st) \<and>
      net_read net s st = (int x, record_event (NvRead s (int x)) st)"
proof -
  have r: "if left n s h = 0 then n_read net h s = 0 else 0 < n_read net h s \<and> n_read net h s \<le> int (min 1500 (left n s h))" for h
    using assms by (simp add: page_peer_def)
  show "left n s (net_log st) = 0 \<Longrightarrow> net_read net s st = (0, record_event (NvRead s 0) st)"
    using r [of "net_log st"] by (simp add: net_read_def)
  assume "0 < left n s (net_log st)"
  then show "\<exists>x. 0 < x \<and> x \<le> left n s (net_log st) \<and> net_read net s st = (int x, record_event (NvRead s (int x)) st)"
    using r [of "net_log st"] by (intro exI [of _ "nat (n_read net (net_log st) s)"]) (auto simp: net_read_def Let_def)
qed

lemma page_peer_timer: "page_peer net n k \<Longrightarrow> length (closed_by (net_log st)) < k \<Longrightarrow>
    poll_timer net st = (False, record_event (NvTimer False) st)"
  by (simp add: page_peer_def poll_timer_def not_le)

lemma read_reply_all:
  assumes "page_peer net n k"
  shows "left n s (net_log st) = m \<Longrightarrow> length (closed_by (net_log st)) < k \<Longrightarrow> m < N \<Longrightarrow> to_int (bytes st) = bytes st \<Longrightarrow>
    \<exists>st'. read_reply net N s st = Some (True, st') \<and> closed_by (net_log st') = closed_by (net_log st) \<and>
      speed st' = speed st \<and> failed st' = failed st \<and> bytes st' = to_int (bytes st + int m)"
proof (induction m arbitrary: N st rule: less_induct)
  case (less m)
  obtain N' where N: "N = Suc N'" using less.prems(3) by (cases N) auto
  let ?st1 = "record_event (NvTimer False) st"
  have p: "poll_timer net st = (False, ?st1)" by (rule page_peer_timer [OF assms less.prems(2)])
  have l1: "left n s (net_log ?st1) = m" using less.prems(1) by (simp add: record_event_def)
  show ?case
  proof (cases "m = 0")
    case True
    then show ?thesis using p page_peer_read(1) [OF assms, of s ?st1] l1 less.prems(4) by (simp add: N record_event_def)
  next
    case False
    then obtain x where x: "0 < x" "x \<le> m" "net_read net s ?st1 = (int x, record_event (NvRead s (int x)) ?st1)"
      using page_peer_read(2) [OF assms, of s ?st1] l1 by auto
    let ?st3 = "add_bytes (int x) (record_event (NvRead s (int x)) ?st1)"
    have step: "read_reply net N s st = read_reply net N' s ?st3" using p x by (simp add: N)
    have st3: "left n s (net_log ?st3) = m - x" "closed_by (net_log ?st3) = closed_by (net_log st)"
      "bytes ?st3 = to_int (bytes st + int x)" "speed ?st3 = speed st" "failed ?st3 = failed st"
      using less.prems(1) by (simp_all add: add_bytes_def record_event_def)
    obtain st' where "read_reply net N' s ?st3 = Some (True, st')"
      "closed_by (net_log st') = closed_by (net_log st)" "speed st' = speed st" "failed st' = failed st"
      "bytes st' = to_int (bytes st + int m)"
    proof -
      have lt: "m - x < m" "m - x < N'" using x False less.prems(3) N by linarith+
      have "\<exists>st'. read_reply net N' s ?st3 = Some (True, st') \<and> closed_by (net_log st') = closed_by (net_log ?st3) \<and>
        speed st' = speed ?st3 \<and> failed st' = failed ?st3 \<and> bytes st' = to_int (bytes ?st3 + int (m - x))"
        by (rule less.IH [OF lt(1) st3(1) _ lt(2)]) (use st3(2,3) less.prems(2) in simp_all)
      then show thesis using that st3 x(2) by auto
    qed
    then show ?thesis using step by auto
  qed
qed

text \<open>What a request adds to the bytes: with \<open>--force\<close> the reply is not read.\<close>

definition read_bytes :: "bench_config \<Rightarrow> nat \<Rightarrow> nat" where
  "read_bytes cfg n = (if force cfg = 0 then n else 0)"

lemma close_loop_pages:
  assumes peer: "page_peer net b k" and "n_inet_addr net host \<noteq> INADDR_NONE"
    and "\<And>h. 0 \<le> n_socket net h" and "\<And>h s. 0 \<le> n_connect net h s"
  shows "m \<le> k \<Longrightarrow> m + b + 1 < n \<Longrightarrow> length (closed_by (net_log st)) = k - m \<Longrightarrow> failed st = 0 \<Longrightarrow>
    to_int (speed st) = speed st \<Longrightarrow> to_int (bytes st) = bytes st \<Longrightarrow>
    \<exists>st'. close_loop net cfg host port req n st = Some st' \<and> speed st' = to_int (speed st + int m) \<and>
      bytes st' = to_int (bytes st + int (m * read_bytes cfg b)) \<and> failed st' = 0"
proof (induction m arbitrary: n st)
  case 0
  then obtain n' where n: "n = Suc n'" by (cases n) auto
  have "poll_timer net st = (True, record_event (NvTimer True) st)"
    using peer 0 by (simp add: page_peer_def poll_timer_def Let_def)
  then show ?case using 0 by (simp add: n correct_failed_def record_event_def)
next
  case (Suc m)
  obtain n' where n: "n = Suc n'" "b < n'" using Suc.prems(2) by (cases n) auto
  let ?st1 = "record_event (NvTimer False) st"
  have 1: "poll_timer net st = (False, ?st1)" by (rule page_peer_timer [OF peer]) (use Suc.prems(1,3) in simp)
  obtain s st2 where s: "Socket_to net host port ?st1 = (s, st2)" "0 \<le> s" "speed st2 = speed st" "failed st2 = 0"
      "bytes st2 = bytes st" "closed_by (net_log st2) = closed_by (net_log st)"
    using Socket_to_connects [OF assms(2-4), of port ?st1] Suc.prems(4) by (auto simp: record_event_def)
  define st3 where "st3 = snd (net_write net s req st2)"
  define st4 where "st4 = snd (if http10 cfg = 0 then net_shutdown net s st3 else (0, st3))"
  have w: "net_write net s req st2 = (int (length req), st3)"
    "(if http10 cfg = 0 then net_shutdown net s st3 else (0, st3)) = (0, st4)"
    using peer by (simp_all add: page_peer_def net_calls Let_def st3_def st4_def)
  have same: "closed_by (net_log st4) = closed_by (net_log st)" "speed st4 = speed st" "failed st4 = 0" "bytes st4 = bytes st"
    "left b s (net_log st4) = b"
    using s by (simp_all add: st4_def st3_def net_calls Let_def record_event_def)
  obtain st5 where r: "(if force cfg = 0 then read_reply net n' s st4 else Some (True, st4)) = Some (True, st5)"
      "closed_by (net_log st5) = closed_by (net_log st)"
      "speed st5 = speed st" "failed st5 = 0" "bytes st5 = to_int (bytes st + int (read_bytes cfg b))"
  proof (cases "force cfg = 0")
    case True
    then show thesis using that read_reply_all [OF peer same(5), of n'] same n(2) Suc.prems(1,3,6)
      by (auto simp: read_bytes_def)
  qed (use that [of st4] same Suc.prems(6) in \<open>simp add: read_bytes_def\<close>)
  define st6 where "st6 = record_event (NvClose s 0) st5"
  have c: "net_close net s st5 = (0, st6)" using peer by (simp add: st6_def page_peer_def net_calls Let_def)
  have step: "close_loop net cfg host port req n st = close_loop net cfg host port req n' (add_page st6)"
    using 1 s(1,2) w r(1) c by (simp add: n(1))
  have same6: "length (closed_by (net_log (add_page st6))) = k - m" "failed (add_page st6) = 0"
    "speed (add_page st6) = to_int (speed st + 1)" "bytes (add_page st6) = to_int (bytes st + int (read_bytes cfg b))"
    using r Suc.prems(1,3) by (simp_all add: st6_def add_page_def record_event_def)
  obtain st' where "close_loop net cfg host port req n' (add_page st6) = Some st'"
      "speed st' = to_int (speed (add_page st6) + int m)" "bytes st' = to_int (bytes (add_page st6) + int (m * read_bytes cfg b))"
      "failed st' = 0"
    using Suc.IH [of n' "add_page st6"] Suc.prems(1,2) same6 n(1) by auto
  then show ?case using step same6 by (simp add: algebra_simps)
qed

lemma benchcore_pages:
  assumes "page_peer net b k" and "n_inet_addr net host \<noteq> INADDR_NONE" and "\<And>h. 0 \<le> n_socket net h"
    and "\<And>h s. 0 \<le> n_connect net h s" and "n_sigaction net" and "\<not> keep_alive cfg" and "k + b + 1 < fuel"
  shows "\<exists>st'. benchcore net cfg host port req fuel start_state = Some (Inr st') \<and>
    speed st' = to_int (int k) \<and> failed st' = 0 \<and> bytes st' = to_int (int (k * read_bytes cfg b))"
proof -
  let ?st1 = "record_event (NvAlarm (benchtime cfg)) start_state"
  have st1: "closed_by (net_log ?st1) = []" "speed ?st1 = 0" "failed ?st1 = 0" "bytes ?st1 = 0"
    by (simp_all add: record_event_def start_state_def)
  obtain st' where "close_loop net cfg host port req fuel ?st1 = Some st'" "speed st' = to_int (int k)"
      "bytes st' = to_int (int (k * read_bytes cfg b))" "failed st' = 0"
    using close_loop_pages [OF assms(1-4), of k fuel ?st1 cfg port req] st1 assms(7) by auto
  then show ?thesis using assms(5,6) by (simp add: benchcore_def Let_def)
qed

section \<open>Properties\<close>

text \<open>
  C6 (functional, load generator and server end to end). Every request WebBench builds for a direct URL, of
  any of its four methods and in any version with a header block, is understood: on a system
  that serves \<open>fs\<close> the server replies what the specification gives for the method and the target after
  the host. For HEAD, OPTIONS and TRACE this is the page for a bad request.
\<close>

theorem webbench_gets_reply:
  assumes "url_ok h port path" and "proxyhost cfg = None" and "http10 cfg \<in> {0, 1, 2}" and "0 < http10 (raise_version cfg)"
    and "build_request cfg (''http://'' @ authority h port @ CHR ''/'' # path) = Inr (cfg', host, request, out)"
    and "serves os fs" and "sock_in w = map RByte request" and "EvSignal ''SIGCHLD'' \<in> set (trace w)"
  shows "(case http_spec fs (method_name (req_method cfg)) (CHR ''/'' # path) of
      None \<Rightarrow> HandlerRequest os False fd0 size0 sock w = Inl Blocked_forever
    | Some r \<Rightarrow> \<exists>w'. HandlerRequest os False fd0 size0 sock w = Inr w' \<and>
        wire sock (trace w') = wire sock (trace w) @ reply_bytes r) \<and>
    (method_name (req_method cfg) = ''GET'' \<or>
     http_spec fs (method_name (req_method cfg)) (CHR ''/'' # path) = Some (error_reply fs 400 PAGE_400))"
proof -
  have "method_name (req_method cfg) = ''GET'' \<or>
     http_spec fs (method_name (req_method cfg)) (CHR ''/'' # path) = Some (error_reply fs 400 PAGE_400)"
    by (simp add: method_name_def http_spec_def toupper_def)
  with webbench_reply [OF assms] show ?thesis by blast
qed

text \<open>The bytes the server sends to a client whose request is \<open>request\<close>.\<close>

definition reply_length :: "os \<Rightarrow> string \<Rightarrow> nat" where
  "reply_length os request =
     (case HandlerRequest os False 0 0 8 \<lparr>sock_in = map RByte request, trace = [EvSignal ''SIGCHLD'']\<rparr> of
        Inl e \<Rightarrow> 0 | Inr w' \<Rightarrow> length (wire 8 (trace w')))"

text \<open>
  C5 (functional, load generator and server end to end). A client of WebBench that makes a connection for every
  request (no \<open>--keep\<close>) and whose peer sends as many bytes as the handler replies to the request WebBench
  built, in portions of any size from 1 to 1500, until the alarm rings after \<open>k\<close> connections,
  reports \<open>k\<close> pages and no failure, whether the reply is a page, an error page or the output of a
  program. Its bytes are \<open>k\<close> times the length of the specified reply, but 0 with \<open>--force\<close>,
  when no reply is read.
\<close>

theorem webbench_measures_server:
  assumes "url_ok h port path" and "proxyhost cfg = None" and "http10 cfg \<in> {0, 1, 2}" and "0 < http10 (raise_version cfg)"
    and "build_request cfg (''http://'' @ authority h port @ CHR ''/'' # path) = Inr (cfg', host, request, out)"
    and "serves os fs" and "http_spec fs (method_name (req_method cfg)) (CHR ''/'' # path) = Some r"
    and "page_peer net (reply_length os request) k" and "n_inet_addr net server \<noteq> INADDR_NONE"
    and "\<And>h. 0 \<le> n_socket net h" and "\<And>h s. 0 \<le> n_connect net h s" and "n_sigaction net"
    and "\<not> keep_alive cfg" and "k + length (reply_bytes r) + 1 < fuel"
    and "k < 2 ^ 31" and "k * length (reply_bytes r) < 2 ^ 31"
  shows "\<exists>st'. benchcore net cfg' server (proxyport cfg') request fuel start_state = Some (Inr st') \<and>
    speed st' = int k \<and> failed st' = 0 \<and>
    bytes st' = (if force cfg = 0 then int (k * length (reply_bytes r)) else 0)"
proof -
  let ?w = "\<lparr>sock_in = map RByte request, trace = [EvSignal ''SIGCHLD'']\<rparr>"
  have w: "sock_in ?w = map RByte request" "EvSignal ''SIGCHLD'' \<in> set (trace ?w)" "wire 8 (trace ?w) = []" by simp_all
  obtain w' where "HandlerRequest os False 0 0 8 ?w = Inr w'" "wire 8 (trace w') = reply_bytes r"
    using webbench_reply [OF assms(1-6) w(1,2), of 0 0 8] assms(7) w(3) by auto
  then have len: "reply_length os request = length (reply_bytes r)" by (simp add: reply_length_def)
  have "cfg' = with_port port (raise_version cfg)"
    using assms(5) build_request_direct_ok [OF assms(1,2)] by (auto simp: Let_def)
  then have "force cfg' = force cfg" "\<not> keep_alive cfg'"
    using assms(13) by (cases port; simp add: raise_version_def Let_def)+
  moreover have "to_int (int k) = int k"
    "to_int (int (k * read_bytes cfg' (length (reply_bytes r)))) = int (k * read_bytes cfg' (length (reply_bytes r)))"
    using assms(15,16) by (simp_all add: read_bytes_def del: of_nat_mult)
  ultimately show ?thesis
    using benchcore_pages [OF assms(8-12), unfolded len, of cfg' fuel "proxyport cfg'" request] assms(14)
    by (auto simp: read_bytes_def)
qed

section \<open>Concrete runs\<close>

definition page_net :: "nat \<Rightarrow> nat \<Rightarrow> net" where
  "page_net n k = demo_net\<lparr>n_read := \<lambda>h s. int (min 1500 (left n s h)), n_timer := \<lambda>h. k \<le> length (closed_by h)\<rparr>"

lemma page_net_peer: "page_peer (page_net n k) n k"
  by (simp add: page_peer_def page_net_def demo_net_def)

lemma demo_page_spec: "http_spec demo_fs ''GET'' (CHR ''/'' # ''index.html'') =
    Some \<lparr>r_code = 200, r_headers = [], r_body = ''hello''\<rparr>"
  by code_simp

lemma default_settings: "proxyhost default_config = None" "http10 default_config \<in> {0, 1, 2}"
  "0 < http10 (raise_version default_config)" "method_name (req_method default_config) = ''GET''"
  "force default_config = 0" "\<not> keep_alive default_config"
  by (simp_all add: default_config_def raise_version_def method_name_def method_codes)

lemma webbench_gets_reply_witness:
  "\<exists>cfg' host request out w'.
    build_request default_config (''http://'' @ authority ''h'' (Some ''8081'') @ CHR ''/'' # ''index.html'') =
      Inr (cfg', host, request, out) \<and>
    HandlerRequest (fs_os demo_fs) False 0 0 8 \<lparr>sock_in = map RByte request, trace = [EvSignal ''SIGCHLD'']\<rparr> = Inr w' \<and>
    wire 8 (trace w') = ''HTTP/1.1 200 OK'' @ [CR, LF, CR, LF] @ ''hello''"
proof -
  obtain cfg' host request out where b: "build_request default_config
      (''http://'' @ authority ''h'' (Some ''8081'') @ CHR ''/'' # ''index.html'') = Inr (cfg', host, request, out)"
    using demo_url_built [OF default_settings(1)] by blast
  let ?w = "\<lparr>sock_in = map RByte request, trace = [EvSignal ''SIGCHLD'']\<rparr>"
  have w: "sock_in ?w = map RByte request" "EvSignal ''SIGCHLD'' \<in> set (trace ?w)" by simp_all
  have bytes: "reply_bytes \<lparr>r_code = 200, r_headers = [], r_body = ''hello''\<rparr> =
      ''HTTP/1.1 200 OK'' @ [CR, LF, CR, LF] @ ''hello''"
    by code_simp
  show ?thesis
    using webbench_gets_reply [OF demo_url_ok default_settings(1-3) b demo_fs_serves w, of 0 0 8] b
    unfolding default_settings(4) demo_page_spec option.case bytes by auto
qed

lemma webbench_measures_server_witness:
  "\<exists>cfg' host request out st'.
    build_request default_config (''http://'' @ authority ''h'' (Some ''8081'') @ CHR ''/'' # ''index.html'') =
      Inr (cfg', host, request, out) \<and>
    benchcore (page_net (reply_length (fs_os demo_fs) request) 3) cfg' ''h'' (proxyport cfg') request 30 start_state =
      Some (Inr st') \<and> speed st' = 3 \<and> failed st' = 0 \<and> bytes st' = 72"
proof -
  obtain cfg' host request out where b: "build_request default_config
      (''http://'' @ authority ''h'' (Some ''8081'') @ CHR ''/'' # ''index.html'') = Inr (cfg', host, request, out)"
    using demo_url_built [OF default_settings(1)] by blast
  let ?net = "page_net (reply_length (fs_os demo_fs) request) 3"
  let ?r = "\<lparr>r_code = 200, r_headers = [], r_body = ''hello''\<rparr>"
  have net: "n_inet_addr ?net ''h'' \<noteq> INADDR_NONE" "\<And>h. 0 \<le> n_socket ?net h" "\<And>h s. 0 \<le> n_connect ?net h s"
    "n_sigaction ?net" by (simp_all add: page_net_def demo_net_def INADDR_NONE_def)
  have len: "length (reply_bytes ?r) = 24" by code_simp
  then have f: "3 + length (reply_bytes ?r) + 1 < 30" by simp
  have "http_spec demo_fs (method_name (req_method default_config)) (CHR ''/'' # ''index.html'') = Some ?r"
    unfolding default_settings(4) by (rule demo_page_spec)
  from webbench_measures_server [OF demo_url_ok default_settings(1-3) b demo_fs_serves this page_net_peer net
      default_settings(6) f] b len default_settings(5)
  show ?thesis by fastforce
qed

end
