(* ===== verification/Http_Descriptors.thy ===== *)
theory Http_Descriptors
  imports Http_Spec
begin

text \<open>
  The descriptors a handler opens and closes (src/protocal.cc): it closes its socket and what
  it opened itself, nothing else, in every run on every system.
\<close>

section \<open>The descriptors of one handler\<close>

text \<open>
  The descriptors a piece of a run owns: what it opened, and it closes only what it owns. A
  close of a failed \<open>open\<close>'s answer has no effect.
\<close>

definition own_fd :: "int \<Rightarrow> int multiset" where
  "own_fd fd = (if 0 < fd then {#fd#} else {#})"

fun own_step :: "event \<Rightarrow> int multiset \<Rightarrow> int multiset option" where
  "own_step (EvOpen p r) M = Some (M + own_fd r)"
| "own_step (EvPipe (Some (a, b))) M = Some (M + own_fd a + own_fd b)"
| "own_step (EvClose fd) M = (if fd \<le> 0 then Some M else if fd \<in># M then Some (M - {#fd#}) else None)"
| "own_step _ M = Some M"

fun own_run :: "event list \<Rightarrow> int multiset \<Rightarrow> int multiset option" where
  "own_run [] M = Some M"
| "own_run (e # es) M = Option.bind (own_step e M) (own_run es)"

lemma own_run_append: "own_run (xs @ ys) M = Option.bind (own_run xs M) (own_run ys)"
  by (induction xs arbitrary: M) (auto split: Option.bind_splits)

lemma own_step_frame: "own_step e A = Some B \<Longrightarrow> own_step e (A + K) = Some (B + K)"
  by (cases "(e, A)" rule: own_step.cases) (auto split: if_splits simp: multi_member_split)

lemma own_run_frame: "own_run es A = Some B \<Longrightarrow> own_run es (A + K) = Some (B + K)"
proof (induction es arbitrary: A)
  case (Cons e es)
  then obtain A' where "own_step e A = Some A'" "own_run es A' = Some B" by (auto split: Option.bind_splits)
  then show ?case using own_step_frame Cons.IH by simp
qed simp

text \<open>The answers in a piece of a run are those of the system.\<close>

fun honest_event :: "os \<Rightarrow> event list \<Rightarrow> event \<Rightarrow> bool" where
  "honest_event os h (EvOpen p r) \<longleftrightarrow> r = os_open os h p"
| "honest_event os h (EvPipe r) \<longleftrightarrow> r = os_pipe os h"
| "honest_event os h _ \<longleftrightarrow> True"

fun honest :: "os \<Rightarrow> event list \<Rightarrow> event list \<Rightarrow> bool" where
  "honest os h [] \<longleftrightarrow> True"
| "honest os h (e # es) \<longleftrightarrow> honest_event os h e \<and> honest os (h @ [e]) es"

lemma honest_append: "honest os h (xs @ ys) \<longleftrightarrow> honest os h xs \<and> honest os (h @ xs) ys"
  by (induction xs arbitrary: h) auto

text \<open>A run from \<open>w\<close> to \<open>w'\<close> that starts with the descriptors \<open>M\<close> and ends with \<open>M'\<close>.\<close>

definition lawful :: "os \<Rightarrow> world \<Rightarrow> world \<Rightarrow> int multiset \<Rightarrow> int multiset \<Rightarrow> bool" where
  "lawful os w w' M M' \<longleftrightarrow> (\<exists>es. trace w' = trace w @ es \<and> honest os (trace w) es \<and> own_run es M = Some M')"

lemma lawful_refl [simp]: "lawful os w w M M"
  by (simp add: lawful_def)

lemma lawful_trans [trans]:
  assumes "lawful os w w1 M M1" and "lawful os w1 w2 M1 M2"
  shows "lawful os w w2 M M2"
proof -
  obtain xs ys where "trace w1 = trace w @ xs" "honest os (trace w) xs" "own_run xs M = Some M1"
    "trace w2 = trace w1 @ ys" "honest os (trace w1) ys" "own_run ys M1 = Some M2"
    using assms by (auto simp: lawful_def)
  then show ?thesis unfolding lawful_def
    by (intro exI [of _ "xs @ ys"]) (simp add: honest_append own_run_append)
qed

lemma lawful_frame: "lawful os w w' M M' \<Longrightarrow> lawful os w w' (M + K) (M' + K)"
  using own_run_frame unfolding lawful_def by blast

lemma lawful_in [simp]: "lawful os w (w'\<lparr>sock_in := i\<rparr>) M M' = lawful os w w' M M'"
  by (simp add: lawful_def)

fun tame :: "event \<Rightarrow> bool" where
  "tame (EvOpen p r) \<longleftrightarrow> False"
| "tame (EvPipe r) \<longleftrightarrow> False"
| "tame (EvClose fd) \<longleftrightarrow> False"
| "tame _ \<longleftrightarrow> True"

lemma tame_step: "tame e \<Longrightarrow> own_step e M = Some M \<and> honest_event os h e"
  by (cases e) auto

lemma tame_run: "list_all tame es \<Longrightarrow> own_run es M = Some M \<and> honest os h es"
  by (induction es arbitrary: h) (auto simp: tame_step)

lemma lawful_tame: "grows tame w w' \<Longrightarrow> lawful os w w' M M"
  using tame_run by (fastforce simp: grows_def lawful_def)

lemma lawful_emit: "tame e \<Longrightarrow> lawful os w (emit e w) M M"
  by (rule lawful_tame) (simp add: grows_emit)

lemma lawful_open: "sys_open os p w = (fd, w') \<Longrightarrow> lawful os w w' M (M + own_fd fd)"
  by (auto simp: os_calls Let_def lawful_def)

lemma lawful_pipe:
  "sys_pipe os w = (None, w') \<Longrightarrow> lawful os w w' M M"
  "sys_pipe os w = (Some (a, b), w') \<Longrightarrow> lawful os w w' M (M + own_fd a + own_fd b)"
  by (auto simp: os_calls Let_def lawful_def)

lemma lawful_close: "lawful os w (sys_close fd w) (M + own_fd fd) M"
  by (simp add: os_calls lawful_def own_fd_def)

section \<open>The handler closes what it opened\<close>

lemma recv_event_tame: "recv_event e \<Longrightarrow> tame e"
  by (auto simp: recv_event_def)

lemma child_lawful: "cgi_child os q w = (c, w1) \<Longrightarrow> lawful os w w1 M M"
  by (auto simp: cgi_child_def Let_def intro!: lawful_tame grows_emit)

lemma write_lawful: "cgi_write_loop os fd s w = (out, w1) \<Longrightarrow> lawful os w w1 M M"
  by (rule lawful_tame [OF grows_mono [OF write_loop_grows]]) (auto simp: write_event_def)

lemma cgi_parent_lawful:
  assumes "cgi_parent os ep pid pin pout w = Inr (code, ep', w')"
  shows "lawful os w w' (M + own_fd (fst pin) + own_fd (snd pin) + own_fd (fst pout) + own_fd (snd pout)) M"
  using assms
proof (rule cgi_parent_cases)
  fix env prog w1 inp w3 out status ret
  assume c: "cgi_child os (m_http_request ep) w = ((env, prog), w1)"
    and l: "(if m_method (m_http_request ep) = ''POST''
        then cgi_write_loop os (snd pin) (m_request_body (m_http_request ep))
               (sys_close (snd pout) (sys_close (fst pin) w1))
        else ([], sys_close (snd pout) (sys_close (fst pin) w1))) = (inp, w3)"
    and t: "trace w' = trace w3 @
       [EvOut (''body:'' @ m_response_body (m_http_response ep) @ out @ [LF]), EvWaitpid pid ret,
        EvOut (''code'' @ show_int code @ [LF]), EvClose (fst pout), EvClose (snd pin)]"
  let ?N = "M + own_fd (snd pin) + own_fd (fst pout)"
  let ?w2 = "sys_close (snd pout) (sys_close (fst pin) w1)"
  let ?tail = "[EvOut (''body:'' @ m_response_body (m_http_response ep) @ out @ [LF]), EvWaitpid pid ret,
        EvOut (''code'' @ show_int code @ [LF])]"
  have "lawful os w w1 (?N + own_fd (snd pout) + own_fd (fst pin)) (?N + own_fd (snd pout) + own_fd (fst pin))"
    by (rule child_lawful [OF c])
  also have "lawful os w1 (sys_close (fst pin) w1) (?N + own_fd (snd pout) + own_fd (fst pin)) (?N + own_fd (snd pout))"
    by (rule lawful_close)
  also have "lawful os (sys_close (fst pin) w1) ?w2 (?N + own_fd (snd pout)) ?N" by (rule lawful_close)
  also have "lawful os ?w2 w3 ?N ?N" using l write_lawful by (auto split: if_splits)
  also have "lawful os w3 (w3\<lparr>trace := trace w3 @ ?tail\<rparr>) ?N ?N" by (rule lawful_tame) (simp add: grows_def)
  also have "lawful os (w3\<lparr>trace := trace w3 @ ?tail\<rparr>) (sys_close (fst pout) (w3\<lparr>trace := trace w3 @ ?tail\<rparr>)) ?N
      (M + own_fd (snd pin))" by (rule lawful_close)
  also have "lawful os (sys_close (fst pout) (w3\<lparr>trace := trace w3 @ ?tail\<rparr>))
      (sys_close (snd pin) (sys_close (fst pout) (w3\<lparr>trace := trace w3 @ ?tail\<rparr>))) (M + own_fd (snd pin)) M"
    by (rule lawful_close)
  finally show ?thesis using t by (simp add: lawful_def os_calls ac_simps)
qed

text \<open>The error returns of \<open>CgiProcess\<close> leave what was opened with the caller.\<close>

lemma CgiProcess_lawful:
  assumes "CgiProcess os ep w = Inr (code, ep', w')"
  shows "\<exists>N. lawful os w w' M (M + N)"
proof -
  obtain p1 w1 where 1: "sys_pipe os w = (p1, w1)" by fastforce
  show ?thesis
  proof (cases p1)
    case None
    then have "w' = w1" using assms 1 by (simp add: CgiProcess_def)
    then show ?thesis using lawful_pipe(1) 1 None by (auto intro: exI [of _ "{#}"])
  next
    case (Some pin)
    obtain p2 w2 where 2: "sys_pipe os w1 = (p2, w2)" by fastforce
    let ?A = "own_fd (fst pin) + own_fd (snd pin)"
    have l1: "lawful os w w1 M (M + ?A)"
      using lawful_pipe(2) [of os w "fst pin" "snd pin" w1 M] 1 Some by (simp add: ac_simps)
    show ?thesis
    proof (cases p2)
      case None
      then have "w' = w2" using assms 1 2 Some by (simp add: CgiProcess_def)
      moreover have "lawful os w w2 M (M + ?A)" using l1 lawful_pipe(1) 2 None lawful_trans by blast
      ultimately show ?thesis by blast
    next
      case (Some pout)
      note p2 = this
      let ?B = "own_fd (fst pout) + own_fd (snd pout)"
      obtain pid w3 where 3: "sys_fork os w2 = (pid, w3)" by fastforce
      have "lawful os w1 w2 (M + ?A) (M + ?A + ?B)"
        using lawful_pipe(2) [of os w1 "fst pout" "snd pout" w2 "M + ?A"] 2 p2 by (simp add: ac_simps)
      moreover have "lawful os w2 w3 (M + ?A + ?B) (M + ?A + ?B)"
        using 3 by (auto simp: os_calls Let_def intro: lawful_emit)
      ultimately have l3: "lawful os w w3 M (M + ?A + ?B)" using l1 lawful_trans by blast
      show ?thesis
      proof (cases "0 < pid")
        case True
        then have "cgi_parent os ep pid pin pout w3 = Inr (code, ep', w')"
          using assms 1 2 3 \<open>p1 = Some pin\<close> p2 by (simp add: CgiProcess_def)
        from cgi_parent_lawful [OF this, of M] have "lawful os w3 w' (M + ?A + ?B) M" by (simp add: ac_simps)
        with l3 have "lawful os w w' M (M + {#})" using lawful_trans by fastforce
        then show ?thesis by blast
      next
        case False
        then have "w' = w3" using assms 1 2 3 \<open>p1 = Some pin\<close> p2 by (simp add: CgiProcess_def)
        then have "lawful os w w' M (M + (?A + ?B))" using l3 by (simp only: add.assoc)
        then show ?thesis by blast
      qed
    qed
  qed
qed

lemma error_header_lawful:
  assumes "BuildErrorHeader os path ep w = (ep', w')"
  shows "lawful os w w' M (M + own_fd (m_fd (m_http_response ep')))"
proof -
  obtain fd w1 where 1: "sys_open os (c_str path) w = (fd, w1)" by fastforce
  then have o: "lawful os w w1 M (M + own_fd fd)" by (rule lawful_open)
  have "m_fd (m_http_response ep') = fd" "w' = w1 \<or> w' = snd (sys_stat os (c_str path) w1)"
    using assms 1
    by (auto simp: BuildErrorHeader_def sys_stat_def Let_def addToResponseHeader_def setFileSize_def split: if_splits option.splits)
  moreover have "lawful os w1 (snd (sys_stat os (c_str path) w1)) N N" for N
    by (simp add: sys_stat_def lawful_emit)
  ultimately show ?thesis using o lawful_trans by metis
qed

text \<open>After building, what \<open>SendHttpResponse\<close> will close is owned.\<close>

definition sendable :: "EndPoint \<Rightarrow> int multiset \<Rightarrow> bool" where
  "sendable ep N \<longleftrightarrow> m_cgi (m_http_request ep) \<or> own_fd (m_fd (m_http_response ep)) \<subseteq># N"

lemma helper_lawful:
  assumes run: "BuildResponseHelper os ep w = (ep', w')"
    and code: "m_status_code (m_http_response ep) \<in> {200, 400, 404, 500}"
    and ok: "m_status_code (m_http_response ep) = 200 \<Longrightarrow> sendable ep N"
  shows "\<exists>N'. lawful os w w' (M + N) (M + N') \<and> sendable ep' N'"
proof -
  let ?code = "m_status_code (m_http_response ep)"
  let ?ep1 = "on_response (\<lambda>r. r\<lparr>m_status_line := status_line_of ?code, m_res_blank := [CR, LF]\<rparr>) ep"
  consider "?code = 200" | "?code \<in> {400, 500}" | "?code = 404" using code by blast
  then show ?thesis
  proof cases
    case 1
    then have "ep' = ?ep1" "w' = w" using run by (simp_all add: BuildResponseHelper_200)
    then show ?thesis using ok [OF 1] by (intro exI [of _ N]) (simp add: sendable_def)
  next
    case 2
    then have "BuildErrorHeader os (if ?code = 400 then PAGE_400 else PAGE_500) ?ep1 w = (ep', w')"
      using run response_helper_error [OF refl] by simp
    from error_header_lawful [OF this, of "M + N"]
    have "lawful os w w' (M + N) (M + (N + own_fd (m_fd (m_http_response ep'))))" by (simp add: add.assoc)
    then show ?thesis by (intro exI conjI) (auto simp: sendable_def)
  next
    case 3
    obtain ep2 w2 where 4: "BuildErrorHeader os PAGE_404 ?ep1 w = (ep2, w2)" by fastforce
    have 5: "BuildErrorHeader os PAGE_500 ep2 w2 = (ep', w')" using run 3 4 by (simp add: response_helper_missing)
    have "lawful os w w' (M + N) (M + N + own_fd (m_fd (m_http_response ep2)) + own_fd (m_fd (m_http_response ep')))"
      by (rule lawful_trans [OF error_header_lawful [OF 4] error_header_lawful [OF 5]])
    then have "lawful os w w' (M + N) (M + (N + own_fd (m_fd (m_http_response ep2)) + own_fd (m_fd (m_http_response ep'))))"
      by (simp add: add.assoc)
    then show ?thesis by (intro exI conjI) (auto simp: sendable_def)
  qed
qed

lemma serve_lawful:
  assumes run: "serve_resource os st ep w = Inr (ep', w')"
  shows "\<exists>N. lawful os w w' M (M + N) \<and> sendable ep' N"
proof (cases "m_cgi (m_http_request ep)")
  case True
  let ?ep2 = "on_response (m_suffix_update (\<lambda>_. path_suffix (m_path (m_http_request ep))))
    (on_response (setFileSize (st_size st)) ep)"
  let ?w1 = "emit (EvOut (''cgi begin...'' @ [LF])) w"
  obtain c3 ep3 w3 where 3: "CgiProcess os ?ep2 ?w1 = Inr (c3, ep3, w3)"
    using run True by (cases "CgiProcess os ?ep2 ?w1") (auto simp: serve_resource_def Let_def)
  obtain c4 ep4 w4 where 4: "CgiProcess os ep3 w3 = Inr (c4, ep4, w4)"
    using run True 3 by (cases "CgiProcess os ep3 w3") (auto simp: serve_resource_def Let_def)
  let ?ep5 = "on_response (m_status_code_update (\<lambda>_. c4)) ep4"
  have h: "BuildResponseHelper os ?ep5 w4 = (ep', w')"
    using run True 3 4 by (simp add: serve_resource_def Let_def)
  have q: "m_cgi (m_http_request ?ep5)" "m_status_code (m_http_response ?ep5) \<in> {200, 400, 404, 500}"
    using True CgiProcess_frame [OF 3] CgiProcess_frame [OF 4] by (auto simp: status_codes)
  have "lawful os w ?w1 M M" by (rule lawful_emit) simp
  also obtain A where "lawful os ?w1 w3 M (M + A)" using CgiProcess_lawful [OF 3] by blast
  also obtain B where "lawful os w3 w4 (M + A) (M + A + B)" using CgiProcess_lawful [OF 4] by blast
  finally have "lawful os w w4 M (M + (A + B))" by (simp add: ac_simps)
  moreover obtain N where "lawful os w4 w' (M + (A + B)) (M + N)" "sendable ep' N"
    using helper_lawful [OF h q(2), of "A + B" M] q(1) by (auto simp: sendable_def)
  ultimately show ?thesis using lawful_trans by blast
next
  case False
  let ?p = "c_str (m_path (m_http_request ep))"
  let ?w1 = "emit (EvOut (''not cgi begining'' @ [LF])) w"
  let ?f3 = "os_open os (trace ?w1) ?p"
  let ?w3 = "emit (EvOpen ?p ?f3) ?w1"
  let ?f4 = "os_open os (trace ?w3) ?p"
  let ?w4 = "emit (EvOpen ?p ?f4) ?w3"
  let ?ep5 = "on_response (m_status_code_update (\<lambda>_. if 0 < ?f4 then OK else SERVER_ERROR))
    (on_response (m_fd_update (\<lambda>_. ?f4)) (on_response (m_fd_update (\<lambda>_. ?f3))
      (on_response (m_suffix_update (\<lambda>_. path_suffix (m_path (m_http_request ep))))
        (on_response (setFileSize (st_size st)) ep))))"
  have h: "BuildResponseHelper os ?ep5 ?w4 = (ep', w')"
    using run False by (simp add: serve_resource_def Let_def NotCgiProcess_eq)
  have "lawful os w ?w1 M M" by (rule lawful_emit) simp
  also have "lawful os ?w1 ?w3 M (M + own_fd ?f3)" by (rule lawful_open) (simp add: sys_open_def Let_def)
  also have "lawful os ?w3 ?w4 (M + own_fd ?f3) (M + own_fd ?f3 + own_fd ?f4)"
    by (rule lawful_open) (simp add: sys_open_def Let_def)
  finally have "lawful os w ?w4 M (M + (own_fd ?f3 + own_fd ?f4))" by (simp add: ac_simps)
  moreover have st: "m_status_code (m_http_response ?ep5) \<in> {200, 400, 404, 500}" by (simp add: status_codes)
  have sd: "sendable ?ep5 (own_fd ?f3 + own_fd ?f4)" by (simp add: sendable_def)
  obtain N where "lawful os ?w4 w' (M + (own_fd ?f3 + own_fd ?f4)) (M + N)" "sendable ep' N"
    using helper_lawful [OF h st sd, of M] by blast
  ultimately show ?thesis using lawful_trans by blast
qed

lemma build_lawful:
  assumes run: "BuildHttpResponse os ep w = Inr (ep', w')" and "fresh_response ep"
  shows "\<exists>N. lawful os w w' M (M + N) \<and> sendable ep' N"
proof (cases "m_status_code (m_http_response ep) = BAD_REQUEST")
  case True
  then have "BuildResponseHelper os ep w = (ep', w')" using run by (simp add: BuildHttpResponse_def)
  from helper_lawful [OF this, of "{#}" M] True show ?thesis by (simp add: status_codes)
next
  case False
  let ?path = "m_path (m_http_request ep)"
  let ?ep1 = "on_request (m_path_update (\<lambda>_. resource_path ?path)) ep"
  let ?w1 = "emit (EvOut (''path:'' @ resource_path ?path @ [LF])) w"
  let ?w2 = "emit (EvStat (c_str (resource_path ?path))) ?w1"
  let ?st = "os_stat os (trace ?w1) (c_str (resource_path ?path))"
  have tame2: "lawful os w w2 M M" if "grows tame ?w2 w2" for w2
    by (rule lawful_tame [OF grows_trans [OF _ that]]) (simp add: grows_emit)
  show ?thesis
  proof (cases ?st)
    case None
    let ?ep2 = "on_response (m_status_code_update (\<lambda>_. NOT_FOUND)) ?ep1"
    let ?w3 = "emit (EvOut (missing_msg @ ?path @ [LF])) ?w2"
    have "BuildResponseHelper os ?ep2 ?w3 = (ep', w')"
      using run False None by (simp add: BuildHttpResponse_def os_calls Let_def)
    then obtain N where "lawful os ?w3 w' M (M + N)" "sendable ep' N"
      using helper_lawful [of os ?ep2 ?w3 ep' w' "{#}" M] by (auto simp: status_codes)
    moreover have "lawful os w ?w3 M M" by (rule tame2) (simp add: grows_emit)
    ultimately show ?thesis using lawful_trans by blast
  next
    case (Some st)
    obtain ep2 st' w3 where l: "locate_resource os st ?ep1 ?w2 = (ep2, st', w3)" by (metis surj_pair)
    have "serve_resource os st' ep2 w3 = Inr (ep', w')"
      using run False Some l by (simp add: BuildHttpResponse_def os_calls Let_def)
    then obtain N where "lawful os w3 w' M (M + N)" "sendable ep' N" using serve_lawful by blast
    moreover have "lawful os w w3 M M"
      by (rule tame2) (use l in \<open>auto simp: locate_resource_def os_calls Let_def grows_emit split: if_splits\<close>)
    ultimately show ?thesis using lawful_trans by blast
  qed
qed

lemma send_lawful:
  assumes "sendable ep N"
  shows "\<exists>N'. lawful os w (SendHttpResponse os ep w) (M + N) (M + N')"
proof (cases rule: SendHttpResponse_cases [of ep w os])
  case (body w1)
  have "grows tame w w1" by (rule grows_mono [OF body(2)]) (auto simp: send_event_def)
  then have "lawful os w (SendHttpResponse os ep w) (M + N) (M + N)" unfolding body(3) by (intro lawful_tame grows_emit) simp_all
  then show ?thesis by blast
next
  case (page w1 n)
  let ?fd = "m_fd (m_http_response ep)"
  let ?w2 = "sys_sendfile os (m_sock ep) ?fd n w1"
  have "grows tame w w1" by (rule grows_mono [OF page(2)]) (auto simp: send_event_def)
  then have l: "lawful os w ?w2 (M + N) (M + N)" by (intro lawful_tame) (simp add: sys_sendfile_def grows_emit)
  obtain N' where N': "N = N' + own_fd ?fd"
    using assms page(1) by (auto simp: sendable_def subset_mset.le_iff_add ac_simps)
  note l
  also have "M + N = M + N' + own_fd ?fd" by (simp add: N' ac_simps)
  also have "lawful os ?w2 (sys_close ?fd ?w2) (M + N' + own_fd ?fd) (M + N')" by (rule lawful_close)
  also have "lawful os (sys_close ?fd ?w2) (SendHttpResponse os ep w) (M + N') (M + N')"
    unfolding page(3) by (rule lawful_emit) simp
  finally have "lawful os w (SendHttpResponse os ep w) (M + N' + own_fd ?fd) (M + N')" .
  then have "lawful os w (SendHttpResponse os ep w) (M + N) (M + N')" by (simp add: N' add.assoc)
  then show ?thesis by blast
qed

text \<open>The socket is closed last, and nothing before depends on owning it.\<close>

lemma handler_lawful_end:
  assumes "HandlerTask_call os stop0 fd0 size0 sock w = Inr w'"
  shows "\<exists>w1 N. lawful os w w1 {#} N \<and> w' = sys_close sock w1"
proof -
  let ?w0 = "emit (EvLog INFO ''HandlerTask'') w"
  have run: "HandlerRequest os stop0 fd0 size0 sock ?w0 = Inr w'" using assms by (simp add: HandlerTask_call_def)
  have start: "lawful os w ?w0 {#} {#}" by (rule lawful_emit) simp
  have recv: "lawful os ?w0 w1 {#} {#}" if "RecvHttpRequest (new_EndPoint sock stop0 fd0 size0) ?w0 = Inr (ep, w1)" for ep w1
    by (rule lawful_tame [OF grows_mono [OF RecvHttpRequest_grows [OF recv_inv_new that] recv_event_tame]])
  from run show ?thesis
  proof (cases rule: HandlerRequest_split)
    case (stopped ep w1)
    then show ?thesis using lawful_trans [OF start recv [OF stopped(1)]] by blast
  next
    case (served ep w1 ep2 w2)
    obtain N where b: "lawful os w1 w2 {#} ({#} + N)" "sendable ep2 N"
      using build_lawful [OF served(3) RecvHttpRequest_fresh(1) [OF served(1)]] by blast
    obtain N' where "lawful os w2 (SendHttpResponse os ep2 w2) ({#} + N) ({#} + N')" using send_lawful [OF b(2)] by blast
    then show ?thesis using lawful_trans [OF start recv [OF served(1)]] b(1) served(4) lawful_trans by blast
  qed
qed

lemma handler_lawful:
  assumes "HandlerTask_call os stop0 fd0 size0 sock w = Inr w'"
  shows "\<exists>N. lawful os w w' (own_fd sock) N"
proof -
  obtain w1 N where "lawful os w w1 {#} N" "w' = sys_close sock w1" using handler_lawful_end [OF assms] by blast
  then show ?thesis using lawful_trans [OF lawful_frame [of os w w1 "{#}" N "own_fd sock"]] lawful_close by fastforce
qed

end
