(* ===== verification/Http_Concurrent.thy ===== *)
theory Http_Concurrent
  imports Http_Descriptors Server_Run
begin

text \<open>
  Handlers at the same time (src/protocal.cc, in the workers of src/thread_pool.cc). The handlers
  share the descriptor table of the process. Here their system calls interleave in any way,
  and each still sends exactly the reply to its own client.
\<close>

section \<open>Interleaved runs\<close>

text \<open>
  A run of the process is the list of its events with the number of the handler each belongs to. The events
  of one handler, and everything that happened before its event number \<open>n\<close>.
\<close>

type_synonym marked = "(nat \<times> event) list"

definition own :: "nat \<Rightarrow> marked \<Rightarrow> event list" where
  "own c H = map snd (filter (\<lambda>x. fst x = c) H)"

fun before :: "nat \<Rightarrow> nat \<Rightarrow> marked \<Rightarrow> event list" where
  "before c n [] = []"
| "before c n ((d, e) # H) =
     (if d = c then (case n of 0 \<Rightarrow> [] | Suc m \<Rightarrow> e # before c m H) else e # before c n H)"

text \<open>
  The history a call of handler \<open>c\<close> is answered from: of its own events so far it makes all events of the
  process so far. \<open>g\<close> are the events before the handlers start.
\<close>

definition seen :: "event list \<Rightarrow> nat \<Rightarrow> marked \<Rightarrow> event list \<Rightarrow> event list" where
  "seen g c H h = (if take (length g) h = g \<and> prefix (drop (length g) h) (own c H)
     then g @ before c (length h - length g) H else h)"

definition view :: "os \<Rightarrow> (event list \<Rightarrow> event list) \<Rightarrow> os" where
  "view os f = \<lparr>os_stat = \<lambda>h. os_stat os (f h), os_open = \<lambda>h. os_open os (f h), os_pipe = \<lambda>h. os_pipe os (f h),
     os_fork = \<lambda>h. os_fork os (f h), os_exec = \<lambda>h. os_exec os (f h), os_freed = \<lambda>h. os_freed os (f h),
     os_write = \<lambda>h. os_write os (f h), os_waitpid = \<lambda>h. os_waitpid os (f h), os_send = \<lambda>h. os_send os (f h),
     os_sendfile = \<lambda>h. os_sendfile os (f h), os_socket = \<lambda>h. os_socket os (f h), os_bind = \<lambda>h. os_bind os (f h),
     os_listen = \<lambda>h. os_listen os (f h), os_accept = \<lambda>h. os_accept os (f h)\<rparr>"

lemma own_simps [simp]:
  "own c [] = []" "own c (x # H) = (if fst x = c then snd x # own c H else own c H)" "own c (A @ B) = own c A @ own c B"
  by (simp_all add: own_def)

lemma before_at: "before c (length (own c A)) (A @ (c, e) # B) = map snd A"
  by (induction A) auto

lemma before_prefix:
  assumes "n \<le> length (own c H)"
  shows "\<exists>A. prefix A H \<and> own c A = take n (own c H) \<and> before c n H = map snd A"
  using assms
proof (induction H arbitrary: n)
  case (Cons x H)
  obtain d e where x: "x = (d, e)" by fastforce
  show ?case
  proof (cases "d = c \<and> n = 0")
    case True
    then show ?thesis using x by (intro exI [of _ "[]"]) simp
  next
    case False
    define m where "m = (if d = c then n - 1 else n)"
    have "m \<le> length (own c H)" using Cons.prems False x by (auto simp: m_def)
    then obtain A where "prefix A H" "own c A = take m (own c H)" "before c m H = map snd A" using Cons.IH by blast
    then show ?thesis using False x
      by (intro exI [of _ "x # A"]) (auto simp: m_def split: nat.split)
  qed
qed simp

text \<open>What a handler sees is its own history, or everything up to some point of the run.\<close>

lemma seen_cases:
  obtains "seen g c H h = h"
  | A where "prefix A H" "h = g @ own c A" "seen g c H h = g @ map snd A"
proof (cases "take (length g) h = g \<and> prefix (drop (length g) h) (own c H)")
  case True
  then obtain k where k: "h = g @ k" "prefix k (own c H)" by (metis append_take_drop_id)
  then have "length k \<le> length (own c H)" "take (length k) (own c H) = k"
    by (auto simp: prefix_length_le prefix_def)
  then obtain A where "prefix A H" "own c A = k" "before c (length k) H = map snd A"
    using before_prefix by metis
  then show thesis using that(2) k by (simp add: seen_def)
qed (use that(1) in \<open>auto simp: seen_def\<close>)

lemma seen_at: "seen g c (A @ (c, e) # B) (g @ own c A) = g @ map snd A"
  by (simp add: seen_def before_at)

section \<open>Descriptors in use\<close>

fun use_step :: "event \<Rightarrow> int set \<Rightarrow> int set" where
  "use_step (EvOpen p r) S = (if 0 < r then insert r S else S)"
| "use_step (EvPipe (Some (a, b))) S = insert a (insert b S)"
| "use_step (EvAccept4 l r) S = (if 0 < r then insert r S else S)"
| "use_step (EvClose fd) S = S - {fd}"
| "use_step _ S = S"

definition in_use :: "event list \<Rightarrow> int set" where
  "in_use h = fold use_step h {}"

text \<open>\<open>open\<close> and \<open>pipe\<close> answer with descriptors that are not in use, as POSIX says.\<close>

definition fresh_fds :: "os \<Rightarrow> bool" where
  "fresh_fds os \<longleftrightarrow> (\<forall>h p. 0 < os_open os h p \<longrightarrow> os_open os h p \<notin> in_use h) \<and>
     (\<forall>h a b. os_pipe os h = Some (a, b) \<longrightarrow> a \<notin> in_use h \<and> b \<notin> in_use h \<and> a \<noteq> b)"

lemma in_use_snoc [simp]: "in_use (h @ [e]) = use_step e (in_use h)"
  by (simp add: in_use_def)

lemma opened_path_snoc: "opened_path fd (h @ [e]) = (if 0 < fd then open_step fd e (opened_path fd h) else None)"
  by (simp add: opened_path_append)

lemma opened_in_use: "opened_path fd h = Some p \<Longrightarrow> fd \<in> in_use h"
proof (induction h arbitrary: p rule: rev_induct)
  case (snoc e h)
  then show ?case
    by (cases "(e, in_use h)" rule: use_step.cases) (auto simp: opened_path_snoc split: if_splits)
qed (simp add: opened_path_def split: if_splits)

section \<open>Handlers do not disturb each other\<close>

text \<open>What a fresh descriptor is for one event, and what the event leaves alone.\<close>

fun fresh_event :: "int set \<Rightarrow> event \<Rightarrow> bool" where
  "fresh_event S (EvOpen p r) \<longleftrightarrow> (0 < r \<longrightarrow> r \<notin> S)"
| "fresh_event S (EvPipe (Some (a, b))) \<longleftrightarrow> a \<notin> S \<and> b \<notin> S \<and> a \<noteq> b"
| "fresh_event S _ \<longleftrightarrow> True"

lemma fresh_step:
  assumes "own_step e m = Some m'" and "fresh_event S e" and "\<And>x. count m x \<le> 1" and "set_mset m \<subseteq> {0<..} \<inter> S"
  shows "count m' x \<le> 1" and "set_mset m' \<subseteq> {0<..} \<inter> use_step e S"
proof -
  have zero: "x \<notin> S \<Longrightarrow> count m x = 0" for x using assms(4) by (meson IntD2 not_in_iff subsetD)
  have two: "count m x \<le> Suc (Suc 0)" for x using assms(3) [of x] by simp
  show "count m' x \<le> 1"
    using assms(1,2,3) zero two
    by (cases "(S, e)" rule: fresh_event.cases) (auto simp: own_fd_def le_diff_conv split: if_splits)
  have gone: "x \<notin># m - {#x#}" for x using assms(3) [of x] by (simp add: in_diff_count)
  show "set_mset m' \<subseteq> {0<..} \<inter> use_step e S"
    using assms zero gone
    by (cases "(S, e)" rule: fresh_event.cases)
      (auto simp: own_fd_def not_in_iff [symmetric] split: if_splits dest: in_diffD)
qed

lemma fresh_others:
  assumes "own_step e m = Some m'" and "fresh_event S e" and "K \<subseteq> {0<..} \<inter> S" and "K \<inter> set_mset m = {}"
  shows "K \<subseteq> use_step e S" and "K \<inter> set_mset m' = {}" and "fd \<in> K \<Longrightarrow> open_step fd e a = a"
  using assms
  by (cases "(S, e)" rule: fresh_event.cases; auto simp: own_fd_def split: if_splits dest: in_diffD; fail)+

lemma fresh_paths:
  assumes "own_step e m = Some m'" and "open_step fd e a = Some p" and "0 < fd"
    and "\<And>q. a = Some q \<Longrightarrow> a' = Some q \<and> fd \<in> set_mset m \<union> F"
  shows "open_step fd e a' = Some p" and "fd \<in> set_mset m' \<union> F"
proof -
  consider (opened) "e = EvOpen p fd" | (same) "a = Some p" "\<And>q. e \<noteq> EvOpen q fd" "e \<noteq> EvClose fd"
    using assms(2) by (cases "(fd, e, a)" rule: open_step.cases) (auto split: if_splits)
  then have "open_step fd e a' = Some p \<and> fd \<in> set_mset m' \<union> F"
  proof cases
    case opened
    then show ?thesis using assms(1,3) by (auto simp: own_fd_def)
  next
    case same
    then show ?thesis using assms(1) assms(4) [OF same(1)]
      by (cases "(e, m)" rule: own_step.cases) (auto simp: in_diff_count split: if_splits)
  qed
  then show "open_step fd e a' = Some p" and "fd \<in> set_mset m' \<union> F" by simp_all
qed

text \<open>Descriptors that were files before the handlers started: nobody owns them.\<close>

definition files_of :: "event list \<Rightarrow> int set" where
  "files_of g = {fd. opened_path fd g \<noteq> None}"

text \<open>
  The invariant of a point \<open>A\<close> of the run: \<open>M c\<close> are the descriptors handler \<open>c\<close> owns there. They are in use, each
  once and by one handler, and a file a handler has open is open for the process.
\<close>

definition owns :: "event list \<Rightarrow> int multiset \<Rightarrow> marked \<Rightarrow> nat \<Rightarrow> int multiset \<Rightarrow> bool" where
  "owns g k A c m \<longleftrightarrow> own_run (own c A) k = Some m \<and> (\<forall>x. count m x \<le> 1) \<and>
     set_mset m \<subseteq> {0<..} \<inter> in_use (g @ map snd A) \<and> files_of g \<inter> set_mset m = {} \<and>
     (\<forall>fd p. opened_path fd (g @ own c A) = Some p \<longrightarrow>
        opened_path fd (g @ map snd A) = Some p \<and> fd \<in> set_mset m \<union> files_of g)"

definition apart :: "event list \<Rightarrow> (nat \<Rightarrow> int multiset) \<Rightarrow> marked \<Rightarrow> (nat \<Rightarrow> int multiset) \<Rightarrow> bool" where
  "apart g K A M \<longleftrightarrow> files_of g \<subseteq> {0<..} \<inter> in_use (g @ map snd A) \<and> (\<forall>c. owns g (K c) A c (M c)) \<and>
     (\<forall>c d. c \<noteq> d \<longrightarrow> set_mset (M c) \<inter> set_mset (M d) = {})"

text \<open>One more event, of handler \<open>c\<close>, and what it does to the others.\<close>

lemma owns_other:
  assumes "owns g k0 A d k" and "d \<noteq> c" and "own_step e m = Some m'" and "fresh_event (in_use (g @ map snd A)) e"
    and "files_of g \<subseteq> {0<..} \<inter> in_use (g @ map snd A)" and "set_mset k \<inter> set_mset m = {}" "files_of g \<inter> set_mset m = {}"
  shows "owns g k0 (A @ [(c, e)]) d k"
proof -
  let ?S = "in_use (g @ map snd A)"
  let ?K = "set_mset k \<union> files_of g"
  have K: "?K \<subseteq> {0<..} \<inter> ?S" "?K \<inter> set_mset m = {}" using assms by (auto simp: owns_def)
  note others = fresh_others [OF assms(3,4) K]
  have S: "in_use (g @ map snd (A @ [(c, e)])) = use_step e ?S"
    using in_use_snoc [of "g @ map snd A" e] by simp
  have own: "own d (A @ [(c, e)]) = own d A" using assms(2) by simp
  have "opened_path fd (g @ map snd (A @ [(c, e)])) = Some p" if "opened_path fd (g @ map snd A) = Some p" "fd \<in> ?K" for fd p
    using opened_path_snoc [of fd "g @ map snd A" e] others(3) [OF that(2)] that(1) opened_path_pos [OF that(1)] by simp
  then show ?thesis using assms(1) others(1) unfolding owns_def S own by blast
qed

lemma owns_step:
  assumes "owns g k A c m" and "own_step e m = Some m'" and "fresh_event (in_use (g @ map snd A)) e"
    and "files_of g \<subseteq> {0<..} \<inter> in_use (g @ map snd A)"
  shows "owns g k (A @ [(c, e)]) c m'"
proof -
  let ?S = "in_use (g @ map snd A)"
  have S: "in_use (g @ map snd (A @ [(c, e)])) = use_step e ?S"
    using in_use_snoc [of "g @ map snd A" e] by simp
  have own: "own c (A @ [(c, e)]) = own c A @ [e]" by simp
  have m: "\<And>x. count m x \<le> 1" "set_mset m \<subseteq> {0<..} \<inter> ?S" "files_of g \<inter> set_mset m = {}"
    using assms(1) by (auto simp: owns_def)
  have "own_run (own c A @ [e]) k = Some m'" using assms(1,2) by (simp add: owns_def own_run_append)
  moreover have "files_of g \<inter> set_mset m' = {}" by (rule fresh_others(2) [OF assms(2-4) m(3)])
  moreover have "opened_path fd (g @ map snd (A @ [(c, e)])) = Some p \<and> fd \<in> set_mset m' \<union> files_of g"
    if o: "opened_path fd (g @ own c A @ [e]) = Some p" for fd p
  proof -
    have fd: "0 < fd" by (rule opened_path_pos [OF o])
    have st: "open_step fd e (opened_path fd (g @ own c A)) = Some p"
      using o fd opened_path_snoc [of fd "g @ own c A" e] by simp
    have pre: "\<And>q. opened_path fd (g @ own c A) = Some q \<Longrightarrow>
        opened_path fd (g @ map snd A) = Some q \<and> fd \<in> set_mset m \<union> files_of g"
      using assms(1) by (simp add: owns_def)
    show ?thesis using fresh_paths [OF assms(2) st fd pre] fd opened_path_snoc [of fd "g @ map snd A" e] by simp
  qed
  ultimately show ?thesis using fresh_step [OF assms(2,3) m(1,2)] unfolding owns_def S own by blast
qed

lemma apart_step:
  assumes "apart g K A M" and "own_step e (M c) = Some m" and "fresh_event (in_use (g @ map snd A)) e"
  shows "apart g K (A @ [(c, e)]) (M(c := m))"
proof -
  let ?S = "in_use (g @ map snd A)"
  have F: "files_of g \<subseteq> {0<..} \<inter> ?S" and o: "\<And>d. owns g (K d) A d (M d)"
    and dj: "\<And>a b. a \<noteq> b \<Longrightarrow> set_mset (M a) \<inter> set_mset (M b) = {}"
    using assms(1) by (auto simp: apart_def)
  have Fc: "files_of g \<inter> set_mset (M c) = {}" using o [of c] by (simp add: owns_def)
  have S: "in_use (g @ map snd (A @ [(c, e)])) = use_step e ?S"
    using in_use_snoc [of "g @ map snd A" e] by simp
  have "files_of g \<subseteq> use_step e ?S" by (rule fresh_others(1) [OF assms(2,3) F Fc])
  moreover have "owns g (K d) (A @ [(c, e)]) d ((M(c := m)) d)" for d
    using owns_step [OF o assms(2,3) F] owns_other [OF o _ assms(2,3) F _ Fc] dj by (cases "d = c") simp_all
  moreover have "set_mset (M d) \<inter> set_mset m = {}" if "d \<noteq> c" for d
    by (rule fresh_others(2) [OF assms(2,3) _ dj [OF that]]) (use o [of d] in \<open>simp add: owns_def\<close>)
  ultimately show ?thesis using F dj unfolding apart_def S by (auto simp: Int_commute)
qed

lemma apart_tame:
  assumes "apart g K A M" and "tame e"
  shows "apart g K (A @ [(c, e)]) M"
proof -
  have "fresh_event (in_use (g @ map snd A)) e" using assms(2) by (cases e) simp_all
  from apart_step [OF assms(1) conjunct1 [OF tame_step [OF assms(2)]] this] show ?thesis by simp
qed

text \<open>A socket that is accepted: the handler \<open>c\<close>, which has done nothing yet, will own it.\<close>

lemma apart_born:
  assumes "apart g K A M" and "own c A = []" and "K c = {#}" and "0 < r" and "r \<notin> in_use (g @ map snd A)" and "d \<noteq> c"
  shows "apart g (K(c := own_fd r)) (A @ [(d, EvAccept4 l r)]) (M(c := own_fd r))"
proof -
  let ?A = "A @ [(d, EvAccept4 l r)]"
  have a: "apart g K ?A M" by (rule apart_tame [OF assms(1)]) simp
  have use: "in_use (g @ map snd ?A) = insert r (in_use (g @ map snd A))"
    using in_use_snoc [of "g @ map snd A" "EvAccept4 l r"] assms(4) by simp
  have r: "r \<notin> files_of g" "\<And>b. r \<notin># M b" using assms(1,5) by (auto simp: apart_def owns_def)
  have own: "own c ?A = []" using assms(2,6) by simp
  have "owns g (K c) A c (M c)" using assms(1) unfolding apart_def by blast
  then have "M c = {#}" using assms(2,3) by (simp add: owns_def)
  then have c: "owns g (own_fd r) ?A c (own_fd r)"
    using a r(1) assms(2-4) use by (auto simp: apart_def owns_def own own_fd_def dest!: spec [of _ c])
  have "owns g ((K(c := own_fd r)) b) ?A b ((M(c := own_fd r)) b)" for b
    using a c by (cases "b = c") (auto simp: apart_def)
  moreover have "set_mset (own_fd r) \<inter> set_mset (M b) = {}" for b using r(2) by (auto simp: own_fd_def)
  ultimately show ?thesis using a unfolding apart_def by (auto simp: Int_commute)
qed

section \<open>A concurrent run\<close>

text \<open>
  Handler \<open>c\<close> of the run \<open>H\<close> after \<open>g\<close> has run to its end: its events in \<open>H\<close> are those of the code on its
  socket and the input of its client, with every call answered from what the whole process did before it.
\<close>

definition handler_ran :: "os \<Rightarrow> event list \<Rightarrow> int \<Rightarrow> rx list \<Rightarrow> nat \<Rightarrow> marked \<Rightarrow> bool" where
  "handler_ran os g sock input c H \<longleftrightarrow> (\<exists>fd0 size0 w. trace w = g @ own c H \<and>
     HandlerTask_call (view os (seen g c H)) False fd0 size0 sock \<lparr>sock_in = input, trace = g\<rparr> = Inr w)"

text \<open>
  A run of the handlers \<open>C\<close>. The rest of the process (the main thread, the other workers) opens, closes and
  sends nothing, but may accept.
\<close>

definition concurrent_run :: "os \<Rightarrow> event list \<Rightarrow> nat set \<Rightarrow> (nat \<Rightarrow> int) \<Rightarrow> (int \<Rightarrow> rx list) \<Rightarrow> marked \<Rightarrow> bool" where
  "concurrent_run os g C sock client H \<longleftrightarrow> (\<forall>c \<in> C. handler_ran os g (sock c) (client (sock c)) c H) \<and>
     (\<forall>(d, e) \<in> set H. d \<notin> C \<longrightarrow> tame e \<and> (\<forall>fd. event_wire fd e = []))"

text \<open>The sockets when the handlers start: accepted, each for one handler.\<close>

definition sockets_of :: "event list \<Rightarrow> nat set \<Rightarrow> (nat \<Rightarrow> int) \<Rightarrow> bool" where
  "sockets_of g C sock \<longleftrightarrow> inj_on sock C \<and> (\<forall>c \<in> C. 0 < sock c \<and> sock c \<in> in_use g \<and> opened_path (sock c) g = None)"

lemma ran_own:
  assumes "handler_ran os g sock input c H"
  shows "\<exists>N. own_run (own c H) (own_fd sock) = Some N" and "honest (view os (seen g c H)) g (own c H)"
    and "fd \<noteq> sock \<Longrightarrow> wire fd (own c H) = []"
proof -
  obtain fd0 size0 w where w: "trace w = g @ own c H"
    "HandlerTask_call (view os (seen g c H)) False fd0 size0 sock \<lparr>sock_in = input, trace = g\<rparr> = Inr w"
    using assms by (auto simp: handler_ran_def)
  from handler_lawful [OF w(2)] w(1)
  show "\<exists>N. own_run (own c H) (own_fd sock) = Some N" "honest (view os (seen g c H)) g (own c H)"
    by (auto simp: lawful_def)
  show "fd \<noteq> sock \<Longrightarrow> wire fd (own c H) = []" using handler_elsewhere(1) [OF w(2)] w(1) by simp
qed

lemma fresh_pipe: "fresh_event S (EvPipe r) \<longleftrightarrow> (\<forall>a b. r = Some (a, b) \<longrightarrow> a \<notin> S \<and> b \<notin> S \<and> a \<noteq> b)"
  by (cases "(S, EvPipe r)" rule: fresh_event.cases) auto

lemma fresh_honest:
  assumes "fresh_fds os" and "honest_event (view os (seen g c (A @ (c, e) # B))) (g @ own c A) e"
  shows "fresh_event (in_use (g @ map snd A)) e"
  using assms by (cases e) (auto simp: view_def seen_at fresh_fds_def fresh_pipe)

lemma apart_ran:
  assumes "fresh_fds os" and ran: "handler_ran os g sock input c (A @ (c, e) # B)" and "apart g K A M" and "K c = own_fd sock"
  shows "\<exists>m. apart g K (A @ [(c, e)]) (M(c := m))"
proof -
  have m: "own_run (own c A) (own_fd sock) = Some (M c)" using assms(3,4) by (metis apart_def owns_def)
  obtain N where "own_run (own c A @ e # own c B) (own_fd sock) = Some N" using ran_own(1) [OF ran] by auto
  then obtain m' where "own_step e (M c) = Some m'" using m by (auto simp: own_run_append split: Option.bind_splits)
  moreover have "fresh_event (in_use (g @ map snd A)) e"
    by (rule fresh_honest [OF assms(1), of g c A e B]) (use ran_own(2) [OF ran] in \<open>simp add: honest_append\<close>)
  ultimately show ?thesis using apart_step [OF assms(3)] by blast
qed

lemma files_of_in_use: "files_of g \<subseteq> {0<..} \<inter> in_use g"
  by (auto simp: files_of_def dest: opened_in_use opened_path_pos)

lemma apart_empty: "apart g (\<lambda>c. {#}) [] (\<lambda>c. {#})"
  using files_of_in_use by (auto simp: apart_def owns_def files_of_def)

definition socks_at :: "nat set \<Rightarrow> (nat \<Rightarrow> int) \<Rightarrow> nat \<Rightarrow> int multiset" where
  "socks_at C sock c = (if c \<in> C then own_fd (sock c) else {#})"

lemma apart_start:
  assumes "sockets_of g C sock"
  shows "apart g (socks_at C sock) [] (socks_at C sock)"
  using assms files_of_in_use
  by (auto simp: apart_def owns_def sockets_of_def socks_at_def own_fd_def files_of_def dest: inj_onD)

lemma apart_run:
  assumes "fresh_fds os" and "sockets_of g C sock" and run: "concurrent_run os g C sock client H"
  shows "prefix A H \<Longrightarrow> \<exists>M. apart g (socks_at C sock) A M"
proof (induction A rule: rev_induct)
  case Nil
  then show ?case using apart_start [OF assms(2)] by blast
next
  case (snoc x A)
  obtain c e B where x: "x = (c, e)" and H: "H = A @ (c, e) # B"
    using snoc.prems by (cases x) (auto simp: prefix_def)
  obtain M where M: "apart g (socks_at C sock) A M" using snoc append_prefixD by blast
  show ?case
  proof (cases "c \<in> C")
    case True
    then have "handler_ran os g (sock c) (client (sock c)) c (A @ (c, e) # B)" using run by (simp add: concurrent_run_def H)
    moreover have "socks_at C sock c = own_fd (sock c)" using True by (simp add: socks_at_def)
    ultimately show ?thesis using apart_ran [OF assms(1) _ M] x by blast
  next
    case False
    then have "tame e" using run by (auto simp: concurrent_run_def H)
    then show ?thesis using apart_tame [OF M] x by blast
  qed
qed

section \<open>Every handler sees its own file system\<close>

lemma view_serves:
  assumes srv: "serves os fs" and apart: "\<And>A. prefix A H \<Longrightarrow> \<exists>K M. apart g K A M"
  shows "serves (view os (seen g c H)) fs"
proof -
  let ?os = "view os (seen g c H)"
  note laws = serves_laws [OF srv]
  have files: "os_sendfile ?os h fd n = take (nat n) (contents fs p)" if o: "opened_path fd h = Some p" for h fd n p
  proof (rule seen_cases [of g c H h])
    assume "seen g c H h = h"
    then show ?thesis using laws(6) [OF o] by (simp add: view_def)
  next
    fix A assume A: "prefix A H" "h = g @ own c A" "seen g c H h = g @ map snd A"
    obtain K M where "owns g (K c) A c (M c)" using apart [OF A(1)] unfolding apart_def by blast
    then have "opened_path fd (g @ map snd A) = Some p" using o A(2) by (simp add: owns_def)
    then show ?thesis using laws(6) A(3) by (simp add: view_def)
  qed
  have sig: "EvSignal ''SIGCHLD'' \<in> set (seen g c H h)" if "EvSignal ''SIGCHLD'' \<in> set h" for h
    by (rule seen_cases [of g c H h]) (use that in \<open>auto simp: own_def\<close>)
  have "full_send ?os" using laws(1) by (simp add: view_def full_send_def)
  moreover have "sigchld_law ?os" using laws(2) sig by (simp add: view_def sigchld_law_def)
  moreover have "stat_fits (fs p) (os_stat ?os h p)" "0 < os_open ?os h p \<longleftrightarrow> fs p \<noteq> None"
    "fd \<le> 0 \<Longrightarrow> os_sendfile ?os h fd n = []" for h p fd n
    using laws(3,4,5) by (simp_all add: view_def)
  moreover have "can_run ?os p (program_at fs p)" for p using laws(7) [of p] by (simp add: view_def can_run_def)
  ultimately show ?thesis using files laws(8,9) unfolding serves_def by blast
qed

lemma ran_replies:
  assumes "serves os fs" and "\<And>A. prefix A H \<Longrightarrow> \<exists>K M. apart g K A M" and ran: "handler_ran os g sock input c H"
    and "EvSignal ''SIGCHLD'' \<in> set g" and asked: "asked fs (\<lambda>_. input) (\<lambda>_. r) sock"
  shows "wire sock (own c H) = reply_bytes r"
proof -
  obtain fd0 size0 w where w: "trace w = g @ own c H"
    "HandlerTask_call (view os (seen g c H)) False fd0 size0 sock \<lparr>sock_in = input, trace = g\<rparr> = Inr w"
    using ran by (auto simp: handler_ran_def)
  from handler_replies [OF view_serves [where c = c and H = H, OF assms(1,2)] asked assms(4), of fd0 size0] w show ?thesis by auto
qed

lemma wire_marked:
  assumes "\<And>d e. (d, e) \<in> set H \<Longrightarrow> d \<noteq> c \<Longrightarrow> event_wire fd e = []"
  shows "wire fd (map snd H) = wire fd (own c H)"
  using assms
proof (induction H)
  case (Cons x H)
  have "wire fd (map snd H) = wire fd (own c H)" by (rule Cons.IH) (use Cons.prems in auto)
  then show ?case using Cons.prems [of "fst x" "snd x"] by simp
qed simp

lemma wire_empty: "wire fd es = [] \<Longrightarrow> e \<in> set es \<Longrightarrow> event_wire fd e = []"
  by (auto simp: wire_def)

lemma own_member: "(d, e) \<in> set H \<Longrightarrow> e \<in> set (own d H)"
  by (force simp: own_def)

lemma concurrent_replies:
  assumes "serves os fs" and "fresh_fds os" and "sockets_of g C sock" and run: "concurrent_run os g C sock client H"
    and "EvSignal ''SIGCHLD'' \<in> set g" and asked: "\<And>c. c \<in> C \<Longrightarrow> asked fs client rep (sock c)" and "c \<in> C"
  shows "wire (sock c) (map snd H) = reply_bytes (rep (sock c))"
proof -
  have ran: "d \<in> C \<Longrightarrow> handler_ran os g (sock d) (client (sock d)) d H" for d using run by (simp add: concurrent_run_def)
  have "wire (sock c) (own c H) = reply_bytes (rep (sock c))"
    by (rule ran_replies [OF assms(1) _ ran [OF assms(7)] assms(5)])
      (use apart_run [OF assms(2,3) run] in blast, use asked [OF assms(7)] in \<open>simp add: asked_def\<close>)
  moreover have "event_wire (sock c) e = []" if e: "(d, e) \<in> set H" "d \<noteq> c" for d e
  proof (cases "d \<in> C")
    case True
    then have "sock c \<noteq> sock d" using assms(3,7) e(2) by (auto simp: sockets_of_def dest: inj_onD)
    then show ?thesis using wire_empty [OF ran_own(3) [OF ran [OF True]] own_member] e(1) by blast
  next
    case False
    then show ?thesis using run e(1) by (auto simp: concurrent_run_def)
  qed
  then have "wire (sock c) (map snd H) = wire (sock c) (own c H)" by (rule wire_marked)
  ultimately show ?thesis by simp
qed

text \<open>
  Let any number of handlers run at once, their system calls interleaved in any
  way with each other and with an accept loop, on a system that serves a file system and gives out descriptors that are not
  in use. If every client has sent a well-formed request the specification has a reply for, then each socket
  carries exactly the reply to its own client: no handler sends, closes or reads through another's descriptor.
\<close>

theorem concurrent_handlers_reply:
  assumes "serves os fs" and "fresh_fds os" and "sockets_of g C sock" and "concurrent_run os g C sock client H"
    and "EvSignal ''SIGCHLD'' \<in> set g" and "\<And>c. c \<in> C \<Longrightarrow> asked fs client rep (sock c)" and "c \<in> C"
  shows "wire (sock c) (g @ map snd H) = wire (sock c) g @ reply_bytes (rep (sock c))"
  using concurrent_replies [OF assms] by simp

section \<open>A system that gives out fresh descriptors\<close>

fun event_fds :: "event \<Rightarrow> int list" where
  "event_fds (EvOpen p r) = [r]"
| "event_fds (EvPipe (Some (a, b))) = [a, b]"
| "event_fds (EvAccept4 l r) = [r]"
| "event_fds _ = []"

definition next_fd :: "event list \<Rightarrow> int" where
  "next_fd h = fold max (concat (map event_fds h)) 2 + 1"

text \<open>The lowest descriptor from 4 to 20 that is free, as POSIX says, and above them a new one.\<close>

definition lowest_fd :: "event list \<Rightarrow> int" where
  "lowest_fd h = (case find (\<lambda>k. k \<notin> in_use h) [4..20] of Some k \<Rightarrow> k | None \<Rightarrow> next_fd h)"

definition fd_os :: "fs \<Rightarrow> os" where
  "fd_os fs = (fs_os fs)\<lparr>os_open := \<lambda>h p. if fs p = None then -1 else lowest_fd h,
     os_pipe := \<lambda>h. let a = lowest_fd h in Some (a, lowest_fd (h @ [EvOpen [] a])),
     os_accept := \<lambda>h l. (lowest_fd h, 0)\<rparr>"

lemma fold_max_le: "n \<le> fold max xs n" for n :: int
  by (induction xs arbitrary: n) (auto intro: order_trans [OF max.cobounded2])

lemma next_fd_pos: "0 < next_fd h"
  using fold_max_le [of 2 "concat (map event_fds h)"] by (simp add: next_fd_def)

lemma use_step_fds: "use_step e S \<subseteq> S \<union> set (event_fds e)"
  by (cases "(e, S)" rule: use_step.cases) auto

lemma fold_max_in: "y \<in> set xs \<or> y \<le> n \<Longrightarrow> y \<le> fold max xs n" for y n :: int
  using fold_max_le by (induction xs arbitrary: n) (force simp: max_def)+

lemma next_fd_fresh: "x \<in> in_use h \<Longrightarrow> x < next_fd h"
proof (induction h rule: rev_induct)
  case (snoc e h)
  have eq: "next_fd (h @ [e]) = fold max (event_fds e) (next_fd h - 1) + 1" by (simp add: next_fd_def)
  have "x \<in> use_step e (in_use h)" using snoc.prems by simp
  then have "x \<in> set (event_fds e) \<or> x \<in> in_use h" using use_step_fds by blast
  then have "x \<in> set (event_fds e) \<or> x \<le> next_fd h - 1" using snoc.IH by force
  from fold_max_in [OF this] show ?case by (simp add: eq)
qed (simp add: in_use_def)

lemma find_found: "find P xs = Some x \<Longrightarrow> P x \<and> x \<in> set xs"
  by (induction xs) (auto split: if_splits)

lemma lowest_fd: "lowest_fd h \<notin> in_use h" "0 < lowest_fd h"
proof -
  have "lowest_fd h \<notin> in_use h \<and> 0 < lowest_fd h"
  proof (cases "find (\<lambda>k. k \<notin> in_use h) [4..20]")
    case None
    then show ?thesis using next_fd_fresh [of _ h] next_fd_pos by (fastforce simp: lowest_fd_def)
  next
    case (Some k)
    from find_found [OF this] show ?thesis using Some by (auto simp: lowest_fd_def simp del: find.simps)
  qed
  then show "lowest_fd h \<notin> in_use h" "0 < lowest_fd h" by simp_all
qed

lemma fd_os_fresh: "fresh_fds (fd_os fs)"
proof -
  have "lowest_fd (h @ [EvOpen [] (lowest_fd h)]) \<notin> insert (lowest_fd h) (in_use h)" for h
    using lowest_fd(1) [of "h @ [EvOpen [] (lowest_fd h)]"] lowest_fd(2) [of h] by simp
  then have "lowest_fd h \<noteq> lowest_fd (h @ [EvOpen [] (lowest_fd h)])" "lowest_fd (h @ [EvOpen [] (lowest_fd h)]) \<notin> in_use h"
    for h by (metis insertCI)+
  then show ?thesis using lowest_fd by (simp add: fresh_fds_def fd_os_def Let_def)
qed

lemma fd_os_serves: "serves (fs_os fs) fs \<Longrightarrow> serves (fd_os fs) fs"
  unfolding serves_def full_send_def sigchld_law_def can_run_def by (simp add: fd_os_def fs_os_def lowest_fd Let_def)

section \<open>Two handlers and the accept loop\<close>

text \<open>A handler that sends the file \<open>p\<close> for the target \<open>u\<close>; two of them in turn.\<close>

definition file_events :: "int \<Rightarrow> string \<Rightarrow> string \<Rightarrow> int \<Rightarrow> int \<Rightarrow> string \<Rightarrow> event list" where
  "file_events sock u p f1 f2 body =
     [EvLog INFO ''HandlerTask'', EvLog INFO (request_line ''GET'' u ''HTTP/1.1''), EvOut (''path:'' @ p @ [LF]), EvStat p,
      EvOut (''not cgi begining'' @ [LF]), EvOpen p f1, EvOpen p f2,
      EvSend sock (status_line_of 200) (int (length (status_line_of 200))), EvSend sock [CR, LF] 2,
      EvSendfile sock f2 (int (length body)) body, EvClose f2, EvLog INFO ''SendHttpRespone'', EvClose sock]"

definition demo_start :: "event list" where
  "demo_start = [EvSignal ''SIGCHLD'', EvAccept4 3 8, EvAccept4 3 9]"

definition demo_target :: "int \<Rightarrow> string" where
  "demo_target s = (if s = 8 then ''/index.html'' else ''/sub/index.html'')"

definition demo_interleaved :: marked where
  "demo_interleaved = [(2, EvAccept4 3 10), (2, EvPush 10)] @
     concat (map (\<lambda>(a, b). [(0, a), (1, b)])
       (zip (file_events 8 ''/index.html'' ''wwwroot/index.html'' 4 6 ''hello'')
            (file_events 9 ''/sub/index.html'' ''wwwroot/sub/index.html'' 5 7 ''sub page'')))"

lemma demo_own:
  "own 0 demo_interleaved = file_events 8 ''/index.html'' ''wwwroot/index.html'' 4 6 ''hello''"
  "own (Suc 0) demo_interleaved = file_events 9 ''/sub/index.html'' ''wwwroot/sub/index.html'' 5 7 ''sub page''"
  by (simp_all add: demo_interleaved_def file_events_def)

lemma view_plain_file: "plain_file os p st \<Longrightarrow> plain_file (view os f) p st"
  by (simp add: plain_file_def view_def)

lemma demo_sub_words: "word_ok ''/sub/index.html''" "query_split ''/sub/index.html'' = (''/sub/index.html'', [])"
  "resource_path ''/sub/index.html'' = ''wwwroot/sub/index.html''"
  by (simp_all add: word_ok_def isspace_def query_split_def cut_of_def resource_path_def WWW_ROOT_def)

lemma demo_plain_files:
  "plain_file (fd_os demo_fs) ''wwwroot/index.html'' \<lparr>st_mode = 0x81A4, st_size = 5\<rparr>"
  "plain_file (fd_os demo_fs) ''wwwroot/sub/index.html'' \<lparr>st_mode = 0x81A4, st_size = 8\<rparr>"
  by (simp_all add: plain_file_def fd_os_def fs_os_def demo_fs_def S_ISDIR_def executable_def lowest_fd)

lemma view_full_send: "full_send os \<Longrightarrow> full_send (view os f)"
  by (simp add: full_send_def view_def)

lemma seen_take: "n \<le> length (own c H) \<Longrightarrow> seen g c H (g @ take n (own c H)) = g @ before c n H"
  by (simp add: seen_def take_is_prefix)

lemma file_events_run:
  assumes "plain_file os p st" and "full_send os" and "word_ok u" and "length u < 900"
    and "p = resource_path (fst (query_split u))" and "st_size st = int (length body)" and "length body < 2 ^ 31" "CHR 0x00 \<notin> set u"
    and "os_open os (g @ take 5 (file_events sock u p f1 f2 body)) p = f1"
    and "os_open os (g @ take 6 (file_events sock u p f1 f2 body)) p = f2"
    and "os_sendfile os (g @ take 9 (file_events sock u p f1 f2 body)) f2 (int (length body)) = body"
  shows "\<exists>w. trace w = g @ file_events sock u p f1 f2 body \<and>
    HandlerTask_call os False 0 0 sock \<lparr>sock_in = sock_in (demo_world ''GET'' u), trace = g\<rparr> = Inr w"
proof -
  let ?w = "emit (EvLog INFO ''HandlerTask'') \<lparr>sock_in = sock_in (demo_world ''GET'' u), trace = g\<rparr>"
  have inp: "sock_in ?w = map RByte (request_line ''GET'' u ''HTTP/1.1'') @ RByte CR # RByte LF # header_block [''Host: h''] @ []"
    by simp
  have ok: "request_ok ''GET'' u ''HTTP/1.1'' [''Host: h'']"
    by (rule demo_request_ok) (use assms(3,4) in \<open>simp_all add: word_ok_def isspace_def\<close>)
  have size: "int (to_size (to_int (st_size st))) = int (length body)"
    using assms(6,7) by (simp add: to_int_id to_size_nonneg)
  show ?thesis
    using static_file_trace [OF ok toupper_demo(1) inp assms(8,5,1,2), of 0 0 sock] assms(9-11)
    unfolding size by (auto simp: HandlerTask_call_def file_events_def)
qed

lemma demo_answers:
  "lowest_fd (demo_start @ before 0 5 demo_interleaved) = 4"
  "lowest_fd (demo_start @ before 0 6 demo_interleaved) = 6"
  "lowest_fd (demo_start @ before (Suc 0) 5 demo_interleaved) = 5"
  "lowest_fd (demo_start @ before (Suc 0) 6 demo_interleaved) = 7"
  "opened_path 6 (demo_start @ before 0 9 demo_interleaved) = Some ''wwwroot/index.html''"
  "opened_path 7 (demo_start @ before (Suc 0) 9 demo_interleaved) = Some ''wwwroot/sub/index.html''"
  by code_simp+

lemma demo_runs:
  "\<exists>w. trace w = demo_start @ own 0 demo_interleaved \<and>
    HandlerTask_call (view (fd_os demo_fs) (seen demo_start 0 demo_interleaved)) False 0 0 8
      \<lparr>sock_in = sock_in (demo_world ''GET'' ''/index.html''), trace = demo_start\<rparr> = Inr w"
  "\<exists>w. trace w = demo_start @ own (Suc 0) demo_interleaved \<and>
    HandlerTask_call (view (fd_os demo_fs) (seen demo_start (Suc 0) demo_interleaved)) False 0 0 9
      \<lparr>sock_in = sock_in (demo_world ''GET'' ''/sub/index.html''), trace = demo_start\<rparr> = Inr w"
proof -
  have full: "full_send (view (fd_os demo_fs) f)" for f by (rule view_full_send) (simp add: full_send_def fd_os_def fs_os_def)
  have len: "length (own 0 demo_interleaved) = 13" "length (own (Suc 0) demo_interleaved) = 13"
    unfolding demo_own by (simp_all add: file_events_def)
  note at = seen_take [of _ 0 demo_interleaved demo_start, unfolded len, unfolded demo_own(1)]
    seen_take [of _ "Suc 0" demo_interleaved demo_start, unfolded len, unfolded demo_own(2)]
  have files: "demo_fs ''wwwroot/index.html'' = Some (File False ''hello'' None)"
    "demo_fs ''wwwroot/sub/index.html'' = Some (File False ''sub page'' None)" by (simp_all add: demo_fs_def)
  show "\<exists>w. trace w = demo_start @ own 0 demo_interleaved \<and>
    HandlerTask_call (view (fd_os demo_fs) (seen demo_start 0 demo_interleaved)) False 0 0 8
      \<lparr>sock_in = sock_in (demo_world ''GET'' ''/index.html''), trace = demo_start\<rparr> = Inr w"
    unfolding demo_own
    by (rule file_events_run [OF view_plain_file [OF demo_plain_files(1)] full])
      (simp_all add: Http_Send.demo_words demo_queries Http_Send.demo_resource_paths view_def at fd_os_def files contents_def fs_os_def
        demo_answers)
  show "\<exists>w. trace w = demo_start @ own (Suc 0) demo_interleaved \<and>
    HandlerTask_call (view (fd_os demo_fs) (seen demo_start (Suc 0) demo_interleaved)) False 0 0 9
      \<lparr>sock_in = sock_in (demo_world ''GET'' ''/sub/index.html''), trace = demo_start\<rparr> = Inr w"
    unfolding demo_own
    by (rule file_events_run [OF view_plain_file [OF demo_plain_files(2)] full])
      (simp_all add: demo_sub_words view_def at fd_os_def files contents_def fs_os_def
        demo_answers)
qed

lemma demo_concurrent:
  "concurrent_run (fd_os demo_fs) demo_start {0, 1} (\<lambda>c. 8 + int c)
     (\<lambda>s. sock_in (demo_world ''GET'' (demo_target s))) demo_interleaved"
proof -
  have "\<forall>(d, e) \<in> set demo_interleaved. d \<notin> {0, 1} \<longrightarrow> tame e \<and> (\<forall>fd. event_wire fd e = [])"
    by (simp add: demo_interleaved_def file_events_def)
  then show ?thesis using demo_runs by (simp add: concurrent_run_def handler_ran_def demo_target_def) blast
qed

lemma demo_sockets: "sockets_of demo_start {0, 1} (\<lambda>c. 8 + int c)"
  by (simp add: sockets_of_def in_use_def demo_start_def opened_path_def)

definition demo_replies :: "int \<Rightarrow> http_reply" where
  "demo_replies s = \<lparr>r_code = 200, r_headers = [], r_body = (if s = 8 then ''hello'' else ''sub page'')\<rparr>"

lemma demo_both_asked: "asked demo_fs (\<lambda>s. sock_in (demo_world ''GET'' (demo_target s))) demo_replies s"
proof -
  have "http_spec demo_fs ''GET'' (demo_target s) = Some (demo_replies s)"
    unfolding demo_target_def demo_replies_def by (cases "s = 8") (simp_all, code_simp+)
  moreover have "request_ok ''GET'' (demo_target s) ''HTTP/1.1'' [''Host: h'']"
    by (rule demo_request_ok) (simp_all add: demo_words demo_sub_words demo_target_def)
  ultimately show ?thesis unfolding asked_def
    by (intro exI [of _ "''GET''"] exI [of _ "demo_target s"] exI [of _ "''HTTP/1.1''"] exI [of _ "[''Host: h'']"] exI [of _ "[]"])
       (simp add: demo_target_def)
qed

lemma concurrent_handlers_reply_witness:
  "wire 8 (demo_start @ map snd demo_interleaved) = ''HTTP/1.1 200 OK'' @ [CR, LF, CR, LF] @ ''hello'' \<and>
   wire 9 (demo_start @ map snd demo_interleaved) = ''HTTP/1.1 200 OK'' @ [CR, LF, CR, LF] @ ''sub page''"
proof -
  have sig: "EvSignal ''SIGCHLD'' \<in> set demo_start" and quiet: "wire s demo_start = []" for s
    by (simp_all add: demo_start_def)
  note reply = concurrent_handlers_reply [OF fd_os_serves [OF demo_fs_serves] fd_os_fresh demo_sockets demo_concurrent sig
      demo_both_asked]
  have bytes: "reply_bytes (demo_replies 8) = ''HTTP/1.1 200 OK'' @ [CR, LF, CR, LF] @ ''hello''"
    "reply_bytes (demo_replies 9) = ''HTTP/1.1 200 OK'' @ [CR, LF, CR, LF] @ ''sub page''" by code_simp+
  show ?thesis using reply [of 0] reply [of 1] unfolding bytes [symmetric] by (simp add: quiet)
qed

end
