(* ===== verification/Server_Concurrent.thy ===== *)
theory Server_Concurrent
  imports Http_Concurrent
begin

text \<open>
  The running server with handlers that interleave (src/http_server.cc, src/thread_pool.cc,
  src/protocal.cc). The accept loop, the pool and the handlers make their calls in any order; a
  descriptor that was closed may be given out again, so several connections may use the same number.
\<close>

section \<open>Connections\<close>

text \<open>
  The main thread has the mark 0 in a run, the handler of connection number \<open>c\<close> the mark \<open>Suc c\<close>. The connections
  of a run, in the order they were accepted.
\<close>

fun arrival :: "nat \<times> event \<Rightarrow> int list" where
  "arrival (0, EvAccept4 l r) = (if 0 < r then [r] else [])"
| "arrival _ = []"

definition arrivals :: "marked \<Rightarrow> int list" where
  "arrivals H = concat (map arrival H)"

lemma arrivals_simps [simp]: "arrivals [] = []" "arrivals (x # H) = arrival x @ arrivals H"
  "arrivals (A @ B) = arrivals A @ arrivals B"
  by (simp_all add: arrivals_def)

lemma arrival_cases:
  obtains "arrival x = []" | l r where "x = (0, EvAccept4 l r)" "0 < r" "arrival x = [r]"
proof (cases x rule: arrival.cases)
  case (1 l r)
  then show thesis using that(2) [of l r] that(1) by (cases "0 < r") simp_all
qed (use that(1) in auto)

lemma arrivals_pos: "r \<in> set (arrivals H) \<Longrightarrow> 0 < r"
proof -
  have "r \<in> set (arrival x) \<Longrightarrow> 0 < r" for x by (cases rule: arrival_cases [of x]) auto
  then show "r \<in> set (arrivals H) \<Longrightarrow> 0 < r" by (auto simp: arrivals_def)
qed

lemma arrival_split:
  assumes "c < length (arrivals H)"
  shows "\<exists>A l B. H = A @ (0, EvAccept4 l (arrivals H ! c)) # B \<and> length (arrivals A) = c"
  using assms
proof (induction H rule: rev_induct)
  case (snoc x H)
  show ?case
  proof (cases "c < length (arrivals H)")
    case True
    then obtain A l B where "H = A @ (0, EvAccept4 l (arrivals H ! c)) # B" "length (arrivals A) = c"
      using snoc.IH by blast
    then show ?thesis using True by (intro exI [of _ A] exI [of _ l] exI [of _ "B @ [x]"]) (simp add: nth_append)
  next
    case False
    show ?thesis
    proof (cases rule: arrival_cases [of x])
      case 1
      then show ?thesis using snoc.prems False by simp
    next
      case (2 l r)
      then show ?thesis using snoc.prems False
        by (intro exI [of _ H] exI [of _ l] exI [of _ "[]"]) (simp add: nth_append less_Suc_eq)
    qed
  qed
qed simp

lemma nth_start: "xs = ys @ zs \<Longrightarrow> i < length ys \<Longrightarrow> i < length xs \<and> xs ! i = ys ! i"
  by (simp add: nth_append)

lemma later_point:
  assumes "A @ x # C = A1 @ y # D" and "length (arrivals A) < length (arrivals A1)"
  shows "\<exists>B. A1 = A @ x # B"
  using assms by (auto simp: append_eq_append_conv2 Cons_eq_append_conv)

lemma own_split: "own c H = xs @ e # ys \<Longrightarrow> \<exists>A B. H = A @ (c, e) # B \<and> own c A = xs \<and> own c B = ys"
proof (induction H arbitrary: xs)
  case (Cons x H)
  show ?case
  proof (cases "fst x = c \<and> xs = []")
    case True
    then show ?thesis using Cons.prems by (intro exI [of _ "[]"] exI [of _ H]) (cases x, auto)
  next
    case False
    then obtain xs' where "own c H = xs' @ e # ys" "xs = (if fst x = c then snd x # xs' else xs')"
      using Cons.prems by (cases xs) (auto split: if_splits)
    then obtain A B where "H = A @ (c, e) # B" "own c A = xs'" "own c B = ys" using Cons.IH by blast
    then show ?thesis using \<open>xs = _\<close> by (intro exI [of _ "x # A"] exI [of _ B]) simp
  qed
qed simp

text \<open>
  What may happen when: the main thread opens, closes and sends nothing (here), and accepts sockets with
  descriptors that are not in use; a handler does nothing before its connection was accepted.
\<close>

fun timed :: "event list \<Rightarrow> marked \<Rightarrow> nat \<times> event \<Rightarrow> bool" where
  "timed g A (0, e) \<longleftrightarrow> tame e \<and> (\<forall>fd. event_wire fd e = []) \<and>
     (\<forall>r \<in> set (arrival (0, e)). r \<notin> in_use (g @ map snd A))"
| "timed g A (Suc c, e) \<longleftrightarrow> c < length (arrivals A)"

definition well_timed :: "event list \<Rightarrow> marked \<Rightarrow> bool" where
  "well_timed g H \<longleftrightarrow> (\<forall>A x B. H = A @ x # B \<longrightarrow> timed g A x)"

lemma well_timed_Nil [simp]: "well_timed g []"
  by (simp add: well_timed_def)

lemma well_timed_snoc [simp]: "well_timed g (H @ [x]) \<longleftrightarrow> well_timed g H \<and> timed g H x"
proof -
  have eq: "H @ [x] = A @ y # B \<longleftrightarrow> (A = H \<and> y = x \<and> B = []) \<or> (\<exists>B'. B = B' @ [x] \<and> H = A @ y # B')" for A y B
    by (cases B rule: rev_cases) auto
  show ?thesis unfolding well_timed_def eq by blast
qed

lemma well_timedD: "well_timed g (A @ x # B) \<Longrightarrow> timed g A x"
  unfolding well_timed_def by blast

lemma well_timed_prefix: "well_timed g (A @ B) \<Longrightarrow> well_timed g A"
  by (induction B rule: rev_induct) (auto simp flip: append_assoc)

lemma unborn_quiet: "well_timed g A \<Longrightarrow> length (arrivals A) \<le> c \<Longrightarrow> own (Suc c) A = []"
proof (induction A rule: rev_induct)
  case (snoc x A)
  then show ?case by (cases x; cases "fst x") auto
qed simp

text \<open>The sockets accepted so far, each for its handler.\<close>

fun born :: "marked \<Rightarrow> nat \<Rightarrow> int multiset" where
  "born A 0 = {#}"
| "born A (Suc c) = (if c < length (arrivals A) then own_fd (arrivals A ! c) else {#})"

lemma born_snoc:
  "arrival x = [] \<Longrightarrow> born (A @ [x]) = born A"
  "arrival x = [r] \<Longrightarrow> born (A @ [x]) = (born A)(Suc (length (arrivals A)) := own_fd r)"
proof -
  show "arrival x = [] \<Longrightarrow> born (A @ [x]) = born A"
    by (rule ext, rename_tac d, case_tac d) simp_all
  show "arrival x = [r] \<Longrightarrow> born (A @ [x]) = (born A)(Suc (length (arrivals A)) := own_fd r)"
    by (rule ext, rename_tac d, case_tac d) (auto simp: nth_append less_Suc_eq)
qed

lemma apart_arrivals:
  assumes "fresh_fds os" and "well_timed g H"
    and ran: "\<And>c. c < length (arrivals H) \<Longrightarrow> handler_ran os g (arrivals H ! c) (client c) (Suc c) H"
  shows "prefix A H \<Longrightarrow> \<exists>M. apart g (born A) A M"
proof (induction A rule: rev_induct)
  case Nil
  have "born [] = (\<lambda>c. {#})" by (rule ext, rename_tac d, case_tac d) simp_all
  then show ?case using apart_empty by auto
next
  case (snoc x A)
  obtain B where H: "H = A @ x # B" using snoc.prems by (auto simp: prefix_def)
  obtain M where M: "apart g (born A) A M" using snoc append_prefixD by blast
  have t: "timed g A x" using assms(2) unfolding H by (rule well_timedD)
  have A: "well_timed g A" using assms(2) H well_timed_prefix by blast
  obtain d e where x: "x = (d, e)" by fastforce
  show ?case
  proof (cases d)
    case 0
    then have tame: "tame e" using t x by simp
    show ?thesis
    proof (cases rule: arrival_cases [of x])
      case 1
      then show ?thesis using apart_tame [OF M tame] x born_snoc(1) by metis
    next
      case (2 l r)
      let ?n = "length (arrivals A)"
      have "r \<notin> in_use (g @ map snd A)" using t 2 by simp
      from apart_born [OF M unborn_quiet [OF A order_refl] _ 2(2) this, of 0 l]
      have "apart g (born (A @ [x])) (A @ [x]) (M(Suc ?n := own_fd r))" unfolding born_snoc(2) [OF 2(3)] unfolding 2(1) by simp
      then show ?thesis by blast
    qed
  next
    case (Suc c)
    then have c: "c < length (arrivals A)" using t x by simp
    then have sock: "arrivals H ! c = arrivals A ! c" "c < length (arrivals H)" by (simp_all add: H nth_append)
    have "arrival x = []" using x Suc by simp
    moreover have "born A (Suc c) = own_fd (arrivals H ! c)" using c sock by simp
    moreover have "handler_ran os g (arrivals H ! c) (client c) (Suc c) (A @ (Suc c, e) # B)"
      using ran [OF sock(2)] H x Suc by simp
    ultimately show ?thesis using apart_ran [OF assms(1) _ M, of "arrivals H ! c" "client c" "Suc c" e B]
      born_snoc(1) [of x A] x Suc by auto
  qed
qed

section \<open>A handler owns its socket until it closes it\<close>

lemma ran_end:
  assumes "handler_ran os g sock input c H"
  shows "\<exists>es N. own c H = es @ [EvClose sock] \<and> own_run es {#} = Some N"
proof -
  obtain fd0 size0 w where w: "trace w = g @ own c H"
    "HandlerTask_call (view os (seen g c H)) False fd0 size0 sock \<lparr>sock_in = input, trace = g\<rparr> = Inr w"
    using assms by (auto simp: handler_ran_def)
  from handler_lawful_end [OF w(2)] obtain w1 N es where "trace w1 = g @ es" "own_run es {#} = Some N" "w = sys_close sock w1"
    by (auto simp: lawful_def)
  then show ?thesis using w(1) by (intro exI [of _ es] exI [of _ N]) (simp add: os_calls)
qed

lemma sock_kept:
  assumes ran: "handler_ran os g sock input c (A @ B)" and "apart g K A M" and "K c = own_fd sock" and "own c B \<noteq> []" "0 < sock"
  shows "sock \<in># M c"
proof -
  obtain es N where es: "own c A @ own c B = es @ [EvClose sock]" "own_run es {#} = Some N" using ran_end [OF ran] by auto
  then obtain ys where "es = own c A @ ys"
    using assms(4) by (cases "own c B" rule: rev_cases) auto
  then obtain m where "own_run (own c A) {#} = Some m"
    using es(2) by (auto simp: own_run_append split: Option.bind_splits)
  from own_run_frame [OF this, of "own_fd sock"] have "own_run (own c A) (own_fd sock) = Some (m + own_fd sock)" by simp
  moreover have "owns g (K c) A c (M c)" using assms(2) unfolding apart_def by blast
  ultimately have "M c = m + own_fd sock" using assms(3) by (simp add: owns_def)
  then show ?thesis using assms(5) by (simp add: own_fd_def)
qed

text \<open>Nobody else sends on a socket while its handler has something left to do.\<close>

lemma only_owner_sends:
  assumes "fresh_fds os" and wt: "well_timed g H"
    and ran: "\<And>c. c < length (arrivals H) \<Longrightarrow> handler_ran os g (arrivals H ! c) (client c) (Suc c) H"
    and H: "H = A @ (d, e) # R" and sends: "event_wire k e \<noteq> []"
    and k: "k = arrivals H ! c" and c: "c < length (arrivals A)" and left: "own (Suc c) ((d, e) # R) \<noteq> []"
  shows "d = Suc c"
proof (rule ccontr)
  assume other: "d \<noteq> Suc c"
  have "timed g A (d, e)" using wt unfolding H by (rule well_timedD)
  then obtain b where d: "d = Suc b" and b: "b < length (arrivals A)" using sends by (cases d) auto
  have "arrivals H = arrivals A @ arrivals ((d, e) # R)" unfolding H by simp
  note inA = nth_start [OF this]
  have bH: "b < length (arrivals H)" and cH: "c < length (arrivals H)" using inA b c by blast+
  have pos: "0 < k" using arrivals_pos nth_mem [OF cH] k by blast
  have same: "arrivals H ! b = k"
  proof (rule ccontr)
    assume "arrivals H ! b \<noteq> k"
    then have "wire k (own d H) = []" using ran_own(3) [OF ran [OF bH]] d by metis
    then show False using wire_empty [OF _ own_member [of d e H]] sends H by auto
  qed
  have "prefix A H" using H by simp
  then obtain M where M: "apart g (born A) A M" using apart_arrivals [OF assms(1) wt ran] by blast
  have "k \<in># M (Suc b)"
    by (rule sock_kept [OF _ M _ _ pos, of os "client b" _ "(d, e) # R"])
      (use ran [OF bH] same H inA [OF b] b d in auto)
  moreover have "k \<in># M (Suc c)"
    by (rule sock_kept [OF _ M _ left pos, of os "client c"]) (use ran [OF cH] k H inA [OF c] c in auto)
  moreover have "set_mset (M (Suc b)) \<inter> set_mset (M (Suc c)) = {}" using M other d unfolding apart_def by blast
  ultimately show False by blast
qed

text \<open>Everything sent on a socket between its acceptance and its closing is the reply to its client.\<close>

lemma connection_served:
  assumes "serves os fs" and fresh: "fresh_fds os" and wt: "well_timed g H" and sig: "EvSignal ''SIGCHLD'' \<in> set g"
    and ran: "\<And>c. c < length (arrivals H) \<Longrightarrow> handler_ran os g (arrivals H ! c) (client c) (Suc c) H"
    and asked: "asked fs client rep c" and c: "c < length (arrivals H)"
  shows "\<exists>A l B D. H = A @ (0, EvAccept4 l (arrivals H ! c)) # B @ (Suc c, EvClose (arrivals H ! c)) # D \<and>
    length (arrivals A) = c \<and> wire (arrivals H ! c) (map snd B) = reply_bytes (rep c)"
proof -
  define k where k: "k = arrivals H ! c"
  have pos: "0 < k" using arrivals_pos nth_mem [OF c] k by blast
  obtain A l C where A: "H = A @ (0, EvAccept4 l k) # C" "length (arrivals A) = c" using arrival_split [OF c] unfolding k by blast
  obtain es N where es: "own (Suc c) H = es @ [EvClose k]" using ran_end [OF ran [OF c]] unfolding k by blast
  then obtain A1 D where A1: "H = A1 @ (Suc c, EvClose k) # D" "own (Suc c) A1 = es" "own (Suc c) D = []"
    using own_split [of "Suc c" H es "EvClose k" "[]"] by auto
  have "timed g A1 (Suc c, EvClose k)" using wt unfolding A1(1) by (rule well_timedD)
  then obtain B where B: "A1 = A @ (0, EvAccept4 l k) # B"
    using later_point [OF trans [OF A(1) [symmetric] A1(1)]] A(2) by auto
  have H: "H = A @ (0, EvAccept4 l k) # B @ (Suc c, EvClose k) # D" using A1(1) B by simp
  have "own (Suc c) A = []" by (rule unborn_quiet [of g]) (use wt A(1) A(2) well_timed_prefix in auto)
  then have ownB: "own (Suc c) B = es" using A1(2) B by simp
  have "event_wire k e = []" if e: "(d, e) \<in> set B" "d \<noteq> Suc c" for d e
  proof (rule ccontr)
    assume w: "event_wire k e \<noteq> []"
    obtain P Q where "B = P @ (d, e) # Q" using e(1) by (meson split_list)
    then have "H = (A @ (0, EvAccept4 l k) # P) @ (d, e) # Q @ (Suc c, EvClose k) # D" using H by simp
    from only_owner_sends [OF fresh wt ran this w k] A(2) pos e(2) show False by simp
  qed
  then have "wire k (map snd B) = wire k (own (Suc c) B)" by (rule wire_marked)
  moreover have "wire k (own (Suc c) H) = reply_bytes (rep c)"
    by (rule ran_replies [OF assms(1) _ ran [OF c, folded k] sig])
      (use apart_arrivals [OF fresh wt ran] in blast, use asked in \<open>simp add: asked_def\<close>)
  then have "wire k es = reply_bytes (rep c)" unfolding es by simp
  ultimately have "wire k (map snd B) = reply_bytes (rep c)" unfolding ownB by simp
  then show ?thesis using H A(2) unfolding k [symmetric] by blast
qed

section \<open>The process\<close>

text \<open>
  A state of the process: the pool, the connection each worker has taken, and the events so far with their marks.
  A call of the pool is a step, and so is every single event of a handler, which its worker makes between
  leaving the lock and coming back for the next task. \<open>accept4\<close> is the step of the main thread that takes a connection
  on; it is answered from everything the process has done.
\<close>

type_synonym process = "pool \<times> (nat \<Rightarrow> nat) \<times> marked"

inductive process_step :: "os \<Rightarrow> event list \<Rightarrow> int \<Rightarrow> process \<Rightarrow> act option \<Rightarrow> process \<Rightarrow> bool" for os g l where
  call: "pool_step s a s' \<Longrightarrow> todo s' = todo s \<Longrightarrow> popped s' = popped s \<Longrightarrow>
    process_step os g l (s, job, H) (Some a) (s', job, H)"
| take: "pool_step s (AWorker i) s' \<Longrightarrow> popped s' = popped s @ [t] \<Longrightarrow>
    process_step os g l (s, job, H) (Some (AWorker i)) (s', job(i := length (popped s)), H)"
| accept: "pool_step s AMain s' \<Longrightarrow> todo s = t # todo s' \<Longrightarrow> fst (os_accept os (g @ map snd H) l) = t \<Longrightarrow> 0 < t \<Longrightarrow>
    process_step os g l (s, job, H) (Some AMain) (s', job, H @ [(0, EvAccept4 l t)])"
| work: "at s i (WRun t) \<Longrightarrow> process_step os g l (s, job, H) None (s, job, H @ [(Suc (job i), e)])"
| other: "tame e \<Longrightarrow> \<forall>fd. event_wire fd e = [] \<Longrightarrow> arrival (0, e) = [] \<Longrightarrow>
    process_step os g l (s, job, H) None (s, job, H @ [(0, e)])"

inductive process_run :: "os \<Rightarrow> event list \<Rightarrow> int \<Rightarrow> process \<Rightarrow> act list \<Rightarrow> process \<Rightarrow> bool" for os g l p0 where
  process_Nil: "process_run os g l p0 [] p0"
| process_act: "process_run os g l p0 as p \<Longrightarrow> process_step os g l p (Some a) p' \<Longrightarrow> process_run os g l p0 (as @ [a]) p'"
| process_event: "process_run os g l p0 as p \<Longrightarrow> process_step os g l p None p' \<Longrightarrow> process_run os g l p0 as p'"

text \<open>
  Every handler that no worker is still running has run to its end, on the socket of the task and
  what its client sent.
\<close>

definition running :: "pool \<Rightarrow> (nat \<Rightarrow> nat) \<Rightarrow> nat \<Rightarrow> bool" where
  "running s job c \<longleftrightarrow> (\<exists>i t. (at s i (WUnlock t) \<or> at s i (WRun t)) \<and> job i = c)"

definition handlers_ran :: "os \<Rightarrow> event list \<Rightarrow> (nat \<Rightarrow> rx list) \<Rightarrow> process \<Rightarrow> bool" where
  "handlers_ran os g client p \<longleftrightarrow> (case p of (s, job, H) \<Rightarrow> \<forall>c < length (popped s). \<not> running s job c \<longrightarrow>
     handler_ran os g (popped s ! c) (client c) (Suc c) H)"

text \<open>\<open>accept4\<close> too answers with a descriptor that is not in use.\<close>

definition fresh_accepts :: "os \<Rightarrow> bool" where
  "fresh_accepts os \<longleftrightarrow> (\<forall>h l. 0 < fst (os_accept os h l) \<longrightarrow> fst (os_accept os h l) \<notin> in_use h)"

text \<open>What holds in every state: the connections are those accepted, and a worker's task was taken.\<close>

definition process_inv :: "event list \<Rightarrow> task list \<Rightarrow> process \<Rightarrow> bool" where
  "process_inv g ts p \<longleftrightarrow> (case p of (s, job, H) \<Rightarrow> pool_inv ts s \<and> ts = arrivals H @ todo s \<and> well_timed g H \<and>
     (\<forall>i t. at s i (WUnlock t) \<or> at s i (WRun t) \<longrightarrow> job i < length (popped s)))"

lemma pool_step_quiet:
  assumes "pool_step s a s'" and "popped s' = popped s" and "at s' i (WUnlock t) \<or> at s' i (WRun t)"
  shows "at s i (WUnlock t) \<or> at s i (WRun t)"
  using assms
  by (cases rule: pool_step.cases)
     (auto simp: at_def goto_def main_goto_def Lock_Some PopTask_Some Wait_def UnLock_def push_def HanderTask_def
       nth_list_update split: if_splits)

lemma pool_step_take:
  assumes "pool_step s (AWorker i) s'" and "popped s' = popped s @ [t]"
  shows "todo s' = todo s" and "at s' j (WUnlock u) \<or> at s' j (WRun u) \<Longrightarrow> j = i \<or> at s j (WUnlock u) \<or> at s j (WRun u)"
  using assms
  by (auto elim!: WorkerE simp: at_def goto_def Lock_Some PopTask_Some Wait_def UnLock_def HanderTask_def
       nth_list_update split: if_splits)

lemma pool_step_accept:
  assumes "pool_step s AMain s'" and "todo s = t # todo s'"
  shows "popped s' = popped s"
  using assms by (auto elim!: MainE simp: main_goto_def Lock_Some UnLock_def push_def)

lemma popped_arrivals:
  assumes "pool_inv ts s" and "ts = arrivals H @ todo s"
  shows "prefix (popped s) (arrivals H)"
  using assms by (auto simp: pool_inv_def task_inv_def in_order_def)

lemma process_inv_step:
  assumes "process_step os g l p a p'" and "process_inv g ts p" and "fresh_accepts os"
  shows "process_inv g ts p'"
  using assms(1)
proof (cases rule: process_step.cases)
  case (call s a s' job H)
  then show ?thesis
    using assms(2) pool_inv_step [OF call(4)] pool_step_quiet [OF call(4,6)] by (fastforce simp: process_inv_def)
next
  case (take s i s' t job H)
  then show ?thesis
    using assms(2) pool_inv_step [OF take(4)] pool_step_take [OF take(4,5)]
    by (fastforce simp: process_inv_def less_Suc_eq)
next
  case (accept s s' t H job)
  have "t \<notin> in_use (g @ map snd H)" using assms(3) accept(6,7) by (auto simp: fresh_accepts_def)
  then show ?thesis
    using assms(2) accept pool_inv_step [OF accept(4)] pool_step_accept [OF accept(4,5)] pool_step_quiet [OF accept(4)]
    by (fastforce simp: process_inv_def)
next
  case (work s i t job H e)
  then have "job i < length (arrivals H)"
    using assms(2) popped_arrivals [of ts s H] by (fastforce simp: process_inv_def dest: prefix_length_le)
  then show ?thesis using assms(2) work by (auto simp: process_inv_def)
next
  case (other e s job H)
  then show ?thesis using assms(2) by (auto simp: process_inv_def)
qed

lemma process_run_inv:
  assumes "process_run os g l (new_pool (InitThreadPool created num) ts, job0, []) as p" and "fresh_accepts os"
  shows "process_inv g ts p \<and> pool_run (new_pool (InitThreadPool created num) ts) as (fst p)"
  using assms(1)
proof (induction rule: process_run.induct)
  case process_Nil
  have "\<not> at (new_pool (InitThreadPool created num) ts) i (WUnlock t)" "\<not> at (new_pool (InitThreadPool created num) ts) i (WRun t)"
    for i t using InitThreadPool_start nth_mem by (fastforce simp: at_def new_pool_def)+
  then show ?case using pool_inv_init by (simp add: process_inv_def run_Nil) (simp add: new_pool_def)
next
  case (process_act as p a p')
  then show ?case using process_inv_step [OF process_act.hyps(2) _ assms(2)]
    by (auto elim!: process_step.cases intro: run_snoc)
next
  case (process_event as p p')
  then show ?case using process_inv_step [OF process_event.hyps(2) _ assms(2)]
    by (auto elim!: process_step.cases)
qed

lemma served_concurrently:
  assumes "serves os fs" and "fresh_fds os" and acc: "fresh_accepts os" and sig: "EvSignal ''SIGCHLD'' \<in> set g"
    and run: "process_run os g l (new_pool (InitThreadPool created num) ts, job0, []) as (s, job, H)"
    and some: "\<exists>i < num. created i" and ran: "handlers_ran os g client (s, job, H)"
    and stuck: "\<And>a s'. pool_step s a s' \<Longrightarrow> is_spurious a"
    and asked: "asked fs client rep c" and c: "c < length ts"
  shows "\<exists>A l B D. H = A @ (0, EvAccept4 l (ts ! c)) # B @ (Suc c, EvClose (ts ! c)) # D \<and>
    length (arrivals A) = c \<and> wire (ts ! c) (map snd B) = reply_bytes (rep c)"
proof -
  have inv: "pool_inv ts s" "ts = arrivals H @ todo s" "well_timed g H"
    and pool: "pool_run (new_pool (InitThreadPool created num) ts) as s"
    using process_run_inv [OF run acc] unfolding process_inv_def prod.case fst_conv by blast+
  have "workers s \<noteq> []" using pool_run_inv [OF pool] some by (auto simp: InitThreadPool_def filter_empty_conv)
  note final = stuck_final [OF inv(1) this stuck]
  have ts: "arrivals H = ts" "popped s = ts"
    using inv final by (auto simp: pool_inv_def task_inv_def in_order_def)
  have "\<not> running s job b" for b
    using final by (fastforce simp: running_def at_def dest: nth_mem)
  then have "handler_ran os g (arrivals H ! b) (client b) (Suc b) H" if "b < length (arrivals H)" for b
    using ran that ts by (simp add: handlers_ran_def)
  from connection_served [OF assms(1,2) inv(3) sig this asked] c ts(1) show ?thesis by simp
qed

section \<open>Every connection gets its reply\<close>

text \<open>
  C3 (safety, the whole server with handlers that interleave). Let the accept loop, the pool and the handlers make
  their calls in any order, with descriptors that are given out again after they were closed. When every handler a
  worker has finished with has run to its end, the pool can go on by spurious wakeups only, and client number \<open>c\<close> has sent
  a well-formed request the specification has a reply for, then connection \<open>c\<close> was accepted, was closed by
  its own handler, and in between exactly the specified reply was sent on its socket.
\<close>

theorem every_connection_gets_its_reply:
  assumes "serves os fs" and "fresh_fds os" and "fresh_accepts os" and "EvSignal ''SIGCHLD'' \<in> set g"
    and "process_run os g l (new_pool (InitThreadPool created num) ts, job0, []) as (s, job, H)"
    and "\<exists>i < num. created i" and "handlers_ran os g client (s, job, H)"
    and "\<And>a s'. pool_step s a s' \<Longrightarrow> is_spurious a"
    and "asked fs client rep c" and "c < length ts"
  shows "\<exists>A l' B D. H = A @ (0, EvAccept4 l' (ts ! c)) # B @ (Suc c, EvClose (ts ! c)) # D \<and>
    length (arrivals A) = c \<and> wire (ts ! c) (map snd B) = reply_bytes (rep c)"
  using assms by (rule served_concurrently)

section \<open>A concrete process\<close>

text \<open>A process is executed from a list of calls and of events, each with the worker that makes it (0 is the main thread).\<close>

fun exec_item :: "os \<Rightarrow> event list \<Rightarrow> int \<Rightarrow> act + nat \<times> event \<Rightarrow> process \<Rightarrow> process option" where
  "exec_item os g l (Inl a) (s, job, H) =
     (case exec_step a s of
        None \<Rightarrow> None
      | Some s' \<Rightarrow>
          if todo s' = todo s \<and> popped s' = popped s then Some (s', job, H)
          else (case a of
             AWorker i \<Rightarrow> if popped s' \<noteq> [] \<and> popped s' = popped s @ [last (popped s')]
               then Some (s', job(i := length (popped s)), H) else None
           | AMain \<Rightarrow> (case todo s of
                 t # ts \<Rightarrow> if ts = todo s' \<and> fst (os_accept os (g @ map snd H) l) = t \<and> 0 < t
                   then Some (s', job, H @ [(0, EvAccept4 l t)]) else None
               | [] \<Rightarrow> None)
           | _ \<Rightarrow> None))"
| "exec_item os g l (Inr (Suc i, e)) (s, job, H) =
     (if i < length (workers s) \<and> (case workers s ! i of WRun t \<Rightarrow> True | _ \<Rightarrow> False)
      then Some (s, job, H @ [(Suc (job i), e)]) else None)"
| "exec_item os g l (Inr (0, EvPush t)) (s, job, H) = Some (s, job, H @ [(0, EvPush t)])"
| "exec_item os g l _ p = None"

fun exec_items :: "os \<Rightarrow> event list \<Rightarrow> int \<Rightarrow> (act + nat \<times> event) list \<Rightarrow> process \<Rightarrow> process option" where
  "exec_items os g l [] p = Some p"
| "exec_items os g l (x # xs) p = Option.bind (exec_item os g l x p) (exec_items os g l xs)"

lemma exec_item_step: "exec_item os g l x p = Some p' \<Longrightarrow> \<exists>a. process_step os g l p a p'"
proof (induction os g l x p rule: exec_item.induct)
  case (1 os g l a s job H)
  then obtain s' where s': "pool_step s a s'" by (auto simp: exec_step_iff split: option.splits)
  then have e: "exec_step a s = Some s'" by (simp add: exec_step_iff)
  show ?case
  proof (cases "todo s' = todo s \<and> popped s' = popped s")
    case True
    then show ?thesis using 1 e call [OF s', of os g l job H] by (auto intro: exI [of _ "Some a"])
  next
    case False
    show ?thesis
    proof (cases a)
      case (AWorker i)
      then show ?thesis using 1 e False take [of s i s' "last (popped s')" os g l job H] s' by (auto split: if_splits)
    next
      case AMain
      then show ?thesis using 1 e False accept [of s s' _ os g H l job] s' by (auto split: if_splits list.splits simp del: exec_step.simps)
    qed (use 1 e False in auto)
  qed
next
  case (2 os g l i e s job H)
  then obtain t where "at s i (WRun t)" by (auto simp: at_def split: if_splits wpc.splits)
  from work [OF this, of os g l job H e] show ?case using 2 by (auto split: if_splits)
next
  case (3 os g l t s job H)
  then show ?case using other [of "EvPush t" os g l s job H] by auto
qed auto

lemma exec_items_run:
  "exec_items os g l xs p = Some p' \<Longrightarrow> process_run os g l p0 as p \<Longrightarrow> \<exists>as'. process_run os g l p0 as' p'"
proof (induction xs arbitrary: p as)
  case (Cons x xs)
  then obtain p1 where p1: "exec_item os g l x p = Some p1" "exec_items os g l xs p1 = Some p'"
    by (auto split: Option.bind_splits)
  from exec_item_step [OF p1(1)] obtain a where "process_step os g l p a p1" by blast
  then have "\<exists>as1. process_run os g l p0 as1 p1" using process_act process_event Cons.prems(2) by (cases a) blast+
  then show ?case using Cons.IH [OF p1(2)] by blast
qed auto

text \<open>
  Two workers, three connections. The first two are served at the same time; the first is closed, its
  descriptor 5 is given to the third, and all three are served. The files opened twice (7 and 8) stay open.
\<close>

definition demo_g :: "event list" where
  "demo_g = [EvSignal ''SIGCHLD'', EvOpen ''/dev/null'' 4]"

definition demo_files_of :: "nat \<Rightarrow> event list" where
  "demo_files_of c =
     (if c = 0 then file_events 5 ''/index.html'' ''wwwroot/index.html'' 7 9 ''hello''
      else if c = 1 then file_events 6 ''/sub/index.html'' ''wwwroot/sub/index.html'' 8 10 ''sub page''
      else file_events 5 ''/index.html'' ''wwwroot/index.html'' 9 11 ''hello'')"

definition events_by :: "nat \<Rightarrow> event list \<Rightarrow> (nat \<times> event) list" where
  "events_by w es = map (Pair w) es"

definition both :: "'a list \<Rightarrow> 'a list \<Rightarrow> 'a list" where
  "both xs ys = concat (map (\<lambda>(x, y). [x, y]) (zip xs ys))"

definition demo_connect :: "nat \<Rightarrow> act list" where
  "demo_connect i = [AMain, AMain, AMain, AMain, AMain, ASignal i, AWorker i, AWorker i, AWorker i, AWorker i]"

definition demo_sleep :: "nat \<Rightarrow> act list" where
  "demo_sleep i = [AWorker i, AWorker i, AWorker i]"

definition demo_items :: "(act + nat \<times> event) list" where
  "demo_items = map Inl (demo_sleep 0 @ demo_sleep 1 @ demo_connect 0 @ demo_connect 1) @
     map Inr (both (events_by 1 (take 10 (demo_files_of 0))) (events_by 2 (take 10 (demo_files_of 1))) @
       events_by 1 (drop 10 (demo_files_of 0))) @
     map Inl (demo_sleep 0 @ demo_connect 0) @
     map Inr (events_by 1 (take 8 (demo_files_of 2)) @ events_by 2 (drop 10 (demo_files_of 1)) @
       events_by 1 (drop 8 (demo_files_of 2))) @
     map Inl (demo_sleep 0 @ demo_sleep 1)"

definition demo_H :: marked where
  "demo_H = [(0, EvAccept4 3 5), (0, EvAccept4 3 6)] @
     both (events_by 1 (take 10 (demo_files_of 0))) (events_by 2 (take 10 (demo_files_of 1))) @
     events_by 1 (drop 10 (demo_files_of 0)) @ [(0, EvAccept4 3 5)] @
     events_by 3 (take 8 (demo_files_of 2)) @ events_by 2 (drop 10 (demo_files_of 1)) @ events_by 3 (drop 8 (demo_files_of 2))"

definition demo_last :: pool where
  "demo_last = \<lparr>m_mutex = None, m_q = [], workers = [WWait, WWait], main_pc = MIdle, todo = [],
     crashed = False, pushed = [5, 6, 5], popped = [5, 6, 5], handled = [(0, 5), (0, 5), (1, 6)]\<rparr>"

lemma demo_exec:
  "case exec_items (fd_os demo_fs) demo_g 3 demo_items (new_pool (InitThreadPool (\<lambda>i. True) 2) [5, 6, 5], \<lambda>i. 0, []) of
     Some (s, job, H) \<Rightarrow> s = demo_last \<and> H = demo_H | None \<Rightarrow> False"
  by code_simp

lemma demo_H_answers:
  "lowest_fd (demo_g @ before (Suc 0) 5 demo_H) = 7"
  "lowest_fd (demo_g @ before (Suc 0) 6 demo_H) = 9"
  "lowest_fd (demo_g @ before 2 5 demo_H) = 8"
  "lowest_fd (demo_g @ before 2 6 demo_H) = 10"
  "lowest_fd (demo_g @ before 3 5 demo_H) = 9"
  "lowest_fd (demo_g @ before 3 6 demo_H) = 11"
  "opened_path 9 (demo_g @ before (Suc 0) 9 demo_H) = Some ''wwwroot/index.html''"
  "opened_path 10 (demo_g @ before 2 9 demo_H) = Some ''wwwroot/sub/index.html''"
  "opened_path 11 (demo_g @ before 3 9 demo_H) = Some ''wwwroot/index.html''"
  by code_simp+
lemma demo_H_own:
  "own (Suc 0) demo_H = demo_files_of 0"
  "own 2 demo_H = demo_files_of 1"
  "own 3 demo_H = demo_files_of 2"
  "length (demo_files_of 0) = 13"
  "length (demo_files_of 1) = 13"
  "length (demo_files_of 2) = 13"
  by code_simp+

definition demo_clients :: "nat \<Rightarrow> rx list" where
  "demo_clients c = sock_in (demo_world ''GET'' (if c = 1 then ''/sub/index.html'' else ''/index.html''))"

definition demo_served :: "nat \<Rightarrow> http_reply" where
  "demo_served c = \<lparr>r_code = 200, r_headers = [], r_body = (if c = 1 then ''sub page'' else ''hello'')\<rparr>"

lemma demo_clients_asked: "asked demo_fs demo_clients demo_served c"
  using demo_both_asked [of 8] demo_both_asked [of 9]
  by (cases "c = 1") (simp_all add: asked_def demo_clients_def demo_served_def demo_target_def demo_replies_def)

lemma demo_H_ran:
  assumes "c < 3"
  shows "handler_ran (fd_os demo_fs) demo_g ([5, 6, 5] ! c) (demo_clients c) (Suc c) demo_H"
proof -
  have full: "full_send (view (fd_os demo_fs) f)" for f by (rule view_full_send) (simp add: full_send_def fd_os_def fs_os_def)
  have files: "demo_fs ''wwwroot/index.html'' = Some (File False ''hello'' None)"
    "demo_fs ''wwwroot/sub/index.html'' = Some (File False ''sub page'' None)" by (simp_all add: demo_fs_def)
  note at = seen_take [of _ "Suc 0" demo_H demo_g, unfolded demo_H_own] seen_take [of _ 2 demo_H demo_g, unfolded demo_H_own]
    seen_take [of _ 3 demo_H demo_g, unfolded demo_H_own]
  note run1 = file_events_run [OF view_plain_file [OF demo_plain_files(1)] full]
  note run2 = file_events_run [OF view_plain_file [OF demo_plain_files(2)] full]
  note eval = Http_Send.demo_words demo_sub_words demo_queries Http_Send.demo_resource_paths view_def fd_os_def files
    contents_def fs_os_def demo_H_answers
  note at0 = at [unfolded demo_files_of_def, simplified]
  consider "c = 0" | "c = 1" | "c = 2" using assms by linarith
  then show ?thesis
  proof cases
    case 1
    have "\<exists>w. trace w = demo_g @ file_events 5 ''/index.html'' ''wwwroot/index.html'' 7 9 ''hello'' \<and>
      HandlerTask_call (view (fd_os demo_fs) (seen demo_g (Suc 0) demo_H)) False 0 0 5
        \<lparr>sock_in = sock_in (demo_world ''GET'' ''/index.html''), trace = demo_g\<rparr> = Inr w"
      by (rule run1) (simp_all add: eval at0)
    then show ?thesis using 1 demo_H_own by (auto simp: handler_ran_def demo_clients_def demo_files_of_def)
  next
    case 2
    have "\<exists>w. trace w = demo_g @ file_events 6 ''/sub/index.html'' ''wwwroot/sub/index.html'' 8 10 ''sub page'' \<and>
      HandlerTask_call (view (fd_os demo_fs) (seen demo_g 2 demo_H)) False 0 0 6
        \<lparr>sock_in = sock_in (demo_world ''GET'' ''/sub/index.html''), trace = demo_g\<rparr> = Inr w"
      by (rule run2) (simp_all add: eval at0)
    then show ?thesis using 2 demo_H_own by (auto simp: handler_ran_def demo_clients_def demo_files_of_def numeral_2_eq_2)
  next
    case 3
    have "\<exists>w. trace w = demo_g @ file_events 5 ''/index.html'' ''wwwroot/index.html'' 9 11 ''hello'' \<and>
      HandlerTask_call (view (fd_os demo_fs) (seen demo_g 3 demo_H)) False 0 0 5
        \<lparr>sock_in = sock_in (demo_world ''GET'' ''/index.html''), trace = demo_g\<rparr> = Inr w"
      by (rule run1) (simp_all add: eval at0)
    then show ?thesis using 3 demo_H_own by (auto simp: handler_ran_def demo_clients_def demo_files_of_def numeral_3_eq_3)
  qed
qed

lemma demo_last_stuck: "pool_step demo_last a s' \<Longrightarrow> is_spurious a"
  by (cases a) (auto simp: demo_last_def less_Suc_eq numeral_2_eq_2 simp flip: exec_step_iff split: if_splits)

lemma fd_os_accepts: "fresh_accepts (fd_os fs)"
  by (simp add: fresh_accepts_def fd_os_def lowest_fd)

text \<open>The second connection on descriptor 5, which is the third of all.\<close>

lemma every_connection_gets_its_reply_witness:
  "\<exists>A l B D. demo_H = A @ (0, EvAccept4 l 5) # B @ (3, EvClose 5) # D \<and> arrivals A = [5, 6] \<and>
    wire 5 (map snd B) = ''HTTP/1.1 200 OK'' @ [CR, LF, CR, LF] @ ''hello''"
proof -
  let ?os = "fd_os demo_fs" and ?start = "(new_pool (InitThreadPool (\<lambda>i. True) 2) [5, 6, 5], \<lambda>i. 0, [])"
  obtain job where "exec_items ?os demo_g 3 demo_items ?start = Some (demo_last, job, demo_H)"
    using demo_exec by (auto split: option.splits)
  then obtain as where run: "process_run ?os demo_g 3 ?start as (demo_last, job, demo_H)"
    using exec_items_run process_Nil by blast
  have ran: "handlers_ran ?os demo_g demo_clients (demo_last, job, demo_H)"
    using demo_H_ran by (auto simp: handlers_ran_def demo_last_def)
  have sig: "EvSignal ''SIGCHLD'' \<in> set demo_g" by (simp add: demo_g_def)
  have bytes: "reply_bytes (demo_served 2) = ''HTTP/1.1 200 OK'' @ [CR, LF, CR, LF] @ ''hello''" by code_simp
  have ar: "arrivals demo_H = [5, 6, 5]" by code_simp
  have some: "\<exists>i < 2. (\<lambda>i :: nat. True) i" by (rule exI [of _ 0]) simp
  have "\<exists>A l' B D. demo_H = A @ (0, EvAccept4 l' ([5, 6, 5] ! 2)) # B @ (Suc 2, EvClose ([5, 6, 5] ! 2)) # D \<and>
    length (arrivals A) = 2 \<and> wire ([5, 6, 5] ! 2) (map snd B) = reply_bytes (demo_served 2)"
    by (rule every_connection_gets_its_reply [OF fd_os_serves [OF demo_fs_serves] fd_os_fresh fd_os_accepts sig run some ran
        demo_last_stuck demo_clients_asked]) simp_all
  then obtain A l B D where A: "demo_H = A @ (0, EvAccept4 l 5) # B @ (3, EvClose 5) # D" "length (arrivals A) = 2"
    "wire 5 (map snd B) = reply_bytes (demo_served 2)" by (auto simp: numeral_3_eq_3)
  have "arrivals demo_H = arrivals A @ arrivals ((0, EvAccept4 l 5) # B @ (3, EvClose 5) # D)" by (subst A(1)) simp
  then have "arrivals A = take 2 [5, 6, 5]" using A(2) ar by (metis append_eq_conv_conj)
  then show ?thesis using A(1,3) bytes by auto
qed

end
