(* ===== verification/Cgi_Process.thy ===== *)
theory Cgi_Process
  imports Http_Spec
begin

text \<open>
  CGI programs as processes at the other ends of the two pipes (src/protocal.cc, \<open>CgiProcess\<close>). A program is
  any process that reads its standard input, writes, computes and perhaps exits. Whether it ever meets
  the end of its input is decided by the parent: by the order of its calls of \<open>close\<close> in \<open>cgi_parent\<close>,
  which closes the write end of the input pipe only when it has read the output to its end.
\<close>

section \<open>Processes\<close>

text \<open>
  A program reads a byte of its standard input (\<open>None\<close> at the end of file), writes, computes or exits. The
  type has infinite processes, so that a program may also run for ever.
\<close>

codatatype proc = PRead "char option \<Rightarrow> proc" | PWrite string proc | PStep proc | PExit "32 word"

text \<open>
  What a process prints and its wait status, for the bytes in the pipe and for whether the file ends behind
  them. \<open>None\<close> is a process that does not end: it runs for ever, or waits for a byte that does not come.
\<close>

partial_function (option) run_proc :: "proc \<Rightarrow> bool \<Rightarrow> string \<Rightarrow> (string \<times> 32 word) option" where
  "run_proc p ended inp = (case p of
     PRead k \<Rightarrow> (case inp of
         [] \<Rightarrow> if ended then run_proc (k None) ended [] else None
       | c # rest \<Rightarrow> run_proc (k (Some c)) ended rest)
   | PWrite s q \<Rightarrow> Option.bind (run_proc q ended inp) (\<lambda>(out, st). Some (s @ out, st))
   | PStep q \<Rightarrow> run_proc q ended inp
   | PExit st \<Rightarrow> Some ([], st))"

lemma run_proc_simps [simp]:
  "run_proc (PRead k) ended (c # inp) = run_proc (k (Some c)) ended inp"
  "run_proc (PRead k) True [] = run_proc (k None) True []"
  "run_proc (PRead k) False [] = None"
  "run_proc (PWrite s p) ended inp = map_option (map_prod ((@) s) id) (run_proc p ended inp)"
  "run_proc (PStep p) ended inp = run_proc p ended inp"
  "run_proc (PExit st) ended inp = Some ([], st)"
  by (subst run_proc.simps; simp; cases "run_proc p ended inp"; auto)+

definition behind_pipe :: "(string list \<Rightarrow> proc) \<Rightarrow> cgi_program" where
  "behind_pipe p env ended inp = run_proc (p env) ended inp"

text \<open>
  The ways a process can behave without a byte of input: it asks for one sooner or later (\<open>wants_input\<close>), \<open>leaves\<close> without
  having asked, with what it printed and its status, or neither.
\<close>

inductive wants_input :: "proc \<Rightarrow> bool" where
  wants_input_read: "wants_input (PRead k)"
| wants_input_write: "wants_input p \<Longrightarrow> wants_input (PWrite s p)"
| wants_input_step: "wants_input p \<Longrightarrow> wants_input (PStep p)"

inductive leaves :: "proc \<Rightarrow> string \<Rightarrow> 32 word \<Rightarrow> bool" where
  leaves_exit: "leaves (PExit st) [] st"
| leaves_write: "leaves p out st \<Longrightarrow> leaves (PWrite s p) (s @ out) st"
| leaves_step: "leaves p out st \<Longrightarrow> leaves (PStep p) out st"

inductive_simps wants_input_simps [simp]: "wants_input (PRead k)" "wants_input (PWrite s p)" "wants_input (PStep p)" "wants_input (PExit st)"
inductive_simps leaves_simps [simp]: "leaves (PRead k) out st" "leaves (PWrite s p) out st" "leaves (PStep p) out st"
  "leaves (PExit st0) out st"

lemma leaves_runs: "leaves p out st \<Longrightarrow> run_proc p ended inp = Some (out, st)"
  by (induction rule: leaves.induct) auto

lemma wants_input_waits: "wants_input p \<Longrightarrow> run_proc p False [] = None"
  by (induction rule: wants_input.induct) auto

text \<open>A run without input and without its end that comes to an end is one of a process that leaves.\<close>

lemma run_leaves:
  assumes "run_proc p False [] = Some (out, st)"
  shows "leaves p out st"
proof -
  have "\<not> ended \<longrightarrow> inp = [] \<longrightarrow> leaves p (fst r) (snd r)" if "run_proc p ended inp = Some r" for p ended inp r
  proof (rule run_proc.raw_induct [where P = "\<lambda>p ended inp r. \<not> ended \<longrightarrow> inp = [] \<longrightarrow> leaves p (fst r) (snd r)", OF _ that])
    fix f p ended inp r
    assume IH: "\<And>p ended inp r. f p ended inp = Some r \<Longrightarrow> \<not> ended \<longrightarrow> inp = [] \<longrightarrow> leaves p (fst r) (snd r)"
      and run: "(case p of
         PRead k \<Rightarrow> (case inp of
             [] \<Rightarrow> if ended then f (k None) ended [] else None
           | c # rest \<Rightarrow> f (k (Some c)) ended rest)
       | PWrite s q \<Rightarrow> Option.bind (f q ended inp) (\<lambda>(out, st). Some (s @ out, st))
       | PStep q \<Rightarrow> f q ended inp
       | PExit st \<Rightarrow> Some ([], st)) = Some r"
    show "\<not> ended \<longrightarrow> inp = [] \<longrightarrow> leaves p (fst r) (snd r)"
      using run IH by (cases p) (auto simp: bind_eq_Some_conv dest!: IH)
  qed
  from this [OF assms] show ?thesis by simp
qed

lemma run_proc_unfed: "run_proc p False [] = Some (out, st) \<longleftrightarrow> leaves p out st"
  using run_leaves leaves_runs by blast

section \<open>Programs behind the pipes\<close>

lemma cgi_reply_behind_pipe:
  assumes "program_at fs p = Some (behind_pipe prog)"
  shows "cgi_reply fs p M par = (case run_proc (prog (plain_env M par)) False [] of None \<Rightarrow> None
    | Some (out, st) \<Rightarrow> Some \<lparr>r_code = 200, r_headers = [], r_body = out @ out\<rparr>)"
  using assms by (auto simp: cgi_reply_def program_of_def behind_pipe_def split: option.splits)

lemma http_spec_program:
  assumes "map toupper m = M" and "M = ''GET'' \<and> query_split u = (t, par) \<or> M = ''POST'' \<and> (t, par) = (u, [])"
    and "fs (target_path t) = Some (File True c (Some prog))"
  shows "http_spec fs m u = cgi_reply fs (target_path t) M par"
  using assms by (auto simp: http_spec_def path_reply_def Let_def)

text \<open>
  C33 (error, a program behind the pipes). No byte is ever written into the input pipe, since the body of every request
  is lost, and its write end is closed only after the output was read. So an executable file that asks for a byte of
  its standard input, for whatever request, makes its handler wait for ever, although with the end closed
  before it would have met the end of its input; and so does one that runs for ever. Exactly the programs that leave without
  asking are answered: they are run twice, and what they print is the body.
\<close>

theorem program_that_reads_blocks:
  assumes "serves os fs" and "request_ok m u v hs" and "CHR 0x00 \<notin> set u"
    and "sock_in w = map RByte (request_line m u v) @ RByte CR # RByte LF # header_block hs @ i"
    and "EvSignal ''SIGCHLD'' \<in> set (trace w)"
    and "map toupper m = M" and "M = ''GET'' \<and> query_split u = (t, par) \<or> M = ''POST'' \<and> (t, par) = (u, [])"
    and "fs (target_path t) = Some (File True c (Some (behind_pipe prog)))"
  shows "(wants_input (prog (plain_env M par)) \<longrightarrow> HandlerRequest os False fd0 size0 sock w = Inl Blocked_forever) \<and>
    (\<forall>out st. leaves (prog (plain_env M par)) out st \<longrightarrow>
      (\<exists>w'. HandlerRequest os False fd0 size0 sock w = Inr w' \<and>
        wire sock (trace w') = wire sock (trace w) @ status_line_of 200 @ [CR, LF] @ out @ out)) \<and>
    ((\<nexists>out st. leaves (prog (plain_env M par)) out st) \<longrightarrow> HandlerRequest os False fd0 size0 sock w = Inl Blocked_forever)"
proof -
  let ?p = "prog (plain_env M par)"
  have at: "program_at fs (target_path t) = Some (behind_pipe prog)" using assms(8) by (simp add: program_at_def)
  have spec: "http_spec fs m u = (case run_proc ?p False [] of None \<Rightarrow> None
      | Some (out, st) \<Rightarrow> Some \<lparr>r_code = 200, r_headers = [], r_body = out @ out\<rparr>)"
    using http_spec_program [where fs = fs and t = t and par = par and u = u and m = m, OF assms(6-8)]
      cgi_reply_behind_pipe [OF at] by simp
  have blocks: "HandlerRequest os False fd0 size0 sock w = Inl Blocked_forever" if "run_proc ?p False [] = None"
    using handler_refines_spec [OF assms(1-5), of fd0 size0 sock] that by (simp add: spec)
  have answers: "\<exists>w'. HandlerRequest os False fd0 size0 sock w = Inr w' \<and>
      wire sock (trace w') = wire sock (trace w) @ status_line_of 200 @ [CR, LF] @ out @ out"
    if "run_proc ?p False [] = Some (out, st)" for out st
    using handler_refines_spec [OF assms(1-5), of fd0 size0 sock] that by (simp add: spec reply_bytes_def)
  have "run_proc ?p False [] = None" if "\<nexists>out st. leaves ?p out st"
    using that run_proc_unfed by (cases "run_proc ?p False []") auto
  then have never: "(\<nexists>out st. leaves ?p out st) \<longrightarrow> HandlerRequest os False fd0 size0 sock w = Inl Blocked_forever"
    using blocks by blast
  show ?thesis
  proof (intro conjI never allI impI)
    show "HandlerRequest os False fd0 size0 sock w = Inl Blocked_forever" if "wants_input ?p"
      by (rule blocks [OF wants_input_waits [OF that]])
    show "\<exists>w'. HandlerRequest os False fd0 size0 sock w = Inr w' \<and>
        wire sock (trace w') = wire sock (trace w) @ status_line_of 200 @ [CR, LF] @ out @ out"
      if "leaves ?p out st" for out st
      by (rule answers [OF leaves_runs [OF that]])
  qed
qed

text \<open>
  A program that copies one byte of its input waits, and one that prints for ever runs; one that only greets ends.
  With a closed input the first would end, too.
\<close>

definition copier :: "string list \<Rightarrow> proc" where
  "copier env = PRead (\<lambda>x. case x of None \<Rightarrow> PExit 0 | Some c \<Rightarrow> PWrite [c] (PExit 0))"

definition greeter :: "string list \<Rightarrow> proc" where
  "greeter env = PWrite ''hi'' (PExit 0)"

primcorec spinner :: proc where
  "spinner = PStep spinner"

lemma spinner_never_leaves: "leaves p out st \<Longrightarrow> p \<noteq> spinner"
proof (induction rule: leaves.induct)
  case (leaves_step p out st)
  then show ?case by (subst spinner.code) simp
qed (subst spinner.code; simp)+

definition program_fs :: fs where
  "program_fs p =
     (if p = ''wwwroot/copy'' then Some (File True ''#!'' (Some (behind_pipe copier)))
      else if p = ''wwwroot/greet'' then Some (File True ''#!'' (Some (behind_pipe greeter)))
      else if p = ''wwwroot/spin'' then Some (File True ''#!'' (Some (behind_pipe (\<lambda>env. spinner))))
      else None)"

lemma program_fs_serves: "serves (fs_os program_fs) program_fs"
  by (rule fs_os_serves) (auto simp: program_fs_def contents_def PAGE_400_def PAGE_404_def PAGE_500_def)

lemma program_that_reads_blocks_witness:
  "HandlerRequest (fs_os program_fs) False 0 0 8 (demo_world ''POST'' ''/copy'') = Inl Blocked_forever \<and>
   behind_pipe copier [] True [] = Some ([], 0) \<and>
   HandlerRequest (fs_os program_fs) False 0 0 8 (demo_world ''POST'' ''/spin'') = Inl Blocked_forever \<and>
   (\<exists>w'. HandlerRequest (fs_os program_fs) False 0 0 8 (demo_world ''POST'' ''/greet'') = Inr w' \<and>
      wire 8 (trace w') = wire 8 (trace (demo_world ''POST'' ''/greet'')) @ status_line_of 200 @ [CR, LF] @ ''hi'' @ ''hi'')"
proof -
  have ok: "request_ok ''POST'' u ''HTTP/1.1'' [''Host: h'']" "CHR 0x00 \<notin> set u" if "u \<in> {''/copy'', ''/greet'', ''/spin''}" for u
    using that by (auto intro!: demo_request_ok simp: word_ok_def isspace_def)
  have sig: "EvSignal ''SIGCHLD'' \<in> set (trace (demo_world ''POST'' u))" for u by simp
  have up: "map toupper ''POST'' = ''POST''" by (rule toupper_demo)
  note run = program_that_reads_blocks [OF program_fs_serves ok _ sig up disjI2 [OF conjI [OF refl refl]], OF _ _ demo_world_in(1)]
  have copy: "program_fs (target_path ''/copy'') = Some (File True ''#!'' (Some (behind_pipe copier)))"
    and greet: "program_fs (target_path ''/greet'') = Some (File True ''#!'' (Some (behind_pipe greeter)))"
    and spin: "program_fs (target_path ''/spin'') = Some (File True ''#!'' (Some (behind_pipe (\<lambda>env. spinner))))"
    by (simp_all add: program_fs_def target_path_def)
  have "wants_input (copier env)" "\<nexists>out st. leaves spinner out st" for env
    using spinner_never_leaves by (auto simp: copier_def)
  moreover have "behind_pipe copier [] True [] = Some ([], 0)" by (simp add: behind_pipe_def copier_def)
  moreover have "\<exists>w'. HandlerRequest (fs_os program_fs) False 0 0 8 (demo_world ''POST'' ''/greet'') = Inr w' \<and>
      wire 8 (trace w') = wire 8 (trace (demo_world ''POST'' ''/greet'')) @ status_line_of 200 @ [CR, LF] @ ''hi'' @ ''hi''"
    using run [OF _ _ greet, of 0 0 8] by (simp add: greeter_def)
  ultimately show ?thesis using run [OF _ _ copy, of 0 0 8] run [OF _ _ spin, of 0 0 8] by auto
qed

end
