(* ===== verification/Spec2Isabelle.thy ===== *)
theory Spec2Isabelle
  imports Http_Partial Server_Run Lazy_Singleton Log_Run Timer_Heap Cgi_Calc Bench_Pages Server_Concurrent Cgi_Process
begin

text \<open>
  A model of the HTTP server in this repository: a small C++ server for static files and CGI
  programs, with its own log, thread pool and timer heap.

  \<^bold>\<open>The program.\<close> \<open>main\<close> (src/main.cc) makes an \<open>HttpServer\<close> (src/http_server.cc) on the
  port it is given. \<open>InitServer\<close> ignores two signals, opens the listening socket through the
  singleton \<open>TcpServer\<close> (src/tcp_server.cc) and starts the singleton \<open>ThreadPool\<close>
  (src/thread_pool.cc, include/task.h). \<open>Loop\<close> accepts connections and pushes each as a \<open>Task\<close>; a
  worker takes it and runs \<open>HandlerTask::HandlerRequest\<close> (src/protocal.cc), which reads and
  parses one request (\<open>EndPoint::RecvHttpRequest\<close>, over \<open>Util::ReaLine\<close> and
  \<open>Util::Cutstring\<close> of src/util.cc), builds a response from a file or from a CGI program run in
  a child process (\<open>BuildHttpResponse\<close>, \<open>CgiProcess\<close>), sends it and closes the socket. Every
  part writes to the log (src/log.cc): the macros make an event, a logger hands it to its
  appenders, and an appender writes what its pattern formatter makes of it. The CGI program
  that comes with the server is a calculator (wwwroot/test_cgi.cc). The timer heap
  (src/timer.cc) belongs to the sources but nothing calls it. The repository also holds the load
  generator its author measures the server with, WebBench (WebBench/webbench.c, which includes
  WebBench/socket.c): \<open>main\<close> reads the options, \<open>build_request\<close> makes one request from the URL,
  \<open>bench\<close> forks the clients, each of which sends that request in the loops of \<open>benchcore\<close> until its
  alarm rings and writes its counters into a pipe, and the parent adds them up.

  \<^bold>\<open>The theories\<close>, each importing those it calls:

  \<^item> \<open>Prelude\<close>: the collections, the conversions between \<open>int\<close> and \<open>size_t\<close>, facts on lists.
  \<^item> \<open>Cstd\<close>: what the sources use of the C and C++ libraries (\<open>atoi\<close>, \<open>find\<close>, \<open>isspace\<close>, the
    printing of integers, \<open>htons\<close>).
  \<^item> \<open>Log_Level\<close>: the levels, their order and their names.
  \<^item> \<open>World\<close>: the operating system. A run is a list of events, one per system call, log
    statement or console write; an oracle \<open>os\<close> gives the answer of each call as a function of
    the events before it, so theorems for every \<open>os\<close> hold for every behaviour of the system.
    The bytes of the client are a script with failing reads at any place.
  \<^item> \<open>Net_Util\<close>: src/util.cc. \<open>ReaLine\<close> refines a line reader on byte streams
    (\<open>ReaLine_refines_abs_line\<close>); the locale \<open>cutter\<close> is the contract of cutting at a separator,
    interpreted on \<open>Util::Cutstring\<close> and, in \<open>Cgi_Calc\<close>, on the calculator's \<open>CutString\<close>.
  \<^item> \<open>Http_Message\<close>, \<open>Http_Recv\<close>, \<open>Http_Build\<close>, \<open>Http_Send\<close>: src/protocal.cc and
    include/protocal.h, one definition for each method of \<open>EndPoint\<close>. The records have the
    members of the classes; members no constructor sets are arguments. A getter that returns
    a copy is modelled as one: what is pushed on the copy is discarded.
  \<^item> \<open>Http_Spec\<close>: what the handler computes, as a function \<open>http_spec\<close> of a file system, the method and
    the target, without system calls; \<open>serves\<close> relates an \<open>os\<close> to a file system, and \<open>fs_os\<close> makes one
    for every file system. The specification is that of the code, with its quirks (no headers for
    status 200, the output of a program twice, two sets of headers for 404).
  \<^item> \<open>Http_Total\<close>: the handler always comes to an end.
  \<^item> \<open>Thread_Pool\<close>: the pool as a step relation, one call of one thread per step, with the
    mutex, the condition variable and spurious wakeups; \<open>exec_step\<close> is the same relation as a
    function. The locale \<open>fifo\<close> is the contract of the task queue.
  \<^item> \<open>Lazy_Singleton\<close>: the double-checked creation, every interleaving of \<open>n\<close> threads.
  \<^item> \<open>Tcp_Server\<close>, \<open>Http_Server\<close>: the socket, the server, its loop and \<open>main\<close>.
  \<^item> \<open>Server_Run\<close>: the pool with the handler in its workers, as a step relation over the pool and the
    events so far.
  \<^item> \<open>Http_Descriptors\<close>, \<open>Http_Concurrent\<close>: the descriptors a handler opens and closes; handlers at the same
    time, as a list of events marked with the handler they belong to, in which each call is answered from
    what the whole process did before it (\<open>view\<close>, \<open>seen\<close>).
  \<^item> \<open>Server_Concurrent\<close>: the accept loop, the pool and the handlers as one step relation \<open>process_step\<close> in which
    a single event of a handler is a step, and descriptors are used again.
  \<^item> \<open>Cgi_Process\<close>: CGI programs as (possibly infinite) processes that read and write at the ends of the two pipes.
    Whether a program meets the end of its input follows from the ends its parent and itself hold (\<open>pipe_end\<close>,
    \<open>read_output\<close> in \<open>Http_Build\<close>).
  \<^item> \<open>Log_Format\<close>, \<open>Log_Core\<close>: the pattern parser and the items; loggers, appenders and the
    manager in a store under pointers. The locale \<open>log_sink\<close> is the contract of an appender,
    interpreted on the console and on the file appender.
  \<^item> \<open>Timer_Heap\<close>: the heap in an array of pointers, with bounds, dangling pointers and
    overflow checked. The locale \<open>timer_queue\<close> is the contract of a priority queue, and what
    \<open>tick\<close> promises follows from it.
  \<^item> \<open>Cgi_Calc\<close>: the calculator, as a function of its environment and input.
  \<^item> \<open>Http_Partial\<close>: \<open>SendHttpResponse\<close> where \<open>send\<close> takes only a part of the data.
  \<^item> \<open>Log_Run\<close>: handler and log together. The log statements in the trace of a run are carried out
    by the model of the log.
  \<^item> \<open>Web_Bench\<close>: the settings of WebBench (its globals, as a record), the option loop over
    \<open>getopt_long\<close>, and \<open>build_request\<close> with its character arrays.
  \<^item> \<open>Bench_Core\<close>: \<open>Socket\<close>, the loops of \<open>benchcore\<close>, \<open>bench\<close> with its children and the pipe, and
    \<open>main\<close>. The network answers through an oracle \<open>net\<close> over the events so far, as \<open>os\<close> does for the
    server. The locale \<open>polled_loop\<close> is the contract of a loop that looks for the alarm in every round,
    interpreted on the two loops of \<open>benchcore\<close>.
  \<^item> \<open>Bench_Server\<close>, \<open>Bench_Pages\<close>: WebBench as a client of the server, and what its counters make of
    the server's replies.
  \<^item> This theory: properties that span several of them.

  \<^bold>\<open>What is shown.\<close> For the handler: it refines \<open>http_spec\<close>, byte for byte, on every system
  that serves a file system; it returns on every input below 2 GiB unless a program does not end; the shape of
  every reply, whatever the client sends and the system answers; the exact calls for a static page; the exact bytes for a CGI program, and
  for the calculator from the bytes of the request to the page; that the socket is closed
  last; and where the code falls short (headers and bodies are lost, the program runs twice, one that
  reads its input is waited for without end, the size of a file is cut to 32 bits, the target is not checked). Where
  \<open>send\<close> takes only parts, the output of a program arrives whole, but heads and files are cut. For the pool: mutual
  exclusion, first in first out, each connection handled exactly once, no lost wakeup, and a
  bound on the steps, by an invariant kept by every step. For the server: every accepted socket is
  pushed, in order, and with the pool's theorems every accepted connection is handled; with the
  handlers in the workers every socket carries exactly the specified reply in the end,
  also when the system calls of the handlers, of the pool and of the accept loop interleave: a handler closes its socket
  and what it opened itself, once, and nothing else, so what is sent on a socket between its acceptance and its
  closing is the reply to its own client.
  For the timer heap: the heap order is kept by every operation, \<open>pop_timer\<close> removes an
  earliest timer, \<open>tick\<close> calls and frees exactly the due timers, in order. For the log: patterns
  parse back into what was printed, a log statement writes exactly one default line, and with
  the handler the console holds exactly the lines of the run in order. For WebBench: options
  parse back into the settings they were printed from; the request is the concatenation of its parts
  and fits its array, but long hosts and ports overflow theirs; the counters of a client account for
  every attempt, byte and socket; it returns after its alarm, except with \<open>--keep\<close> and no server;
  the parent prints the sums of what the children counted when every child reports, and otherwise waits without end
  for the missing reports, since it holds the write end of the pipe itself. Against the model of the server: its
  HTTP/1.x requests get the specified reply, and without \<open>--keep\<close> \<open>k\<close> such replies are reported as \<open>k\<close> pages and
  their bytes, or no bytes with \<open>--force\<close>; its HTTP/0.9 request gets no byte.

  \<^bold>\<open>Loops and fuel.\<close> The loops over the input, the heap and the pattern are total functions with
  termination proofs. \<open>tick_loop\<close> has fuel because the source tests a pointer read before the
  loop; \<open>nat (cur_size h) + 1\<close> rounds are enough, and \<open>tick_fires_due\<close> shows that \<open>tick\<close>
  returns. \<open>Logger_log\<close> has fuel because loggers could form a cycle; a chain of \<open>n\<close> loggers
  needs \<open>n\<close>, one made by the manager two (\<open>Logger_log_returns\<close>). The accept loop does not
  end; its state is given after any number \<open>n\<close> of rounds. A CGI program that never ends, or waits for
  input that never comes, is the failure \<open>Blocked_forever\<close>; a parent of WebBench that waits for a report
  that never comes is \<open>Waits_forever\<close>. The loops of \<open>benchcore\<close> have fuel because they end when the alarm
  rings: \<open>benchcore_returns\<close> shows that a round more than the flag can be read is enough, and
  \<open>keep_alive_hangs\<close> that no fuel is enough for \<open>--keep\<close> without a server. \<open>option_loop\<close>, \<open>collect\<close>
  and \<open>fork_loop\<close> are total, with measures on the arguments, the text and the clients left.

  \<^bold>\<open>Parameters and their hypotheses.\<close> \<open>full_send\<close>: \<open>send\<close> takes all it is given. \<open>sigchld_law\<close>:
  after \<open>SIGCHLD\<close> is ignored \<open>waitpid\<close> fails once the child has ended, as POSIX says.
  \<open>plain_file\<close> and \<open>cgi_ready\<close> describe a file system in which a path is a readable file or a
  program that can be started, and calls that succeed; \<open>cgi_ready\<close> also takes the memory of the destroyed
  environment strings to be still intact when the program is started. \<open>socket_calls_ok\<close>: \<open>socket\<close>, \<open>bind\<close>
  and \<open>listen\<close> succeed. The text of a date is the parameter \<open>date\<close>. Each theorem with such a
  hypothesis has a witness on a concrete system (\<open>demo_os\<close>, \<open>calc_os\<close>, \<open>net_os\<close>, \<open>demo_net\<close>).
  \<open>rings_by\<close>: the alarm rings before the flag is read too often. \<open>net_ok\<close>: the server can be
  reached and the calls of WebBench's parent succeed. \<open>closed_peer\<close>: a server that takes requests and
  sends nothing; \<open>page_peer\<close>: one that sends a reply of fixed length, in portions of any size. \<open>serves\<close>: \<open>stat\<close>, \<open>open\<close>, \<open>sendfile\<close> and \<open>execl\<close>
  answer from one file system that does not change, whose files are below 2 GiB, and the laws above
  hold; a \<open>sendfile\<close> from an open file gives its contents. \<open>fresh_fds\<close>: \<open>open\<close> and \<open>pipe\<close> answer with
  descriptors that are not in use, \<open>fresh_accepts\<close>: so does \<open>accept4\<close> (\<open>fd_os\<close>). The two rates WebBench prints are computed in single precision and are the
  parameter \<open>rates\<close>; \<open>junk\<close> is what two uninitialised variables hold.

  \<^bold>\<open>Not modelled.\<close> Log statements of the handler and the server are events of the trace; \<open>Log_Run\<close> carries them
  out afterwards. In \<open>Server_Run\<close> one handler runs as one step of its worker; where their calls
  interleave (\<open>Http_Concurrent\<close>, \<open>Server_Concurrent\<close>) the handlers are those that return, and the main thread does
  not run into the limit of descriptors. A child that keeps the pipe ends of another handler open
  is left out, and so are memory order weaker than interleaving, the destructors of
  objects that live as long as the process, and the pages under wwwroot. Of WebBench: the messages
  \<open>getopt_long\<close> prints itself, the reason \<open>perror\<close> adds, the floating point of the rates, the
  one second of sleep of a child, output still in a buffer when a child is forked, and calls of a client that
  never return: a \<open>read\<close> that starts just after the alarm could wait for ever, which in the model answers. The
  environment a CGI program inherits from the server is part of the function that stands for the program.
\<close>

section \<open>The calculator over HTTP\<close>



lemma calc_target_path: "resource_path ''/test_cgi'' = ''wwwroot/test_cgi''"
  by (simp add: resource_path_def WWW_ROOT_def HOME_PAGE_def)



text \<open>
  The headers of a request are lost,
  so a POST reaches the calculator with length 0 whatever body the client sends: the
  program divides by zero, prints nothing, and the client gets status 200 with no body.
\<close>

theorem calculator_post_is_empty:
  assumes "request_ok m ''/test_cgi'' v hs" and "map toupper m = ''POST''"
    and "sock_in w = map RByte (request_line m ''/test_cgi'' v) @ RByte CR # RByte LF # header_block hs @ i"
    and "cgi_ready os ''wwwroot/test_cgi'' st (Some (calc_cgi ch0))"
    and "sigchld_law os" and "EvSignal ''SIGCHLD'' \<in> set (trace w)" and "full_send os"
  shows "\<exists>w'. HandlerRequest os False fd0 size0 sock w = Inr w' \<and>
    wire sock (trace w') = wire sock (trace w) @ status_line_of 200 @ [CR, LF]"
proof -
  have prog: "program_of (Some (calc_cgi ch0)) (plain_env ''POST'' []) False [] = Some ([], 8)"
    using calc_empty_post by (simp add: program_of_def plain_env_def)
  have "\<exists>w'. HandlerRequest os False fd0 size0 sock w = Inr w' \<and>
    wire sock (trace w') = wire sock (trace w) @ status_line_of 200 @ [CR, LF] @ [] @ []"
  proof (rule HandlerRequest_cgi [OF assms(1,2) _ assms(3)])
    show "(''/test_cgi'', []) = (if ''POST'' = ''GET'' then query_split ''/test_cgi'' else (''/test_cgi'', []))" by simp
    show "cgi_ready os (resource_path ''/test_cgi'') st (Some (calc_cgi ch0))"
      using assms(4) by (simp add: calc_target_path)
  qed (use assms(5-7) prog in simp_all)
  then show ?thesis by simp
qed

section \<open>The server and its pool\<close>

lemma start_events_quiet [simp]: "pushes (start_events os p h) = []" "accepted (start_events os p h) = []"
  by (simp_all add: start_events_def init_events_def Let_def)

lemma start_events_signal: "EvSignal ''SIGCHLD'' \<in> set (start_events os p h)"
  by (simp add: start_events_def Let_def)

text \<open>
  Whatever connections arrive: when \<open>main\<close> has run
  any number of rounds and the pool has worked off what it was handed, as far as it can
  go without spurious wakeups, every accepted socket was handled exactly once, by a worker
  that started after \<open>SIGCHLD\<close> was ignored.
\<close>

theorem server_handles_every_connection:
  assumes "socket_calls_ok os" and "length argv = 2" and "main_fn os created n argv w = Some r"
    and "trace (final_world r) = trace w @ es"
    and "pool_run (new_pool (InitThreadPool created NUM) (pushes es)) as s" and "\<exists>i < NUM. created i"
    and "\<And>a s'. pool_step s a s' \<Longrightarrow> is_spurious a"
  shows "mset (map snd (handled s)) = mset (accepted es) \<and> EvSignal ''SIGCHLD'' \<in> set es"
proof -
  let ?start = "start_events os (atoi (argv ! 1)) (trace w)"
  obtain hs l where "main_fn os created n argv w = Some (loop_rounds os l n hs (w\<lparr>trace := trace w @ ?start\<rparr>))"
    using main_start [OF assms(1,2)] by blast
  with assms(3) have "r = loop_rounds os l n hs (w\<lparr>trace := trace w @ ?start\<rparr>)" by simp
  then obtain es2 where "trace (final_world r) = (trace w @ ?start) @ es2" and p: "pushes es2 = accepted es2"
    using loop_rounds_events [of os l n hs "w\<lparr>trace := trace w @ ?start\<rparr>"] by auto
  with assms(4) have es: "es = ?start @ es2" by simp
  have "0 < length (InitThreadPool created NUM)"
    using assms(6) by (auto simp: InitThreadPool_def filter_empty_conv)
  then have ne: "workers s \<noteq> []" using pool_run_inv [OF assms(5)] by fastforce
  have inv: "pool_inv (pushes es) s" using pool_run_inv [OF assms(5)] ..
  have "mset (map snd (handled s)) = mset (pushes es)" using stuck_final [OF inv ne] assms(7) by blast
  then show ?thesis using p start_events_signal by (simp add: es)
qed

section \<open>Concrete runs\<close>

text \<open>The demonstration system with the calculator as its program.\<close>

definition calc_os :: os where
  "calc_os = demo_os\<lparr>os_exec := \<lambda>h p. if p = ''wwwroot/test_cgi'' then Some (calc_cgi CHR ''x'') else None\<rparr>"

lemma calc_os_laws: "full_send calc_os" "sigchld_law calc_os"
  by (simp_all add: full_send_def sigchld_law_def calc_os_def demo_os_def)

lemma calc_os_ready: "cgi_ready calc_os ''wwwroot/test_cgi'' \<lparr>st_mode = 0x81ED, st_size = 9\<rparr> (Some (calc_cgi CHR ''x''))"
  by (simp add: cgi_ready_def calc_os_def demo_os_def S_ISDIR_def)


lemma calculator_post_is_empty_witness:
  "\<exists>w'. HandlerRequest calc_os False 0 0 8 (demo_world ''POST'' ''/test_cgi'') = Inr w' \<and>
    wire 8 (trace w') = wire 8 (trace (demo_world ''POST'' ''/test_cgi'')) @ status_line_of 200 @ [CR, LF]"
  by (rule calculator_post_is_empty [OF demo_request_ok toupper_demo(2) demo_world_in(1) calc_os_ready
        calc_os_laws(2) _ calc_os_laws(1)])
     (simp_all add: word_ok_def isspace_def)

text \<open>One round of the loop accepts the socket 8, and the demonstration run of the pool handles it.\<close>

lemma server_handles_every_connection_witness:
  "\<exists>r es. main_fn demo_os (\<lambda>i. i < 2) 1 [''./http_server'', ''8081''] \<lparr>sock_in = [], trace = []\<rparr> = Some r \<and>
    trace (final_world r) = [] @ es \<and> mset (map snd (handled demo_end)) = mset (accepted es) \<and>
    EvSignal ''SIGCHLD'' \<in> set es"
proof -
  let ?w = "\<lparr>sock_in = [], trace = []\<rparr>"
  have ok: "socket_calls_ok demo_os" by (simp add: socket_calls_ok_def demo_os_def)
  have acc: "os_accept demo_os h fd = (8, 0)" for h fd by (simp add: demo_os_def)
  obtain hs l where m: "main_fn demo_os (\<lambda>i. i < 2) 1 [''./http_server'', ''8081''] ?w =
      Some (loop_rounds demo_os l 1 hs (?w\<lparr>trace := trace ?w @ start_events demo_os (atoi ''8081'') []\<rparr>))"
    using main_start [OF ok, of "[''./http_server'', ''8081'']" "\<lambda>i. i < 2" 1 ?w] by auto
  let ?r = "loop_rounds demo_os l 1 hs (?w\<lparr>trace := trace ?w @ start_events demo_os (atoi ''8081'') []\<rparr>)"
  let ?es = "start_events demo_os (atoi ''8081'') [] @ [EvAccept4 l 8, EvLog INFO ''accept success!'', EvPush 8]"
  have "trace (final_world ?r) = [] @ ?es" "pushes ?es = [8]"
    by (simp_all add: loop_round_def os_calls emit_def Let_def acc)
  then obtain es where e: "trace (final_world ?r) = [] @ es" "pushes es = [8]" by blast
  have pool: "new_pool (InitThreadPool (\<lambda>i. i < 2) NUM) (pushes es) = new_pool (InitThreadPool (\<lambda>i. True) 2) [8]"
    using e(2) by (simp add: InitThreadPool_def NUM_def numeral_2_eq_2 numeral_3_eq_3)
  have "mset (map snd (handled demo_end)) = mset (accepted es) \<and> EvSignal ''SIGCHLD'' \<in> set es"
    by (rule server_handles_every_connection [OF ok _ m _ _ _ demo_stuck])
       (use e pool demo_pool_run in \<open>auto intro!: exI [of _ 0] simp: NUM_def\<close>)
  then show ?thesis using m e(1) by blast
qed

end
